(* ===== verification/Pgm_Prelude.thy ===== *)
theory Pgm_Prelude
  imports Main "HOL-Library.Word"
begin

unbundle bit_operations_syntax

text \<open>
  Shared vocabulary of the development: the machine types the sources use (LP64: \<open>size_t\<close> and
  pointers are 64 bits wide, \<open>int\<close> and \<open>unsigned int\<close> 32 bits), the few C string routines that
  \<^verbatim>\<open>src/src/pgm.cpp\<close> calls, copies between byte arrays, and the lemmas on words, lists and
  \<open>mod\<close> that several components need.

  Conventions.  A C array of fixed size is a total function on \<open>nat\<close>; every operation that indexes
  one with a number supplied by its caller and not checked by the code returns \<open>None\<close> when that
  index is outside the array (undefined behaviour of the C++ program).  A \<open>size_t\<close> is a
  \<open>64 word\<close>, so that its wrap-around is the one of the machine; a C \<open>int\<close> that only counts
  objects of an array bounded by 4096 is an \<open>int\<close>.
\<close>

named_theorems c_string_simps \<open>C string routines on NUL-free strings\<close>

type_synonym size_t = "64 word"
type_synonym addr = "64 word"
type_synonym byte = "8 word"
type_synonym pid_t = int

section \<open>C strings\<close>

text \<open>
  A C string is its content up to the terminating NUL.  A \<open>char name[N]\<close> field that was cleared
  by \<open>memset\<close> and then filled by \<open>strncpy\<close> is the same kind of list, of length at most \<open>N\<close>.
\<close>

definition strnlen :: "string \<Rightarrow> nat \<Rightarrow> nat" where
  "strnlen s n = min (length s) n"

definition strncmp_eq :: "string \<Rightarrow> string \<Rightarrow> nat \<Rightarrow> bool" where
  "strncmp_eq a b n \<longleftrightarrow> take n a = take n b"

definition strncpy_zeroed :: "string \<Rightarrow> nat \<Rightarrow> string" where
  "strncpy_zeroed s n = take n s"

lemma strnlen_le [c_string_simps]: "strnlen s n \<le> n"
  by (simp add: strnlen_def)

lemma strnlen_pos [c_string_simps]: "0 < n \<Longrightarrow> 0 < strnlen s n \<longleftrightarrow> s \<noteq> []"
  by (simp add: strnlen_def)

lemma strncpy_zeroed_strnlen [c_string_simps]: "strncpy_zeroed s (strnlen s n) = take n s"
  by (simp add: strncpy_zeroed_def strnlen_def min_def)

lemma strncmp_eq_refl [simp]: "strncmp_eq a a n"
  by (simp add: strncmp_eq_def)

text \<open>The digits that \<open>printf\<close> and the stream operators print for an unsigned number.\<close>

function num_str :: "nat \<Rightarrow> nat \<Rightarrow> string" where
  "num_str b n = (if n < b \<or> b < 2 then [''0123456789abcdef'' ! (n mod 16)]
     else num_str b (n div b) @ [''0123456789abcdef'' ! (n mod b mod 16)])"
  by pat_completeness auto
termination
  by (relation "measure snd") (auto simp: div_less_dividend)

declare num_str.simps [simp del]

lemma num_str_nonempty: "num_str b n \<noteq> []"
  by (subst num_str.simps) simp

lemma hex_digit_inj: "''0123456789abcdef'' ! i = ''0123456789abcdef'' ! j \<Longrightarrow> i < 16 \<Longrightarrow> j < 16 \<Longrightarrow> i = j"
  by (auto simp: less_Suc_eq numeral_eq_Suc)

lemma num_str_length:
  assumes "n < 16 ^ k" and "0 < k"
  shows "length (num_str 16 n) \<le> k"
  using assms
proof (induction k arbitrary: n)
  case (Suc k)
  show ?case
  proof (cases "n < 16")
    case False
    then have "0 < k" using Suc.prems(1) by (cases k) auto
    moreover have "n div 16 < 16 ^ k" using Suc.prems(1) by (simp add: div_less_iff_less_mult mult.commute)
    ultimately show ?thesis using Suc.IH [of "n div 16"] False by (subst num_str.simps) simp
  qed (subst num_str.simps, simp)
qed simp

lemma num_str_inj: "num_str 16 m = num_str 16 n \<Longrightarrow> m = n"
proof (induction m arbitrary: n rule: less_induct)
  case (less m)
  let ?d = "\<lambda>k. ''0123456789abcdef'' ! k"
  have small: "num_str 16 k = [?d k]" if "k < 16" for k
    using that by (subst num_str.simps) simp
  have big: "num_str 16 k = num_str 16 (k div 16) @ [?d (k mod 16)]" if "\<not> k < 16" for k
    using that by (subst num_str.simps) simp
  show ?case
  proof (cases "m < 16"; cases "n < 16")
    assume "m < 16" "n < 16"
    then show ?thesis using less.prems hex_digit_inj by (simp add: small)
  next
    assume *: "\<not> m < 16" "\<not> n < 16"
    then have "num_str 16 (m div 16) = num_str 16 (n div 16)" "?d (m mod 16) = ?d (n mod 16)"
      using less.prems by (simp_all add: big)
    then have "m div 16 = n div 16" "m mod 16 = n mod 16"
      using less.IH [of "m div 16" "n div 16"] * hex_digit_inj [of "m mod 16" "n mod 16"] by auto
    then show ?thesis by (metis div_mod_decomp)
  qed (use less.prems num_str_nonempty [of 16 "m div 16"] num_str_nonempty [of 16 "n div 16"] in
      \<open>auto simp: small big\<close>)
qed

section \<open>Byte copies\<close>

definition memcpy_to :: "(nat \<Rightarrow> byte) \<Rightarrow> nat \<Rightarrow> byte list \<Rightarrow> (nat \<Rightarrow> byte)" where
  "memcpy_to m off bs = (\<lambda>i. if off \<le> i \<and> i < off + length bs then bs ! (i - off) else m i)"

definition memcpy_from :: "(nat \<Rightarrow> byte) \<Rightarrow> nat \<Rightarrow> nat \<Rightarrow> byte list" where
  "memcpy_from m off n = map (\<lambda>k. m (off + k)) [0..<n]"

lemma length_memcpy_from [simp]: "length (memcpy_from m off n) = n"
  by (simp add: memcpy_from_def)

lemma memcpy_from_to [simp]: "memcpy_from (memcpy_to m off bs) off (length bs) = bs"
  by (rule nth_equalityI) (simp_all add: memcpy_from_def memcpy_to_def)

lemma memcpy_from_to_disjoint:
  "off + n \<le> off' \<or> off' + length bs \<le> off \<Longrightarrow>
    memcpy_from (memcpy_to m off' bs) off n = memcpy_from m off n"
  by (rule nth_equalityI) (auto simp: memcpy_from_def memcpy_to_def)

section \<open>Words\<close>

lemma unat_lt2p: "unat (x :: 'a::len word) < 2 ^ LENGTH('a)"
  by (rule unsigned_less)

lemma unat_less_2p64 [simp]: "unat (x :: 64 word) < 18446744073709551616"
  using unat_lt2p [of x] by simp

lemma unat_Suc_word:
  "unat (x + 1 :: 'a::len word) = (unat x + 1) mod 2 ^ LENGTH('a)"
  by (simp add: unat_word_ariths mod_simps)

lemma sint_eq_unat:
  assumes "unat (x :: 64 word) < 2 ^ 63"
  shows "sint x = int (unat x)"
proof -
  have "int (unat x) < int (2 ^ 63)"
    using assms by (simp only: of_nat_less_iff)
  then have "int (unat x) < 2 ^ 63"
    by (simp only: of_nat_power of_nat_numeral)
  moreover have "- (2 ^ 63) \<le> int (unat x)"
    by (rule order_trans [OF _ of_nat_0_le_iff]) simp
  ultimately have "signed_take_bit 63 (int (unat x)) = int (unat x)"
    by (intro signed_take_bit_int_eq_self)
  then show ?thesis
    by (simp only: sint_uint uint_nat) simp
qed

text \<open>Reducing modulo a power of two commutes with the wrap-around of a machine word.\<close>

lemma mod_pow2_wrap:
  fixes a :: nat
  assumes "k \<le> w"
  shows "(a mod 2 ^ w) mod 2 ^ k = a mod 2 ^ k"
  using assms by (simp add: mod_mod_cancel le_imp_power_dvd)

lemma unat_of_nat_mod_pow2:
  assumes "unat (n :: 64 word) = 2 ^ k"
  shows "unat (of_nat a mod n) = a mod unat n"
proof -
  have "(2::nat) ^ k < 2 ^ 64"
    using assms unat_lt2p [of n] by simp
  then have "k < 64"
    by (rule power_less_imp_less_exp [rotated]) simp
  then show ?thesis
    using mod_pow2_wrap [of k 64 a] by (simp add: assms unat_mod_distrib unat_of_nat)
qed

lemma mod_add_inj_le:
  fixes a i j n :: nat
  assumes "(a + i) mod n = (a + j) mod n" "i \<le> j" "j < n"
  shows "i = j"
proof -
  have "n dvd (a + j) - (a + i)"
    using assms(1,2) by (intro mod_eq_dvd_iff_nat [THEN iffD1]) simp_all
  then have "n dvd j - i"
    by simp
  moreover have "\<not> n dvd j - i" if "i \<noteq> j"
    by (rule nat_dvd_not_less) (use that assms(2,3) in simp_all)
  ultimately show ?thesis
    by blast
qed

lemma mod_add_inj:
  fixes a i j n :: nat
  assumes "(a + i) mod n = (a + j) mod n" "i < n" "j < n"
  shows "i = j"
proof (cases "i \<le> j")
  case True
  show ?thesis by (rule mod_add_inj_le [OF assms(1) True assms(3)])
next
  case False
  then have "j \<le> i" by simp
  then show ?thesis using mod_add_inj_le [OF assms(1) [symmetric] _ assms(2)] by simp
qed

end
