(* ===== verification/Bounded_Queue.thy ===== *)
theory Bounded_Queue
  imports Main
begin

text \<open>
  The interface of a bounded FIFO queue whose operations block: \<open>None\<close> is an operation that cannot
  proceed.  Data-passing edges use the ring buffer through this contract, the producer enqueuing one
  message per invocation and the consumer dequeuing one.
\<close>

datatype 'a qop = Enq 'a | Deq

text \<open>A sequence of operations on an implementation: the dequeued values and the final queue.\<close>

fun queue_run ::
  "('q \<Rightarrow> 'a \<Rightarrow> 'q option) \<Rightarrow> ('q \<Rightarrow> ('a \<times> 'q) option) \<Rightarrow> 'q \<Rightarrow> 'a qop list \<Rightarrow> ('a list \<times> 'q) option"
where
  "queue_run enq deq q [] = Some ([], q)"
| "queue_run enq deq q (Enq x # ops) =
     (case enq q x of None \<Rightarrow> None | Some q' \<Rightarrow> queue_run enq deq q' ops)"
| "queue_run enq deq q (Deq # ops) =
     (case deq q of None \<Rightarrow> None
      | Some (x, q') \<Rightarrow> map_option (map_prod (Cons x) id) (queue_run enq deq q' ops))"

text \<open>The same sequence on a list that holds at most \<open>n\<close> elements.\<close>

fun list_run :: "nat \<Rightarrow> 'a list \<Rightarrow> 'a qop list \<Rightarrow> ('a list \<times> 'a list) option" where
  "list_run n xs [] = Some ([], xs)"
| "list_run n xs (Enq x # ops) = (if length xs < n then list_run n (xs @ [x]) ops else None)"
| "list_run n [] (Deq # ops) = None"
| "list_run n (x # xs) (Deq # ops) = map_option (map_prod (Cons x) id) (list_run n xs ops)"

fun enqueued :: "'a qop list \<Rightarrow> 'a list" where
  "enqueued [] = []"
| "enqueued (Enq x # ops) = x # enqueued ops"
| "enqueued (Deq # ops) = enqueued ops"

lemma list_run_fifo: "list_run n xs ops = Some (out, ys) \<Longrightarrow> xs @ enqueued ops = out @ ys"
  by (induction n xs ops arbitrary: out ys rule: list_run.induct) (auto split: if_splits)

lemma list_run_bounded: "list_run n xs ops = Some (out, ys) \<Longrightarrow> length xs \<le> n \<Longrightarrow> length ys \<le> n"
  by (induction n xs ops arbitrary: out ys rule: list_run.induct) (auto split: if_splits)

locale bounded_queue =
  fixes enq :: "'q \<Rightarrow> 'a \<Rightarrow> 'q option"
    and deq :: "'q \<Rightarrow> ('a \<times> 'q) option"
    and items :: "'q \<Rightarrow> 'a list"
    and cap :: "'q \<Rightarrow> nat"
    and fits :: "'q \<Rightarrow> 'a \<Rightarrow> bool"
    and invar :: "'q \<Rightarrow> bool"
  assumes items_bounded: "invar q \<Longrightarrow> length (items q) \<le> cap q"
    and enq_full: "invar q \<Longrightarrow> length (items q) = cap q \<Longrightarrow> enq q x = None"
    and enq_room: "invar q \<Longrightarrow> fits q x \<Longrightarrow> length (items q) < cap q \<Longrightarrow>
      \<exists>q'. enq q x = Some q' \<and> invar q' \<and> items q' = items q @ [x] \<and> cap q' = cap q \<and> fits q' = fits q"
    and deq_empty: "invar q \<Longrightarrow> items q = [] \<Longrightarrow> deq q = None"
    and deq_item: "invar q \<Longrightarrow> items q = x # xs \<Longrightarrow>
      \<exists>q'. deq q = Some (x, q') \<and> invar q' \<and> items q' = xs \<and> cap q' = cap q \<and> fits q' = fits q"
begin

text \<open>Every run simulates the bounded list, step by step and blocking in the same places.\<close>

lemma run_refines:
  assumes "invar q" and "\<And>x. x \<in> set (enqueued ops) \<Longrightarrow> fits q x"
  shows "case list_run (cap q) (items q) ops of
      None \<Rightarrow> queue_run enq deq q ops = None
    | Some (out, ys) \<Rightarrow> \<exists>q'. queue_run enq deq q ops = Some (out, q') \<and> invar q' \<and> items q' = ys"
  using assms
proof (induction ops arbitrary: q)
  case Nil
  then show ?case by simp
next
  case (Cons op ops)
  show ?case
  proof (cases op)
    case (Enq x)
    show ?thesis
    proof (cases "length (items q) < cap q")
      case True
      with Cons.prems Enq obtain q' where q': "enq q x = Some q'" "invar q'"
        "items q' = items q @ [x]" "cap q' = cap q" "fits q' = fits q"
        using enq_room [of q x] by auto
      with Cons.IH [of q'] Cons.prems Enq True show ?thesis by (auto split: option.splits)
    next
      case False
      with Cons.prems(1) have "enq q x = None"
        using items_bounded [of q] enq_full [of q x] by simp
      with Enq False show ?thesis by simp
    qed
  next
    case Deq
    show ?thesis
    proof (cases "items q")
      case Nil
      with Deq Cons.prems(1) show ?thesis by (simp add: deq_empty)
    next
      case (Cons x xs)
      with Cons.prems(1) obtain q' where q': "deq q = Some (x, q')" "invar q'"
        "items q' = xs" "cap q' = cap q" "fits q' = fits q"
        using deq_item [of q x xs] by auto
      with Cons.IH [of q'] Cons.prems Deq Cons show ?thesis
        by (auto split: option.splits)
    qed
  qed
qed

lemma run_fifo:
  assumes "invar q" and "\<And>x. x \<in> set (enqueued ops) \<Longrightarrow> fits q x"
    and "queue_run enq deq q ops = Some (out, q')"
  shows "items q @ enqueued ops = out @ items q' \<and> invar q' \<and> length (items q') \<le> cap q"
  using run_refines [of q ops, OF assms(1) assms(2)] assms(3) items_bounded [OF assms(1)]
  by (auto dest: list_run_fifo list_run_bounded split: option.splits)

end

end
