(* ===== verification/Ring_Buffer.thy ===== *)
theory Ring_Buffer
  imports Pgm_Prelude Bounded_Queue
begin

unbundle bit_operations_syntax

text \<open>
  The ring buffer of \<^verbatim>\<open>src/include/ring.h\<close>: initialisation with the rounding of the element
  count, the begin/end pairs of the three kinds of access (multi-writer, single-writer,
  single-reader) and the read and write macros.  The two arrays that the C struct points to are
  the fields \<open>slot_mem\<close> (what \<open>slots\<close> points to, one state per slot) and \<open>buf_mem\<close> (what \<open>buf\<close>
  points to, indexed by the byte offset from \<open>buf\<close>); pointers into the buffer are 64-bit
  addresses and \<open>0\<close> is \<open>NULL\<close>.

  The theory shows that the rounding yields the least power of two that is large enough, that the
  ring is a bounded FIFO queue of byte vectors (locale \<open>bounded_queue\<close>, interpreted on
  the ring); \<open>Ring_Concurrent\<close> shows that one writer and one reader may run concurrently.
\<close>

section \<open>Data\<close>

datatype slot_state_t = SLOT_FREE | SLOT_READY

record ring =
  nmemb :: size_t
  memb_sz :: size_t
  nfree :: size_t
  widx :: size_t
  ridx :: size_t
  slots :: addr
  buf :: addr
  user_managed_buffers :: bool
  slot_mem :: "nat \<Rightarrow> slot_state_t"
  buf_mem :: "nat \<Rightarrow> byte"

section \<open>Operations\<close>

text \<open>
  \<open>nleading_unset_bits\<close> is \<open>__builtin_clzl\<close> on a \<open>size_t\<close>.
\<close>

definition nleading_unset_bits :: "size_t \<Rightarrow> nat" where
  "nleading_unset_bits x = length (takeWhile (\<lambda>i. \<not> bit x i) (rev [0..<64]))"

text \<open>
  The rounding expression of \<open>init_ring\<close>.  For \<open>min_count > 2^63\<close> there is no leading zero in
  \<open>min_count - 1\<close> and the code shifts by \<open>-1\<close>, which is undefined: \<open>None\<close>.
\<close>

definition round_up_count :: "size_t \<Rightarrow> size_t option" where
  "round_up_count min_count =
     (if min_count > 2 then
        (let z = nleading_unset_bits (min_count - 1) in
         if z = 0 then None
         else Some (drop_bit (z - 1) (NOT (drop_bit 1 (NOT 0)))))
      else Some min_count)"

text \<open>
  \<open>init_ring\<close>: the first three arguments are what \<open>calloc\<close> and \<open>malloc\<close> return and the bytes that
  happen to be in the block of \<open>malloc\<close>; neither pointer is checked by the code.  \<open>r = None\<close> is a
  null ring pointer.
\<close>

definition init_ring ::
  "addr \<Rightarrow> addr \<Rightarrow> (nat \<Rightarrow> byte) \<Rightarrow> ring option \<Rightarrow> size_t \<Rightarrow> size_t \<Rightarrow> (int \<times> ring option) option"
where
  "init_ring calloc_ptr malloc_ptr junk r min_count sz =
     (if r = None \<or> min_count = 0 \<or> sz = 0 then Some (-1, r)
      else (case round_up_count min_count of
              None \<Rightarrow> None
            | Some count \<Rightarrow>
                if count = 0 then Some (-1, r)
                else Some (0, map_option (\<lambda>r. r\<lparr>
                  nmemb := count, memb_sz := sz, nfree := count, widx := 0, ridx := 0,
                  slots := calloc_ptr, slot_mem := (\<lambda>_. SLOT_FREE),
                  buf := malloc_ptr, buf_mem := junk,
                  user_managed_buffers := False\<rparr>) r)))"

definition init_ring_user :: "ring \<Rightarrow> size_t \<Rightarrow> size_t \<Rightarrow> addr \<Rightarrow> addr \<Rightarrow> (nat \<Rightarrow> byte) \<Rightarrow> ring" where
  "init_ring_user r count sz slot_buf data_buf junk =
     r\<lparr>nmemb := count, memb_sz := sz, nfree := count, widx := 0, ridx := 0,
       slots := slot_buf, buf := data_buf, buf_mem := junk,
       slot_mem := (\<lambda>i. if i < unat count then SLOT_FREE else slot_mem r i),
       user_managed_buffers := True\<rparr>"

text \<open>The blocks that \<open>free_ring\<close> hands back to \<open>free\<close>.\<close>

definition free_ring :: "ring option \<Rightarrow> addr list" where
  "free_ring r = (case r of None \<Rightarrow> []
     | Some r \<Rightarrow> if user_managed_buffers r then [] else [slots r, buf r])"

definition is_ring_empty :: "ring \<Rightarrow> bool" where
  "is_ring_empty r \<longleftrightarrow> nfree r = nmemb r"

definition is_ring_full :: "ring \<Rightarrow> bool" where
  "is_ring_full r \<longleftrightarrow> nfree r = 0"

text \<open>The address of a slot, and the slot of an address.\<close>

definition slot_addr :: "ring \<Rightarrow> size_t \<Rightarrow> addr" where
  "slot_addr r idx = buf r + idx * memb_sz r"

definition addr_slot :: "ring \<Rightarrow> addr \<Rightarrow> size_t" where
  "addr_slot r a = (a - buf r) div memb_sz r"

text \<open>
  Multi-writer access.  \<open>nfree\<close> is read into a signed variable: after the atomic decrement the old
  value is tested again, and a decrement that found no room is taken back.
\<close>

definition begin_mwrite_ring :: "ring \<Rightarrow> addr \<times> ring" where
  "begin_mwrite_ring r =
     (if nfree r = 0 then (0, r)
      else let old = sint (nfree r); r1 = r\<lparr>nfree := nfree r - 1\<rparr> in
        if old \<le> 0 then (0, r1\<lparr>nfree := nfree r1 + 1\<rparr>)
        else (slot_addr r1 (widx r1 mod nmemb r1), r1\<lparr>widx := widx r1 + 1\<rparr>))"

definition end_mwrite_ring :: "ring \<Rightarrow> addr \<Rightarrow> ring" where
  "end_mwrite_ring r a = r\<lparr>slot_mem := (slot_mem r)(unat (addr_slot r a) := SLOT_READY)\<rparr>"

definition begin_write_ring :: "ring \<Rightarrow> addr \<times> ring" where
  "begin_write_ring r =
     (if nfree r = 0 then (0, r)
      else (slot_addr r (widx r mod nmemb r), r\<lparr>widx := widx r + 1\<rparr>))"

text \<open>The two memory effects of \<open>__end_write_ring\<close>, in program order.\<close>

definition mark_ready :: "ring \<Rightarrow> addr \<Rightarrow> ring" where
  "mark_ready r a = r\<lparr>slot_mem := (slot_mem r)(unat (addr_slot r a) := SLOT_READY)\<rparr>"

definition dec_nfree :: "ring \<Rightarrow> ring" where
  "dec_nfree r = r\<lparr>nfree := nfree r - 1\<rparr>"

definition end_write_ring :: "ring \<Rightarrow> addr \<Rightarrow> ring" where
  "end_write_ring r a = dec_nfree (mark_ready r a)"

definition begin_read_ring :: "ring \<Rightarrow> addr" where
  "begin_read_ring r =
     (if nfree r = nmemb r then 0
      else let idx = ridx r mod nmemb r in
        if slot_mem r (unat idx) = SLOT_READY then slot_addr r idx else 0)"

text \<open>The three memory effects of \<open>__end_read_ring\<close>, in program order.\<close>

definition mark_free :: "ring \<Rightarrow> addr \<Rightarrow> ring" where
  "mark_free r a = r\<lparr>slot_mem := (slot_mem r)(unat (addr_slot r a) := SLOT_FREE)\<rparr>"

definition inc_ridx :: "ring \<Rightarrow> ring" where
  "inc_ridx r = r\<lparr>ridx := ridx r + 1\<rparr>"

definition inc_nfree :: "ring \<Rightarrow> ring" where
  "inc_nfree r = r\<lparr>nfree := nfree r + 1\<rparr>"

definition end_read_ring :: "ring \<Rightarrow> addr \<Rightarrow> ring" where
  "end_read_ring r a = inc_nfree (inc_ridx (mark_free r a))"

text \<open>The assignment or \<open>memcpy\<close> between the begin and the end of an access.\<close>

definition store_at :: "ring \<Rightarrow> addr \<Rightarrow> byte list \<Rightarrow> ring" where
  "store_at r a bs = r\<lparr>buf_mem := memcpy_to (buf_mem r) (unat (a - buf r)) bs\<rparr>"

definition load_at :: "ring \<Rightarrow> addr \<Rightarrow> nat \<Rightarrow> byte list" where
  "load_at r a n = memcpy_from (buf_mem r) (unat (a - buf r)) n"

text \<open>
  The macros.  Each spins on the begin operation until it returns a slot.  A begin that returns
  \<open>NULL\<close> leaves the ring as it was (\<open>begin_write_ring_null\<close> below), so with no other thread the loop
  does not end: \<open>None\<close>.  \<open>write_ring\<close>/\<open>read_ring\<close> assign \<open>sizeof\<close> bytes, the \<open>vec\<close> variants copy
  \<open>sz\<close> bytes: the value is its list of bytes in both.
\<close>

definition write_ring :: "ring \<Rightarrow> byte list \<Rightarrow> ring option" where
  "write_ring r src =
     (let (dst, r1) = begin_write_ring r in
      if dst = 0 then None else Some (end_write_ring (store_at r1 dst src) dst))"

definition mwrite_ring :: "ring \<Rightarrow> byte list \<Rightarrow> ring option" where
  "mwrite_ring r src =
     (let (dst, r1) = begin_mwrite_ring r in
      if dst = 0 then None else Some (end_mwrite_ring (store_at r1 dst src) dst))"

definition read_ring :: "ring \<Rightarrow> nat \<Rightarrow> (byte list \<times> ring) option" where
  "read_ring r sz =
     (let src = begin_read_ring r in
      if src = 0 then None else Some (load_at r src sz, end_read_ring r src))"

lemmas ring_op_defs =
  begin_write_ring_def end_write_ring_def mark_ready_def dec_nfree_def
  begin_read_ring_def end_read_ring_def mark_free_def inc_ridx_def inc_nfree_def
  begin_mwrite_ring_def end_mwrite_ring_def store_at_def load_at_def

section \<open>Rounding the element count\<close>

lemma nat_less_pow2I:
  fixes m :: nat
  assumes "\<And>i. n \<le> i \<Longrightarrow> \<not> bit m i"
  shows "m < 2 ^ n"
proof -
  have "drop_bit n m = 0"
    by (rule bit_eqI) (simp add: bit_drop_bit_eq assms)
  then show ?thesis
    by (simp add: drop_bit_eq_div div_eq_0_iff)
qed

lemma nat_ge_pow2I:
  fixes m :: nat
  assumes "bit m n"
  shows "2 ^ n \<le> m"
proof (rule ccontr)
  assume "\<not> 2 ^ n \<le> m"
  then have "m div 2 ^ n = 0" by simp
  with assms show False by (simp add: bit_iff_odd)
qed

text \<open>The number of leading zeros locates a value between two powers of two.\<close>

lemma nleading_unset_bits_bounds:
  assumes "x \<noteq> 0"
  shows "nleading_unset_bits x < 64"
    and "2 ^ (63 - nleading_unset_bits x) \<le> unat x"
    and "unat x < 2 ^ (64 - nleading_unset_bits x)"
proof -
  let ?l = "rev [0..<64]" and ?P = "\<lambda>i. \<not> bit x i"
  let ?z = "nleading_unset_bits x"
  have z: "?z = length (takeWhile ?P ?l)" by (simp add: nleading_unset_bits_def)
  have nth: "?l ! j = 63 - j" if "j < 64" for j
    using that by (simp add: rev_nth)
  have below: "\<not> bit x (63 - j)" if "j < ?z" for j
  proof -
    have "j < 64" using that z length_takeWhile_le [of ?P ?l] by simp
    moreover have "takeWhile ?P ?l ! j \<in> set (takeWhile ?P ?l)"
      using that z by simp
    ultimately show ?thesis
      using takeWhile_nth [of j ?P ?l] set_takeWhileD [of _ ?P ?l] nth [of j] that z by auto
  qed
  have unset: "\<not> bit (unat x) i" if "64 - ?z \<le> i" for i
  proof (cases "i < 64")
    case True
    then have "63 - (63 - i) = i" and "63 - i < ?z" using that by auto
    then show ?thesis using below [of "63 - i"] by (simp add: bit_unsigned_iff)
  next
    case False
    then show ?thesis by (auto simp: bit_unsigned_iff dest: bit_imp_le_length)
  qed
  then show upper: "unat x < 2 ^ (64 - ?z)"
    by (intro nat_less_pow2I)
  show z64: "?z < 64"
  proof (rule ccontr)
    assume "\<not> ?z < 64"
    then have "unat x = 0" using upper by simp
    with assms show False by (simp add: unat_eq_zero)
  qed
  have "bit x (?l ! ?z)"
    using nth_length_takeWhile [of ?P ?l] z z64 by simp
  then have "bit (unat x) (63 - ?z)"
    using nth [OF z64] z64 by (simp add: bit_unsigned_iff)
  then show "2 ^ (63 - ?z) \<le> unat x"
    by (rule nat_ge_pow2I)
qed

lemma round_up_count_pow2:
  assumes "0 < min_count" and "unat min_count \<le> 2 ^ 63"
  obtains k count where "round_up_count min_count = Some count" and "k < 64"
    and "unat count = 2 ^ k" and "min_count \<le> count"
    and "\<And>j. unat min_count \<le> 2 ^ j \<Longrightarrow> k \<le> j"
proof (cases "min_count > 2")
  case False
  then have "min_count = 1 \<or> min_count = 2"
    using assms(1) by (auto simp: word_less_nat_alt word_unat_eq_iff)
  then show thesis
  proof
    assume "min_count = 1"
    then show thesis
      by (intro that [of 1 0]) (simp_all add: round_up_count_def)
  next
    assume two: "min_count = 2"
    have "1 \<le> j" if "unat min_count \<le> 2 ^ j" for j
      using that two by (cases j) simp_all
    then show thesis
      using two by (intro that [of 2 1]) (simp_all add: round_up_count_def)
  qed
next
  case True
  let ?x = "min_count - 1" and ?z = "nleading_unset_bits (min_count - 1)"
  have big: "2 < unat min_count"
    using True by (simp add: word_less_nat_alt)
  have x: "unat ?x = unat min_count - 1"
    using True by (simp add: unat_sub word_less_nat_alt word_le_nat_alt)
  have "?x \<noteq> 0"
    using True x by (auto simp: word_less_nat_alt word_unat_eq_iff)
  note b = nleading_unset_bits_bounds [OF this]
  have z0: "?z \<noteq> 0"
  proof
    assume "?z = 0"
    then have "2 ^ 63 \<le> unat ?x" using b(2) by simp
    with x assms True show False by (simp add: word_less_nat_alt)
  qed
  define count where "count = drop_bit (?z - 1) (NOT (drop_bit 1 (NOT 0)) :: 64 word)"
  have top: "unat (NOT (drop_bit 1 (NOT 0)) :: 64 word) = 2 ^ 63"
    by (simp add: mask_eq_exp_minus_1)
  have "unat count = 2 ^ 63 div 2 ^ (?z - 1)"
    unfolding count_def unat_drop_bit_eq top by (rule drop_bit_eq_div)
  also have "\<dots> = 2 ^ (64 - ?z)"
    using b(1) z0 by (subst power_diff [symmetric]) auto
  finally have cnt: "unat count = 2 ^ (64 - ?z)" .
  have "min_count \<le> count"
    using b(3) x cnt True by (simp add: word_le_nat_alt)
  moreover have "64 - ?z \<le> j" if "unat min_count \<le> 2 ^ j" for j
  proof -
    have "2 ^ (63 - ?z) < (2::nat) ^ j"
      using that b(2) x big by linarith
    then have "63 - ?z < j"
      by (rule power_less_imp_less_exp [rotated]) simp
    with b(1) show ?thesis by simp
  qed
  ultimately show thesis
    using True z0 cnt b(1)
    by (intro that [of count "64 - ?z"]) (simp_all add: round_up_count_def count_def Let_def)
qed

section \<open>Geometry of the buffer\<close>

definition ring_geom :: "ring \<Rightarrow> bool" where
  "ring_geom r \<longleftrightarrow> (\<exists>k. unat (nmemb r) = 2 ^ k) \<and> memb_sz r \<noteq> 0 \<and> buf r \<noteq> 0 \<and> slots r \<noteq> 0 \<and>
     unat (buf r) + unat (nmemb r) * unat (memb_sz r) \<le> 2 ^ 64"

lemma ring_geom_pos:
  assumes "ring_geom r"
  shows "0 < unat (nmemb r)" and "0 < unat (memb_sz r)" and "nmemb r \<noteq> 0"
  using assms by (auto simp: ring_geom_def unat_gt_0 dest: arg_cong [of _ _ unat])

lemma unat_mult_memb_sz:
  assumes "ring_geom r" and "unat idx < unat (nmemb r)"
  shows "unat (idx * memb_sz r) = unat idx * unat (memb_sz r)"
    and "unat (buf r) + unat idx * unat (memb_sz r) < 2 ^ 64"
proof -
  have "unat idx * unat (memb_sz r) < unat (nmemb r) * unat (memb_sz r)"
    using assms(2) ring_geom_pos(2) [OF assms(1)] by simp
  then show lt: "unat (buf r) + unat idx * unat (memb_sz r) < 2 ^ 64"
    using assms(1) unfolding ring_geom_def by linarith
  then show "unat (idx * memb_sz r) = unat idx * unat (memb_sz r)"
    by (simp add: unat_word_ariths)
qed

lemma slot_addr_offset:
  assumes "ring_geom r" and "unat idx < unat (nmemb r)"
  shows "unat (slot_addr r idx - buf r) = unat idx * unat (memb_sz r)"
    and "slot_addr r idx \<noteq> 0" and "addr_slot r (slot_addr r idx) = idx"
proof -
  note m = unat_mult_memb_sz [OF assms]
  show off: "unat (slot_addr r idx - buf r) = unat idx * unat (memb_sz r)"
    using m by (simp add: slot_addr_def)
  have "unat (slot_addr r idx) = unat (buf r) + unat idx * unat (memb_sz r)"
    using m by (simp add: slot_addr_def unat_word_ariths)
  moreover have "0 < unat (buf r)"
    using assms(1) by (simp add: ring_geom_def unat_gt_0)
  ultimately show "slot_addr r idx \<noteq> 0"
    by auto
  show "addr_slot r (slot_addr r idx) = idx"
    using m(1) ring_geom_pos(2) [OF assms(1)]
    by (simp add: addr_slot_def slot_addr_def word_unat_eq_iff unat_div_distrib)
qed

text \<open>The two copies, in terms of slot numbers.\<close>

definition slot_bytes :: "ring \<Rightarrow> nat \<Rightarrow> byte list" where
  "slot_bytes r i = memcpy_from (buf_mem r) (i * unat (memb_sz r)) (unat (memb_sz r))"

lemma load_at_slot:
  assumes "ring_geom r" and "unat idx < unat (nmemb r)"
  shows "load_at r (slot_addr r idx) (unat (memb_sz r)) = slot_bytes r (unat idx)"
  by (simp add: load_at_def slot_bytes_def slot_addr_offset(1) [OF assms])

lemma slot_bytes_store_at:
  assumes "ring_geom r" and "unat idx < unat (nmemb r)" and "length src = unat (memb_sz r)"
  shows "slot_bytes (store_at r (slot_addr r idx) src) i =
    (if i = unat idx then src else slot_bytes r i)"
proof -
  let ?s = "unat (memb_sz r)"
  have "i * ?s + ?s \<le> unat idx * ?s \<or> unat idx * ?s + ?s \<le> i * ?s" if "i \<noteq> unat idx"
  proof -
    have "Suc i \<le> unat idx \<or> Suc (unat idx) \<le> i" using that by arith
    then have "Suc i * ?s \<le> unat idx * ?s \<or> Suc (unat idx) * ?s \<le> i * ?s"
      using mult_le_mono1 by blast
    then show ?thesis by (simp add: add.commute)
  qed
  then show ?thesis
    using memcpy_from_to [of "buf_mem r" _ src] assms(3)
    by (auto simp: slot_bytes_def store_at_def slot_addr_offset(1) [OF assms(1,2)]
        memcpy_from_to_disjoint)
qed

section \<open>The ring as a queue\<close>

definition ring_len :: "ring \<Rightarrow> nat" where
  "ring_len r = unat (nmemb r) - unat (nfree r)"

definition ring_pos :: "ring \<Rightarrow> nat \<Rightarrow> nat" where
  "ring_pos r k = (unat (ridx r) + k) mod unat (nmemb r)"

definition ring_items :: "ring \<Rightarrow> byte list list" where
  "ring_items r = map (\<lambda>k. slot_bytes r (ring_pos r k)) [0..<ring_len r]"

definition ring_inv :: "ring \<Rightarrow> bool" where
  "ring_inv r \<longleftrightarrow> ring_geom r \<and> nfree r \<le> nmemb r \<and>
     widx r = ridx r + (nmemb r - nfree r) \<and>
     (\<forall>i < unat (nmemb r). slot_mem r i = SLOT_READY \<longleftrightarrow> i \<in> ring_pos r ` {..<ring_len r})"

lemma length_ring_items [simp]: "length (ring_items r) = ring_len r"
  by (simp add: ring_items_def)

lemma ring_pos_less: "ring_geom r \<Longrightarrow> ring_pos r k < unat (nmemb r)"
  by (simp add: ring_pos_def ring_geom_pos)

lemma ring_pos_inj:
  "ring_pos r i = ring_pos r j \<Longrightarrow> i < unat (nmemb r) \<Longrightarrow> j < unat (nmemb r) \<Longrightarrow> i = j"
  unfolding ring_pos_def by (rule mod_add_inj)

lemma unat_widx_slot:
  assumes "ring_inv r"
  shows "unat (widx r mod nmemb r) = ring_pos r (ring_len r)"
proof -
  obtain k where k: "unat (nmemb r) = 2 ^ k"
    using assms by (auto simp: ring_inv_def ring_geom_def)
  have "widx r = of_nat (unat (ridx r) + ring_len r)"
    using assms by (simp add: ring_inv_def ring_len_def word_le_nat_alt)
  then show ?thesis
    using unat_of_nat_mod_pow2 [OF k, of "unat (ridx r) + ring_len r"] by (simp add: ring_pos_def)
qed

lemma unat_ridx_slot: "ring_geom r \<Longrightarrow> unat (ridx r mod nmemb r) = ring_pos r 0"
  by (simp add: ring_pos_def unat_mod_distrib)

lemma ring_pos_inc_ridx:
  assumes "ring_geom r"
  shows "ring_pos (r\<lparr>ridx := ridx r + 1\<rparr>) k = ring_pos r (Suc k)"
proof -
  obtain e where e: "unat (nmemb r) = 2 ^ e"
    using assms by (auto simp: ring_geom_def)
  have "unat (of_nat (unat (ridx r) + 1 + k) mod nmemb r) = (unat (ridx r) + 1 + k) mod unat (nmemb r)"
    by (rule unat_of_nat_mod_pow2 [OF e])
  moreover have "unat (of_nat (unat (ridx r + 1) + k) mod nmemb r)
      = (unat (ridx r + 1) + k) mod unat (nmemb r)"
    by (rule unat_of_nat_mod_pow2 [OF e])
  ultimately show ?thesis
    by (simp add: ring_pos_def algebra_simps)
qed

lemma begin_write_ring_null:
  "begin_write_ring r = (0, r') \<Longrightarrow> ring_geom r \<Longrightarrow> r' = r \<and> nfree r = 0"
  by (auto simp: begin_write_ring_def slot_addr_offset(2) unat_mod_distrib ring_geom_pos
      split: if_splits)

text \<open>A write appends, and blocks exactly when the ring is full.\<close>

lemma write_ring_full: "nfree r = 0 \<Longrightarrow> write_ring r src = None"
  by (simp add: write_ring_def begin_write_ring_def)

lemma ring_invD:
  assumes "ring_inv r"
  shows "ring_geom r" and "0 < unat (nmemb r)" and "unat (nfree r) \<le> unat (nmemb r)"
    and "ring_len r + unat (nfree r) = unat (nmemb r)"
  using assms ring_geom_pos(1) [of r] by (simp_all add: ring_inv_def ring_len_def word_le_nat_alt)

lemma ring_len_full: "ring_inv r \<Longrightarrow> nfree r = 0 \<longleftrightarrow> ring_len r = unat (nmemb r)"
  using ring_invD(4) [of r] unat_eq_zero [of "nfree r"] by arith

lemma write_ring_step:
  assumes inv: "ring_inv r" and nf: "nfree r \<noteq> 0" and len: "length src = unat (memb_sz r)"
  defines "idx \<equiv> widx r mod nmemb r"
  defines "r' \<equiv> store_at (r\<lparr>widx := widx r + 1, nfree := nfree r - 1,
     slot_mem := (slot_mem r)(ring_pos r (ring_len r) := SLOT_READY)\<rparr>) (slot_addr r idx) src"
  shows "write_ring r src = Some r'" and "ring_inv r'" and "ring_items r' = ring_items r @ [src]"
proof -
  have g: "ring_geom r" using inv by (simp add: ring_inv_def)
  have i: "unat idx < unat (nmemb r)"
    using ring_geom_pos(1) [OF g] by (simp add: idx_def unat_mod_distrib)
  have pos: "unat idx = ring_pos r (ring_len r)"
    unfolding idx_def by (rule unat_widx_slot [OF inv])
  note addr = slot_addr_offset [OF g i]
  show "write_ring r src = Some r'"
    using nf addr pos
    by (simp add: write_ring_def ring_op_defs r'_def idx_def [symmetric] addr_slot_def)
  have nfree': "unat (nfree r - 1) = unat (nfree r) - 1"
    using nf by (simp add: unat_sub word_le_nat_alt unat_gt_0 Suc_leI)
  have lt: "ring_len r < unat (nmemb r)"
    using ring_len_full [OF inv] nf by (auto simp: ring_len_def)
  have len': "ring_len r' = Suc (ring_len r)"
    using ring_invD(4) [OF inv] nf nfree'
    by (simp add: r'_def store_at_def ring_len_def unat_gt_0 [symmetric])
  have pos': "ring_pos r' k = ring_pos r k" for k
    by (simp add: r'_def ring_pos_def store_at_def)
  have bytes: "slot_bytes r' j = (if j = unat idx then src else slot_bytes r j)" for j
    using slot_bytes_store_at [OF g i len, of j]
    by (simp add: r'_def slot_bytes_def store_at_def)
  show "ring_items r' = ring_items r @ [src]"
    using lt ring_pos_inj [of r] by (fastforce simp: ring_items_def len' pos' bytes pos)
  have geom': "ring_geom r'" and fields: "nmemb r' = nmemb r" "nfree r' = nfree r - 1"
    "widx r' = widx r + 1" "ridx r' = ridx r"
    "slot_mem r' = (slot_mem r)(ring_pos r (ring_len r) := SLOT_READY)"
    using g by (simp_all add: r'_def store_at_def ring_geom_def)
  have "ring_pos r' ` {..<ring_len r'} = insert (ring_pos r (ring_len r)) (ring_pos r ` {..<ring_len r})"
    by (simp add: len' pos' lessThan_Suc)
  moreover have "nfree r - 1 \<le> nmemb r"
    using ring_invD(3) [OF inv] nfree' by (simp add: word_le_nat_alt)
  ultimately show "ring_inv r'"
    using inv geom' by (auto simp: ring_inv_def fields)
qed

text \<open>A read takes the oldest element, and blocks exactly when the ring is empty.\<close>

lemma ring_len_empty: "ring_inv r \<Longrightarrow> nfree r = nmemb r \<longleftrightarrow> ring_len r = 0"
  using ring_invD(4) [of r] by (auto simp: word_unat_eq_iff)

lemma read_ring_empty: "nfree r = nmemb r \<Longrightarrow> read_ring r sz = None"
  by (simp add: read_ring_def begin_read_ring_def)

lemma read_ring_step:
  assumes inv: "ring_inv r" and ne: "nfree r \<noteq> nmemb r"
  defines "r' \<equiv> r\<lparr>ridx := ridx r + 1, nfree := nfree r + 1,
     slot_mem := (slot_mem r)(ring_pos r 0 := SLOT_FREE)\<rparr>"
  shows "read_ring r (unat (memb_sz r)) = Some (slot_bytes r (ring_pos r 0), r')" and "ring_inv r'"
    and "ring_items r = slot_bytes r (ring_pos r 0) # ring_items r'"
proof -
  note g = ring_invD(1) [OF inv]
  let ?idx = "ridx r mod nmemb r"
  have pos: "unat ?idx = ring_pos r 0" by (rule unat_ridx_slot [OF g])
  have i: "unat ?idx < unat (nmemb r)" using ring_pos_less [OF g] pos by simp
  have pl: "0 < ring_len r" using ring_len_empty [OF inv] ne by simp
  have ready: "slot_mem r (ring_pos r 0) = SLOT_READY"
    using inv pl ring_pos_less [OF g] by (auto simp: ring_inv_def)
  show "read_ring r (unat (memb_sz r)) = Some (slot_bytes r (ring_pos r 0), r')"
    using ne ready pos slot_addr_offset [OF g i] load_at_slot [OF g i]
    by (simp add: read_ring_def begin_read_ring_def end_read_ring_def mark_free_def inc_ridx_def
        inc_nfree_def r'_def addr_slot_def Let_def)
  have nfree': "unat (nfree r + 1) = unat (nfree r) + 1"
  proof -
    have "unat (nmemb r) < 18446744073709551616" by (rule unat_less_2p64)
    then have "unat (nfree r) + 1 < 18446744073709551616"
      using ring_invD(4) [OF inv] pl by linarith
    then show ?thesis by (simp add: unat_Suc_word)
  qed
  have len': "ring_len r = Suc (ring_len r')"
    using ring_invD(4) [OF inv] pl nfree' by (simp add: r'_def ring_len_def)
  have pos': "ring_pos r' k = ring_pos r (Suc k)" for k
    using ring_pos_inc_ridx [OF g, of k] by (simp add: r'_def ring_pos_def)
  have bytes: "slot_bytes r' j = slot_bytes r j" for j
    by (simp add: r'_def slot_bytes_def)
  show "ring_items r = slot_bytes r (ring_pos r 0) # ring_items r'"
    by (simp add: ring_items_def len' pos' bytes upt_conv_Cons map_Suc_upt [symmetric]
        del: upt_Suc)
  have fields: "nmemb r' = nmemb r" "nfree r' = nfree r + 1" "widx r' = widx r"
    "ridx r' = ridx r + 1" "slot_mem r' = (slot_mem r)(ring_pos r 0 := SLOT_FREE)"
    and geom': "ring_geom r'"
    using g by (simp_all add: r'_def ring_geom_def)
  have "ring_pos r ` {..<ring_len r} = insert (ring_pos r 0) (ring_pos r' ` {..<ring_len r'})"
    by (simp add: len' pos' lessThan_Suc_eq_insert_0 image_image)
  moreover have "ring_pos r 0 \<notin> ring_pos r' ` {..<ring_len r'}"
    using ring_pos_inj [of r 0] len' ring_invD(2,4) [OF inv] by (fastforce simp: pos')
  moreover have "nfree r + 1 \<le> nmemb r"
    using ring_invD(4) [OF inv] pl nfree' by (simp add: word_le_nat_alt)
  ultimately show "ring_inv r'"
    using inv geom' by (auto simp: ring_inv_def fields)
qed

section \<open>The queue contract\<close>

lemma ring_keeps_geometry:
  "write_ring r src = Some r1 \<Longrightarrow> nmemb r1 = nmemb r \<and> memb_sz r1 = memb_sz r"
  "read_ring r sz = Some (bs, r2) \<Longrightarrow> nmemb r2 = nmemb r \<and> memb_sz r2 = memb_sz r"
  unfolding write_ring_def read_ring_def begin_write_ring_def end_write_ring_def end_read_ring_def
    mark_ready_def dec_nfree_def mark_free_def inc_ridx_def inc_nfree_def store_at_def
  by (clarsimp simp: Let_def split: if_splits)+

interpretation ring_queue: bounded_queue write_ring "\<lambda>r. read_ring r (unat (memb_sz r))"
  ring_items "\<lambda>r. unat (nmemb r)" "\<lambda>r bs. length bs = unat (memb_sz r)" ring_inv
proof (unfold_locales, goal_cases)
  case (1 r)
  then show ?case using ring_invD(4) [of r] by simp
next
  case (2 r src)
  then show ?case using ring_len_full [of r] by (simp add: write_ring_full)
next
  case (3 r src)
  then have nf: "nfree r \<noteq> 0" using ring_len_full [of r] by simp
  note st = write_ring_step [OF 3(1) nf 3(2)]
  show ?case
    by (intro exI conjI, rule st(1), rule st(2), rule st(3))
      (simp_all add: ring_keeps_geometry(1) [OF st(1)])
next
  case (4 r)
  then show ?case using ring_len_empty [of r] by (simp add: read_ring_empty flip: length_0_conv)
next
  case (5 r x xs)
  then have ne: "nfree r \<noteq> nmemb r"
    using ring_len_empty [of r] length_ring_items [of r] by auto
  note st = read_ring_step [OF 5(1) ne]
  have x: "x = slot_bytes r (ring_pos r 0)"
    using st(3) 5(2) by simp
  show ?case
    unfolding x
    by (intro exI conjI, rule st(1), rule st(2))
      (use st(3) 5(2) in simp, simp_all add: ring_keeps_geometry(2) [OF st(1)])
qed

section \<open>Properties\<close>

text \<open>
  C26: for every element count from 1 to \<open>2^63\<close>, \<open>init_ring\<close> succeeds and allocates the least power
  of two of elements that is not below the requested count.
\<close>

theorem init_ring_least_pow2:
  assumes "0 < min_count" and "unat min_count \<le> 2 ^ 63" and "sz \<noteq> 0"
  shows "\<exists>r' k. init_ring cp mp junk (Some r) min_count sz = Some (0, Some r') \<and>
    unat (nmemb r') = 2 ^ k \<and> unat min_count \<le> 2 ^ k \<and> (\<forall>j. unat min_count \<le> 2 ^ j \<longrightarrow> k \<le> j)"
proof -
  obtain k count where c: "round_up_count min_count = Some count" "unat count = 2 ^ k"
    "min_count \<le> count" "\<And>j. unat min_count \<le> 2 ^ j \<Longrightarrow> k \<le> j"
    using round_up_count_pow2 [OF assms(1,2)] by blast
  have "count \<noteq> 0" using c(2) by (auto dest: arg_cong [of _ _ unat])
  moreover have "min_count \<noteq> 0" using assms(1) by auto
  ultimately show ?thesis
    using c assms(3) by (auto simp: init_ring_def word_le_nat_alt)
qed

text \<open>A ring of two one-byte elements.\<close>

definition ring2 :: ring where
  "ring2 = \<lparr>nmemb = 2, memb_sz = 1, nfree = 2, widx = 0, ridx = 0, slots = 16, buf = 32,
     user_managed_buffers = False, slot_mem = (\<lambda>_. SLOT_FREE), buf_mem = (\<lambda>_. 0)\<rparr>"

lemma ring2_inv: "ring_inv ring2"
proof -
  have "\<exists>k. (2::nat) = 2 ^ k" by (rule exI [of _ 1]) simp
  then show ?thesis
    by (simp add: ring_inv_def ring_geom_def ring_len_def ring2_def)
qed

lemma ring2_fields:
  "nmemb ring2 = 2" "memb_sz ring2 = 1" "nfree ring2 = 2" "widx ring2 = 0" "ring_items ring2 = []"
  by (simp_all add: ring2_def ring_items_def ring_len_def)

theorem init_ring_least_pow2_witness:
  "\<exists>r' k. init_ring 16 32 (\<lambda>_. 0) (Some ring2) 5 1 = Some (0, Some r') \<and>
    unat (nmemb r') = 2 ^ k \<and> (5::nat) \<le> 2 ^ k \<and> (\<forall>j. (5::nat) \<le> 2 ^ j \<longrightarrow> k \<le> j)"
  using init_ring_least_pow2 [of 5 1 16 32 "\<lambda>_. 0" ring2] by simp

text \<open>
  When both allocations of \<open>init_ring\<close> succeed and the element block lies inside the address
  space, the new ring is a well-formed empty queue whose capacity is at least the requested count.
\<close>

theorem init_ring_empty_queue:
  assumes "init_ring cp mp junk (Some r) min_count sz = Some (0, Some r')"
    and "cp \<noteq> 0" and "mp \<noteq> 0" and "unat mp + unat (nmemb r') * unat sz \<le> 2 ^ 64"
    and "unat min_count \<le> 2 ^ 63"
  shows "ring_inv r' \<and> ring_items r' = [] \<and> is_ring_empty r' \<and> \<not> is_ring_full r' \<and>
    unat min_count \<le> unat (nmemb r') \<and> memb_sz r' = sz"
proof -
  have pos: "0 < min_count" and sz: "sz \<noteq> 0"
    using assms(1) by (auto simp: init_ring_def word_gt_0 split: if_splits)
  obtain k count where c: "round_up_count min_count = Some count" "unat count = 2 ^ k"
    "min_count \<le> count"
    using round_up_count_pow2 [OF pos assms(5)] by blast
  have c0: "count \<noteq> 0" using c(2) by (auto dest: arg_cong [of _ _ unat])
  then have r': "r' = r\<lparr>nmemb := count, memb_sz := sz, nfree := count, widx := 0, ridx := 0,
      slots := cp, buf := mp, user_managed_buffers := False, slot_mem := (\<lambda>_. SLOT_FREE),
      buf_mem := junk\<rparr>"
    using assms(1) c(1) pos sz by (auto simp: init_ring_def word_gt_0)
  have "ring_geom r'"
    using assms(2,3,4) sz c(2) by (auto simp: ring_geom_def r')
  then show ?thesis
    using c c0
    by (simp add: r' ring_inv_def ring_len_def ring_items_def is_ring_empty_def is_ring_full_def
        word_le_nat_alt)
qed

theorem init_ring_empty_queue_witness:
  "ring_inv ring2 \<and> ring_items ring2 = [] \<and> is_ring_empty ring2 \<and> \<not> is_ring_full ring2 \<and>
    unat (2 :: size_t) \<le> unat (nmemb ring2) \<and> memb_sz ring2 = 1"
  by (rule init_ring_empty_queue [of 16 32 "\<lambda>_. 0" ring2 2 1])
    (simp_all add: init_ring_def round_up_count_def ring2_def)

text \<open>
  C5: every sequence of writes and reads on a well-formed ring behaves as on a list of at most
  \<open>nmemb\<close> elements: the same values are read, the same elements remain, and an operation blocks
  exactly where the bounded list is full or empty.
\<close>

theorem ring_refines_bounded_list:
  assumes "ring_inv r" and "\<And>m. m \<in> set (enqueued ops) \<Longrightarrow> length m = unat (memb_sz r)"
  shows "case list_run (unat (nmemb r)) (ring_items r) ops of
      None \<Rightarrow> queue_run write_ring (\<lambda>r. read_ring r (unat (memb_sz r))) r ops = None
    | Some (out, ys) \<Rightarrow>
        \<exists>r'. queue_run write_ring (\<lambda>r. read_ring r (unat (memb_sz r))) r ops = Some (out, r') \<and>
          ring_inv r' \<and> ring_items r' = ys"
  by (rule ring_queue.run_refines [OF assms])

theorem ring_refines_bounded_list_witness:
  "\<exists>r'. queue_run write_ring (\<lambda>r. read_ring r (unat (memb_sz r))) ring2
      [Enq [7], Enq [8], Deq, Enq [9], Deq] = Some ([[7], [8]], r') \<and>
    ring_inv r' \<and> ring_items r' = [[9]]"
proof -
  let ?ops = "[Enq [7], Enq [8], Deq, Enq [9], Deq] :: byte list qop list"
  have fits: "length m = unat (memb_sz ring2)" if "m \<in> set (enqueued ?ops)" for m
    using that by (auto simp: ring2_fields)
  show ?thesis
    using ring_refines_bounded_list [of ring2 ?ops, OF ring2_inv fits]
    by (simp add: ring2_fields del: queue_run.simps)
qed

text \<open>
  C27: with fewer than \<open>2^63\<close> elements the multi-writer access, run without a competing writer, has
  exactly the effect of the single-writer access.
\<close>

theorem mwrite_ring_equals_write_ring:
  assumes "ring_inv r" and "unat (nmemb r) < 2 ^ 63"
  shows "mwrite_ring r src = write_ring r src"
proof (cases "nfree r = 0")
  case True
  then show ?thesis by (simp add: mwrite_ring_def write_ring_def ring_op_defs)
next
  case False
  have "unat (nfree r) < 2 ^ 63"
    using ring_invD(3) [OF assms(1)] assms(2) by linarith
  then have "0 < sint (nfree r)"
    using False sint_eq_unat [of "nfree r"] unat_gt_0 [of "nfree r"] by linarith
  then show ?thesis
    using False
    by (simp add: mwrite_ring_def write_ring_def begin_mwrite_ring_def begin_write_ring_def
        end_mwrite_ring_def end_write_ring_def mark_ready_def dec_nfree_def store_at_def
        slot_addr_def addr_slot_def Let_def)
qed

theorem mwrite_ring_equals_write_ring_witness: "mwrite_ring ring2 [7] = write_ring ring2 [7]"
  by (rule mwrite_ring_equals_write_ring [OF ring2_inv]) (simp add: ring2_def)

text \<open>
  A count above \<open>2^63\<close> is not caught by the overflow test of \<open>init_ring\<close>: the shift by \<open>-1\<close> comes
  before it.
\<close>

lemma nleading_unset_bits_top:
  assumes "2 ^ 63 \<le> unat x"
  shows "nleading_unset_bits x = 0"
proof -
  have "x \<noteq> 0" using assms by auto
  note b = nleading_unset_bits_bounds [OF this]
  have "(2::nat) ^ 63 < 2 ^ (64 - nleading_unset_bits x)" using assms b(3) by linarith
  then have "63 < 64 - nleading_unset_bits x" by (rule power_less_imp_less_exp [rotated]) simp
  then show ?thesis by simp
qed

lemma init_ring_too_many:
  assumes "2 ^ 63 < unat min_count" and "sz \<noteq> 0"
  shows "init_ring cp mp junk (Some r) min_count sz = None"
proof -
  have "unat (min_count - 1) = unat min_count - 1"
    using assms(1) by (simp add: unat_sub word_le_nat_alt)
  then have "nleading_unset_bits (min_count - 1) = 0"
    using assms(1) by (intro nleading_unset_bits_top) simp
  moreover have "2 < min_count" using assms(1) by (simp add: word_less_nat_alt)
  ultimately show ?thesis
    using assms by (auto simp: init_ring_def round_up_count_def)
qed

end
