(* ===== verification/Ring_Concurrent.thy ===== *)
theory Ring_Concurrent
  imports Ring_Buffer
begin

text \<open>
  One producer and one consumer on a ring of \<^verbatim>\<open>src/include/ring.h\<close>, interleaved at the granularity of
  the memory operations of \<open>write_vec_ring\<close> and \<open>read_vec_ring\<close>: the begin of an access, the copy,
  and each of the updates of the end of an access are separate steps of a transition system
  (sequentially consistent: the code's atomic operations are full barriers).  \<open>sent\<close> and \<open>rcvd\<close>
  are ghost histories of the messages whose write has begun and of those copied out.
\<close>

datatype wstate = W_Idle | W_Copy addr "byte list" | W_Mark addr | W_Count

datatype rstate = R_Idle | R_Copy addr | R_Free addr | R_Adv | R_Count

record spsc =
  rg :: ring
  wst :: wstate
  rst :: rstate
  sent :: "byte list list"
  rcvd :: "byte list list"

inductive spsc_step :: "spsc \<Rightarrow> spsc \<Rightarrow> bool" where
  w_spin: "wst s = W_Idle \<Longrightarrow> fst (begin_write_ring (rg s)) = 0 \<Longrightarrow>
     spsc_step s (s\<lparr>rg := snd (begin_write_ring (rg s))\<rparr>)"
| w_begin: "wst s = W_Idle \<Longrightarrow> length src = unat (memb_sz (rg s)) \<Longrightarrow>
     begin_write_ring (rg s) = (dst, r') \<Longrightarrow> dst \<noteq> 0 \<Longrightarrow>
     spsc_step s (s\<lparr>rg := r', wst := W_Copy dst src, sent := sent s @ [src]\<rparr>)"
| w_copy: "wst s = W_Copy dst src \<Longrightarrow>
     spsc_step s (s\<lparr>rg := store_at (rg s) dst src, wst := W_Mark dst\<rparr>)"
| w_mark: "wst s = W_Mark dst \<Longrightarrow>
     spsc_step s (s\<lparr>rg := mark_ready (rg s) dst, wst := W_Count\<rparr>)"
| w_count: "wst s = W_Count \<Longrightarrow> spsc_step s (s\<lparr>rg := dec_nfree (rg s), wst := W_Idle\<rparr>)"
| r_spin: "rst s = R_Idle \<Longrightarrow> begin_read_ring (rg s) = 0 \<Longrightarrow> spsc_step s s"
| r_begin: "rst s = R_Idle \<Longrightarrow> begin_read_ring (rg s) = src \<Longrightarrow> src \<noteq> 0 \<Longrightarrow>
     spsc_step s (s\<lparr>rst := R_Copy src\<rparr>)"
| r_copy: "rst s = R_Copy src \<Longrightarrow>
     spsc_step s (s\<lparr>rcvd := rcvd s @ [load_at (rg s) src (unat (memb_sz (rg s)))], rst := R_Free src\<rparr>)"
| r_free: "rst s = R_Free src \<Longrightarrow> spsc_step s (s\<lparr>rg := mark_free (rg s) src, rst := R_Adv\<rparr>)"
| r_adv: "rst s = R_Adv \<Longrightarrow> spsc_step s (s\<lparr>rg := inc_ridx (rg s), rst := R_Count\<rparr>)"
| r_count: "rst s = R_Count \<Longrightarrow> spsc_step s (s\<lparr>rg := inc_nfree (rg s), rst := R_Idle\<rparr>)"

definition spsc_init :: "ring \<Rightarrow> spsc" where
  "spsc_init r = \<lparr>rg = r, wst = W_Idle, rst = R_Idle, sent = [], rcvd = []\<rparr>"

inductive spsc_reach :: "ring \<Rightarrow> spsc \<Rightarrow> bool" for r where
  init: "spsc_reach r (spsc_init r)"
| step: "spsc_reach r s \<Longrightarrow> spsc_step s t \<Longrightarrow> spsc_reach r t"

section \<open>The invariant\<close>

text \<open>How far each kind of effect of the two sides has got, as a number of messages.\<close>

definition copied_in :: "spsc \<Rightarrow> nat" where
  "copied_in s = (case wst s of W_Copy _ _ \<Rightarrow> length (sent s) - 1 | _ \<Rightarrow> length (sent s))"

definition marked :: "spsc \<Rightarrow> nat" where
  "marked s = (case wst s of W_Copy _ _ \<Rightarrow> length (sent s) - 1 | W_Mark _ \<Rightarrow> length (sent s) - 1
     | _ \<Rightarrow> length (sent s))"

definition counted :: "spsc \<Rightarrow> nat" where
  "counted s = (case wst s of W_Idle \<Rightarrow> length (sent s) | _ \<Rightarrow> length (sent s) - 1)"

definition freed :: "spsc \<Rightarrow> nat" where
  "freed s = (case rst s of R_Free _ \<Rightarrow> length (rcvd s) - 1 | _ \<Rightarrow> length (rcvd s))"

definition advanced :: "spsc \<Rightarrow> nat" where
  "advanced s = (case rst s of R_Free _ \<Rightarrow> length (rcvd s) - 1 | R_Adv \<Rightarrow> length (rcvd s) - 1
     | _ \<Rightarrow> length (rcvd s))"

definition returned :: "spsc \<Rightarrow> nat" where
  "returned s = (case rst s of R_Idle \<Rightarrow> length (rcvd s) | R_Copy _ \<Rightarrow> length (rcvd s)
     | _ \<Rightarrow> length (rcvd s) - 1)"

lemmas progress_defs = copied_in_def marked_def counted_def freed_def advanced_def returned_def

text \<open>The slot number of the \<open>j\<close>-th message and the pointers the two sides hold.\<close>

abbreviation (input) nslots :: "spsc \<Rightarrow> nat" where
  "nslots s \<equiv> unat (nmemb (rg s))"

definition wptr_ok :: "spsc \<Rightarrow> bool" where
  "wptr_ok s \<longleftrightarrow> (case wst s of
      W_Idle \<Rightarrow> True
    | W_Copy dst src \<Rightarrow> sent s \<noteq> [] \<and> last (sent s) = src \<and>
        dst = slot_addr (rg s) (of_nat ((length (sent s) - 1) mod nslots s))
    | W_Mark dst \<Rightarrow> sent s \<noteq> [] \<and>
        dst = slot_addr (rg s) (of_nat ((length (sent s) - 1) mod nslots s))
    | W_Count \<Rightarrow> sent s \<noteq> [])"

definition rptr_ok :: "spsc \<Rightarrow> bool" where
  "rptr_ok s \<longleftrightarrow> (case rst s of
      R_Idle \<Rightarrow> True
    | R_Copy src \<Rightarrow> length (rcvd s) < counted s \<and>
        src = slot_addr (rg s) (of_nat (length (rcvd s) mod nslots s))
    | R_Free src \<Rightarrow> rcvd s \<noteq> [] \<and>
        src = slot_addr (rg s) (of_nat ((length (rcvd s) - 1) mod nslots s))
    | _ \<Rightarrow> rcvd s \<noteq> [])"

definition spsc_inv :: "spsc \<Rightarrow> bool" where
  "spsc_inv s \<longleftrightarrow> ring_geom (rg s) \<and>
     (\<forall>m \<in> set (sent s). length m = unat (memb_sz (rg s))) \<and>
     widx (rg s) = of_nat (length (sent s)) \<and> ridx (rg s) = of_nat (advanced s) \<and>
     unat (nfree (rg s)) + counted s = nslots s + returned s \<and>
     length (rcvd s) \<le> counted s \<and> length (sent s) \<le> returned s + nslots s \<and>
     rcvd s = take (length (rcvd s)) (sent s) \<and>
     (\<forall>j. length (rcvd s) \<le> j \<and> j < copied_in s \<longrightarrow>
        slot_bytes (rg s) (j mod nslots s) = sent s ! j) \<and>
     (\<forall>i < nslots s. slot_mem (rg s) i = SLOT_READY \<longleftrightarrow>
        (\<exists>j. freed s \<le> j \<and> j < marked s \<and> i = j mod nslots s)) \<and>
     wptr_ok s \<and> rptr_ok s"

text \<open>What each effect leaves unchanged.\<close>

lemma effect_fields [simp]:
  "nmemb (store_at r a bs) = nmemb r" "memb_sz (store_at r a bs) = memb_sz r"
  "nfree (store_at r a bs) = nfree r" "widx (store_at r a bs) = widx r"
  "ridx (store_at r a bs) = ridx r" "slot_mem (store_at r a bs) = slot_mem r"
  "nmemb (mark_ready r a) = nmemb r" "memb_sz (mark_ready r a) = memb_sz r"
  "nfree (mark_ready r a) = nfree r" "widx (mark_ready r a) = widx r" "ridx (mark_ready r a) = ridx r"
  "nmemb (mark_free r a) = nmemb r" "memb_sz (mark_free r a) = memb_sz r"
  "nfree (mark_free r a) = nfree r" "widx (mark_free r a) = widx r" "ridx (mark_free r a) = ridx r"
  "nmemb (dec_nfree r) = nmemb r" "memb_sz (dec_nfree r) = memb_sz r"
  "widx (dec_nfree r) = widx r" "ridx (dec_nfree r) = ridx r" "slot_mem (dec_nfree r) = slot_mem r"
  "nmemb (inc_nfree r) = nmemb r" "memb_sz (inc_nfree r) = memb_sz r"
  "widx (inc_nfree r) = widx r" "ridx (inc_nfree r) = ridx r" "slot_mem (inc_nfree r) = slot_mem r"
  "nmemb (inc_ridx r) = nmemb r" "memb_sz (inc_ridx r) = memb_sz r"
  "nfree (inc_ridx r) = nfree r" "widx (inc_ridx r) = widx r" "slot_mem (inc_ridx r) = slot_mem r"
  by (simp_all add: store_at_def mark_ready_def mark_free_def dec_nfree_def inc_nfree_def inc_ridx_def)

lemma effect_geom [simp]:
  "ring_geom (r\<lparr>widx := w\<rparr>) = ring_geom r"
  "ring_geom (store_at r a bs) = ring_geom r" "ring_geom (mark_ready r a) = ring_geom r"
  "ring_geom (mark_free r a) = ring_geom r" "ring_geom (dec_nfree r) = ring_geom r"
  "ring_geom (inc_nfree r) = ring_geom r" "ring_geom (inc_ridx r) = ring_geom r"
  by (simp_all add: ring_geom_def store_at_def mark_ready_def mark_free_def dec_nfree_def
      inc_nfree_def inc_ridx_def)

lemma effect_slot_addr [simp]:
  "slot_addr (r\<lparr>widx := w\<rparr>) i = slot_addr r i"
  "slot_addr (store_at r a bs) i = slot_addr r i" "slot_addr (mark_ready r a) i = slot_addr r i"
  "slot_addr (mark_free r a) i = slot_addr r i" "slot_addr (dec_nfree r) i = slot_addr r i"
  "slot_addr (inc_nfree r) i = slot_addr r i" "slot_addr (inc_ridx r) i = slot_addr r i"
  by (simp_all add: slot_addr_def store_at_def mark_ready_def mark_free_def dec_nfree_def
      inc_nfree_def inc_ridx_def)

lemma effect_slot_bytes [simp]:
  "slot_bytes (r\<lparr>widx := w\<rparr>) i = slot_bytes r i"
  "slot_bytes (mark_ready r a) i = slot_bytes r i"
  "slot_bytes (mark_free r a) i = slot_bytes r i" "slot_bytes (dec_nfree r) i = slot_bytes r i"
  "slot_bytes (inc_nfree r) i = slot_bytes r i" "slot_bytes (inc_ridx r) i = slot_bytes r i"
  by (simp_all add: slot_bytes_def mark_ready_def mark_free_def dec_nfree_def
      inc_nfree_def inc_ridx_def)

text \<open>The slot of the \<open>a\<close>-th message.\<close>

lemma slot_of_msg:
  fixes a :: nat
  assumes "ring_geom r"
  defines "idx \<equiv> of_nat (a mod unat (nmemb r)) :: size_t"
  shows "unat idx = a mod unat (nmemb r)" and "unat idx < unat (nmemb r)"
    and "of_nat a mod nmemb r = idx" and "addr_slot r (slot_addr r idx) = idx"
    and "slot_addr r idx \<noteq> 0"
proof -
  obtain k where k: "unat (nmemb r) = 2 ^ k" using assms(1) by (auto simp: ring_geom_def)
  have lt: "a mod unat (nmemb r) < unat (nmemb r)" using ring_geom_pos(1) [OF assms(1)] by simp
  then have "a mod unat (nmemb r) < 18446744073709551616"
    using unat_less_2p64 [of "nmemb r"] by (rule less_trans)
  then show u: "unat idx = a mod unat (nmemb r)"
    by (simp add: idx_def unat_of_nat)
  with lt show i: "unat idx < unat (nmemb r)" by simp
  show "of_nat a mod nmemb r = idx"
    using unat_of_nat_mod_pow2 [OF k, of a] u by (simp add: word_unat_eq_iff)
  show "addr_slot r (slot_addr r idx) = idx" "slot_addr r idx \<noteq> 0"
    using slot_addr_offset [OF assms(1) i] by simp_all
qed

lemma mod_window_inj:
  fixes n :: nat
  assumes "i mod n = j mod n" and "lo \<le> i" "i < lo + n" and "lo \<le> j" "j < lo + n"
  shows "i = j"
proof -
  have "(lo + (i - lo)) mod n = (lo + (j - lo)) mod n" using assms by simp
  then have "i - lo = j - lo" by (rule mod_add_inj) (use assms in auto)
  with assms show ?thesis by simp
qed

lemma spsc_init_inv:
  assumes "ring_inv r" and "nfree r = nmemb r" and "widx r = 0"
  shows "spsc_inv (spsc_init r)"
proof -
  have "ridx r = 0" using assms by (simp add: ring_inv_def)
  moreover have "ring_len r = 0" using assms(1,2) by (simp add: ring_len_empty)
  ultimately show ?thesis
    using assms
    by (simp add: spsc_inv_def spsc_init_def progress_defs wptr_ok_def rptr_ok_def ring_inv_def)
qed

lemma w_begin_inv:
  assumes "spsc_inv s" and "wst s = W_Idle" and "length src = unat (memb_sz (rg s))"
    and "begin_write_ring (rg s) = (dst, r')" and "dst \<noteq> 0"
  shows "spsc_inv (s\<lparr>rg := r', wst := W_Copy dst src, sent := sent s @ [src]\<rparr>)"
proof -
  have g: "ring_geom (rg s)" using assms(1) by (simp add: spsc_inv_def)
  have nf: "nfree (rg s) \<noteq> 0" and r': "r' = (rg s)\<lparr>widx := widx (rg s) + 1\<rparr>"
    and dst: "dst = slot_addr (rg s) (widx (rg s) mod nmemb (rg s))"
    using assms(4,5) by (auto simp: begin_write_ring_def split: if_splits)
  have "0 < unat (nfree (rg s))" using nf by (simp add: unat_gt_0)
  then have room: "Suc (length (sent s)) \<le> returned s + nslots s"
    using assms(1,2) by (simp add: spsc_inv_def counted_def)
  have dst': "dst = slot_addr (rg s) (of_nat (length (sent s) mod nslots s))"
    using assms(1) dst slot_of_msg(3) [OF g, of "length (sent s)"] by (simp add: spsc_inv_def)
  show ?thesis
    using assms(1,2,3) room dst'
    by (auto simp: spsc_inv_def progress_defs wptr_ok_def rptr_ok_def r' nth_append
        split: rstate.splits)
qed


lemma spsc_invD:
  assumes "spsc_inv s"
  shows "ring_geom (rg s)" and "length (rcvd s) \<le> counted s"
    and "length (sent s) \<le> returned s + nslots s" and "returned s \<le> length (rcvd s)"
    and "counted s \<le> length (sent s)" and "freed s \<le> length (rcvd s)" and "0 < nslots s"
    and "unat (nfree (rg s)) + counted s = nslots s + returned s"
  using assms ring_geom_pos(1) [of "rg s"]
  by (auto simp: spsc_inv_def progress_defs split: wstate.splits rstate.splits)

lemma w_copy_inv:
  assumes inv: "spsc_inv s" and w: "wst s = W_Copy dst src"
  shows "spsc_inv (s\<lparr>rg := store_at (rg s) dst src, wst := W_Mark dst\<rparr>)"
proof -
  note d = spsc_invD [OF inv]
  let ?n = "length (sent s) - 1"
  have sent: "sent s \<noteq> []" "last (sent s) = src"
    and dst: "dst = slot_addr (rg s) (of_nat (?n mod nslots s))"
    using inv w by (auto simp: spsc_inv_def wptr_ok_def)
  have len: "length src = unat (memb_sz (rg s))"
    using inv sent by (auto simp: spsc_inv_def)
  note msg = slot_of_msg [OF d(1), of ?n]
  have bytes: "slot_bytes (store_at (rg s) dst src) i =
      (if i = ?n mod nslots s then src else slot_bytes (rg s) i)" for i
    using slot_bytes_store_at [OF d(1) msg(2) len, of i] msg(1) dst by simp
  have "slot_bytes (store_at (rg s) dst src) (j mod nslots s) = sent s ! j"
    if j: "length (rcvd s) \<le> j" "j < length (sent s)" for j
  proof (cases "j = ?n")
    case True
    then show ?thesis using bytes sent by (simp add: last_conv_nth)
  next
    case False
    have "length (rcvd s) \<le> ?n" "?n < length (rcvd s) + nslots s" "j < length (rcvd s) + nslots s"
      using j d(3,4) by linarith+
    with False have "j mod nslots s \<noteq> ?n mod nslots s"
      using mod_window_inj [of j "nslots s" ?n "length (rcvd s)"] j(1) by auto
    moreover have "slot_bytes (rg s) (j mod nslots s) = sent s ! j"
      using inv w j False by (simp add: spsc_inv_def copied_in_def)
    ultimately show ?thesis using bytes by simp
  qed
  then show ?thesis
    using inv w by (auto simp: spsc_inv_def progress_defs wptr_ok_def rptr_ok_def split: rstate.splits)
qed

lemma w_mark_inv:
  assumes inv: "spsc_inv s" and w: "wst s = W_Mark dst"
  shows "spsc_inv (s\<lparr>rg := mark_ready (rg s) dst, wst := W_Count\<rparr>)"
proof -
  note d = spsc_invD [OF inv]
  let ?n = "length (sent s) - 1"
  have sent: "sent s \<noteq> []" and dst: "dst = slot_addr (rg s) (of_nat (?n mod nslots s))"
    using inv w by (auto simp: spsc_inv_def wptr_ok_def)
  have slot: "slot_mem (mark_ready (rg s) dst) = (slot_mem (rg s))(?n mod nslots s := SLOT_READY)"
    using slot_of_msg [OF d(1), of ?n] dst by (simp add: mark_ready_def)
  have fr: "freed s \<le> ?n"
    using d(2,6) w by (simp add: counted_def)
  have old: "slot_mem (rg s) i = SLOT_READY \<longleftrightarrow> (\<exists>j. freed s \<le> j \<and> j < ?n \<and> i = j mod nslots s)"
    if "i < nslots s" for i
    using inv w that by (simp add: spsc_inv_def marked_def)
  have "slot_mem (mark_ready (rg s) dst) i = SLOT_READY \<longleftrightarrow>
      (\<exists>j. freed s \<le> j \<and> j < length (sent s) \<and> i = j mod nslots s)" if "i < nslots s" for i
  proof -
    have "j < length (sent s) \<longleftrightarrow> j < ?n \<or> j = ?n" for j
      using sent by (cases "sent s") auto
    then show ?thesis using old [OF that] fr by (auto simp: slot)
  qed
  then show ?thesis
    using inv w by (auto simp: spsc_inv_def progress_defs wptr_ok_def rptr_ok_def split: rstate.splits)
qed

lemma w_count_inv:
  assumes inv: "spsc_inv s" and w: "wst s = W_Count"
  shows "spsc_inv (s\<lparr>rg := dec_nfree (rg s), wst := W_Idle\<rparr>)"
proof -
  note d = spsc_invD [OF inv]
  have sent: "sent s \<noteq> []" using inv w by (simp add: spsc_inv_def wptr_ok_def)
  have pos: "0 < unat (nfree (rg s))"
    using d(3,8) sent w by (cases "sent s") (simp_all add: counted_def)
  then have "unat (nfree (dec_nfree (rg s))) = unat (nfree (rg s)) - 1"
    by (simp add: dec_nfree_def unat_sub word_le_nat_alt)
  then have "unat (nfree (dec_nfree (rg s))) + length (sent s) = nslots s + returned s"
    using d(8) sent w pos by (cases "sent s") (simp_all add: counted_def)
  then show ?thesis
    using inv w d(2)
    by (auto simp: spsc_inv_def progress_defs wptr_ok_def rptr_ok_def split: rstate.splits)
qed


lemma r_begin_inv:
  assumes inv: "spsc_inv s" and r: "rst s = R_Idle"
    and b: "begin_read_ring (rg s) = src" "src \<noteq> 0"
  shows "spsc_inv (s\<lparr>rst := R_Copy src\<rparr>)"
proof -
  note d = spsc_invD [OF inv]
  have ne: "nfree (rg s) \<noteq> nmemb (rg s)"
    and src: "src = slot_addr (rg s) (ridx (rg s) mod nmemb (rg s))"
    using b by (auto simp: begin_read_ring_def Let_def split: if_splits)
  have "src = slot_addr (rg s) (of_nat (length (rcvd s) mod nslots s))"
    using inv r src slot_of_msg(3) [OF d(1), of "length (rcvd s)"]
    by (simp add: spsc_inv_def advanced_def)
  moreover have "length (rcvd s) < counted s"
    using ne d(2,8) r by (auto simp: word_unat_eq_iff returned_def)
  ultimately show ?thesis
    using inv r by (auto simp: spsc_inv_def progress_defs wptr_ok_def rptr_ok_def split: wstate.splits)
qed

lemma r_copy_inv:
  assumes inv: "spsc_inv s" and r: "rst s = R_Copy src"
  defines "m \<equiv> load_at (rg s) src (unat (memb_sz (rg s)))"
  shows "spsc_inv (s\<lparr>rcvd := rcvd s @ [m], rst := R_Free src\<rparr>)"
proof -
  note d = spsc_invD [OF inv]
  let ?c = "length (rcvd s)"
  have lt: "?c < counted s" and src: "src = slot_addr (rg s) (of_nat (?c mod nslots s))"
    using inv r by (auto simp: spsc_inv_def rptr_ok_def)
  note msg = slot_of_msg [OF d(1), of ?c]
  have "m = slot_bytes (rg s) (?c mod nslots s)"
    using load_at_slot [OF d(1) msg(2)] msg(1) src by (simp add: m_def)
  also have "\<dots> = sent s ! ?c"
    using inv lt by (auto simp: spsc_inv_def counted_def copied_in_def split: wstate.splits)
  finally have m: "m = sent s ! ?c" .
  have take: "rcvd s @ [m] = take (Suc ?c) (sent s)"
  proof -
    have "rcvd s = take ?c (sent s)" using inv by (simp add: spsc_inv_def)
    moreover have "?c < length (sent s)" using lt d(5) by simp
    ultimately show ?thesis using m by (simp add: take_Suc_conv_app_nth)
  qed
  show ?thesis
    using inv r lt take src
    by (auto simp: spsc_inv_def progress_defs wptr_ok_def rptr_ok_def split: wstate.splits)
qed

lemma r_free_inv:
  assumes inv: "spsc_inv s" and r: "rst s = R_Free src"
  shows "spsc_inv (s\<lparr>rg := mark_free (rg s) src, rst := R_Adv\<rparr>)"
proof -
  note d = spsc_invD [OF inv]
  let ?c = "length (rcvd s) - 1"
  have rc: "rcvd s \<noteq> []" and src: "src = slot_addr (rg s) (of_nat (?c mod nslots s))"
    using inv r by (auto simp: spsc_inv_def rptr_ok_def)
  have slot: "slot_mem (mark_free (rg s) src) = (slot_mem (rg s))(?c mod nslots s := SLOT_FREE)"
    using slot_of_msg [OF d(1), of ?c] src by (simp add: mark_free_def)
  have mk: "marked s \<le> ?c + nslots s" and cs: "length (rcvd s) = Suc ?c"
    using d(3) r rc by (auto simp: returned_def marked_def split: wstate.splits)
  have old: "slot_mem (rg s) i = SLOT_READY \<longleftrightarrow> (\<exists>j. ?c \<le> j \<and> j < marked s \<and> i = j mod nslots s)"
    if "i < nslots s" for i
    using inv r that by (simp add: spsc_inv_def freed_def)
  have "slot_mem (mark_free (rg s) src) i = SLOT_READY \<longleftrightarrow>
      (\<exists>j. length (rcvd s) \<le> j \<and> j < marked s \<and> i = j mod nslots s)" if i: "i < nslots s" for i
  proof (cases "i = ?c mod nslots s")
    case True
    have "j mod nslots s \<noteq> ?c mod nslots s" if "length (rcvd s) \<le> j" "j < marked s" for j
      using mod_window_inj [of j "nslots s" ?c ?c] that mk cs d(7) by auto
    then have "\<not> (\<exists>j. length (rcvd s) \<le> j \<and> j < marked s \<and> i = j mod nslots s)"
      using True by metis
    with True show ?thesis by (simp add: slot)
  next
    case False
    have "(?c \<le> j \<and> j < marked s \<and> i = j mod nslots s) =
        (length (rcvd s) \<le> j \<and> j < marked s \<and> i = j mod nslots s)" for j
      using False cs by (cases "j = ?c") auto
    with False show ?thesis using old [OF i] by (simp add: slot)
  qed
  then show ?thesis
    using inv r rc by (auto simp: spsc_inv_def progress_defs wptr_ok_def rptr_ok_def split: wstate.splits)
qed

lemma r_adv_inv:
  assumes inv: "spsc_inv s" and r: "rst s = R_Adv"
  shows "spsc_inv (s\<lparr>rg := inc_ridx (rg s), rst := R_Count\<rparr>)"
proof -
  have rc: "rcvd s \<noteq> []" using inv r by (simp add: spsc_inv_def rptr_ok_def)
  have "ridx (rg s) = of_nat (length (rcvd s) - 1)"
    using inv r by (simp add: spsc_inv_def advanced_def)
  then have "ridx (inc_ridx (rg s)) = of_nat (Suc (length (rcvd s) - 1))"
    by (simp add: inc_ridx_def)
  then have "ridx (inc_ridx (rg s)) = of_nat (length (rcvd s))"
    using rc by simp
  then show ?thesis
    using inv r rc by (auto simp: spsc_inv_def progress_defs wptr_ok_def rptr_ok_def split: wstate.splits)
qed

lemma r_count_inv:
  assumes inv: "spsc_inv s" and r: "rst s = R_Count"
  shows "spsc_inv (s\<lparr>rg := inc_nfree (rg s), rst := R_Idle\<rparr>)"
proof -
  note d = spsc_invD [OF inv]
  have rc: "rcvd s \<noteq> []" using inv r by (simp add: spsc_inv_def rptr_ok_def)
  have lt: "unat (nfree (rg s)) < nslots s"
    using d(2,8) rc r by (cases "rcvd s") (simp_all add: returned_def)
  then have "unat (nfree (rg s)) + 1 < 18446744073709551616"
    using unat_less_2p64 [of "nmemb (rg s)"] by linarith
  then have "unat (nfree (inc_nfree (rg s))) = unat (nfree (rg s)) + 1"
    by (simp add: inc_nfree_def unat_Suc_word)
  then have "unat (nfree (inc_nfree (rg s))) + counted s = nslots s + length (rcvd s)"
    using d(8) rc r by (cases "rcvd s") (simp_all add: returned_def)
  moreover have "length (sent s) \<le> length (rcvd s) + nslots s"
    using d(3,4) by linarith
  ultimately show ?thesis
    using inv r rc by (auto simp: spsc_inv_def progress_defs wptr_ok_def rptr_ok_def split: wstate.splits)
qed

lemma w_spin_inv:
  assumes "spsc_inv s" and "fst (begin_write_ring (rg s)) = 0"
  shows "spsc_inv (s\<lparr>rg := snd (begin_write_ring (rg s))\<rparr>)"
proof -
  have "snd (begin_write_ring (rg s)) = rg s"
    using begin_write_ring_null [of "rg s" "snd (begin_write_ring (rg s))"] assms spsc_invD(1)
    by (metis prod.collapse)
  with assms(1) show ?thesis by simp
qed

lemmas spsc_step_invs = w_spin_inv w_begin_inv w_copy_inv w_mark_inv w_count_inv
  r_begin_inv r_copy_inv r_free_inv r_adv_inv r_count_inv

lemma spsc_step_inv: "spsc_step s t \<Longrightarrow> spsc_inv s \<Longrightarrow> spsc_inv t"
  by (induction rule: spsc_step.induct) (blast intro: spsc_step_invs)+

lemma spsc_reach_inv:
  assumes "spsc_reach r s" and "ring_inv r" and "nfree r = nmemb r" and "widx r = 0"
  shows "spsc_inv s"
  using assms by (induction rule: spsc_reach.induct) (auto intro: spsc_init_inv spsc_step_inv)


section \<open>Properties\<close>

text \<open>
  C4: whatever the interleaving of one writer and one reader, the messages copied out are the ones
  handed to the writer, in order and unaltered, and never more than \<open>nmemb\<close> messages are between
  the two: a slot is not overwritten before its message has been read.
\<close>

theorem spsc_delivers_in_order:
  assumes "spsc_reach r s" and "ring_inv r" and "nfree r = nmemb r" and "widx r = 0"
  shows "rcvd s = take (length (rcvd s)) (sent s) \<and> length (rcvd s) \<le> length (sent s) \<and>
    length (sent s) \<le> length (rcvd s) + unat (nmemb (rg s))"
proof -
  note inv = spsc_reach_inv [OF assms]
  note d = spsc_invD [OF inv]
  have "rcvd s = take (length (rcvd s)) (sent s)" using inv by (simp add: spsc_inv_def)
  moreover have "length (rcvd s) \<le> length (sent s)" using d(2,5) by linarith
  moreover have "length (sent s) \<le> length (rcvd s) + unat (nmemb (rg s))" using d(3,4) by linarith
  ultimately show ?thesis by blast
qed

text \<open>
  Two states of a run on the two-element ring: after the first write, and in the middle of the
  second write while the reader has just copied the first message.
\<close>

definition ring2_sent :: spsc where
  "ring2_sent = \<lparr>rg = ring2\<lparr>nfree := 1, widx := 1, slot_mem := (\<lambda>_. SLOT_FREE)(0 := SLOT_READY),
       buf_mem := memcpy_to (\<lambda>_. 0) 0 [7]\<rparr>,
     wst = W_Idle, rst = R_Idle, sent = [[7]], rcvd = []\<rparr>"

definition ring2_run :: spsc where
  "ring2_run = ring2_sent\<lparr>rg := (rg ring2_sent)\<lparr>widx := 2\<rparr>, wst := W_Copy 33 [8],
     rst := R_Free 32, sent := [[7], [8]], rcvd := [[7]]\<rparr>"

lemma ring2_sent_reach: "spsc_reach ring2 ring2_sent"
proof -
  let ?m = "memcpy_to (\<lambda>_. 0) 0 [7]"
  define s1 where "s1 = (spsc_init ring2)\<lparr>rg := ring2\<lparr>widx := 1\<rparr>, wst := W_Copy 32 [7], sent := [[7]]\<rparr>"
  define s2 where "s2 = s1\<lparr>rg := ring2\<lparr>widx := 1, buf_mem := ?m\<rparr>, wst := W_Mark 32\<rparr>"
  define s3 where "s3 = s2\<lparr>rg := (rg s2)\<lparr>slot_mem := (\<lambda>_. SLOT_FREE)(0 := SLOT_READY)\<rparr>, wst := W_Count\<rparr>"
  have 1: "spsc_step (spsc_init ring2) s1"
    using w_begin [of "spsc_init ring2" "[7]" 32 "ring2\<lparr>widx := 1\<rparr>"]
    by (simp add: s1_def spsc_init_def ring2_def begin_write_ring_def slot_addr_def)
  have 2: "spsc_step s1 s2"
    using w_copy [of s1 32 "[7]"] by (simp add: s1_def s2_def spsc_init_def ring2_def store_at_def)
  have 3: "spsc_step s2 s3"
    using w_mark [of s2 32]
    by (simp add: s1_def s2_def s3_def spsc_init_def ring2_def mark_ready_def addr_slot_def)
  have 4: "spsc_step s3 ring2_sent"
    using w_count [of s3]
    by (simp add: s1_def s2_def s3_def ring2_sent_def spsc_init_def ring2_def dec_nfree_def)
  show ?thesis
    by (rule spsc_reach.step [OF spsc_reach.step [OF spsc_reach.step [OF spsc_reach.step
      [OF spsc_reach.init 1] 2] 3] 4])
qed

lemma ring2_run_reach: "spsc_reach ring2 ring2_run"
proof -
  define s5 where "s5 = ring2_sent\<lparr>rg := (rg ring2_sent)\<lparr>widx := 2\<rparr>, wst := W_Copy 33 [8], sent := [[7], [8]]\<rparr>"
  define s6 where "s6 = s5\<lparr>rst := R_Copy 32\<rparr>"
  have 1: "spsc_step ring2_sent s5"
    using w_begin [of ring2_sent "[8]" 33 "(rg ring2_sent)\<lparr>widx := 2\<rparr>"]
    by (simp add: s5_def ring2_sent_def ring2_def begin_write_ring_def slot_addr_def)
  have 2: "spsc_step s5 s6"
    using r_begin [of s5 32]
    by (simp add: s6_def s5_def ring2_sent_def ring2_def begin_read_ring_def slot_addr_def)
  have 3: "spsc_step s6 ring2_run"
    using r_copy [of s6 32]
    by (simp add: s6_def s5_def ring2_run_def ring2_sent_def ring2_def load_at_def
        memcpy_from_def memcpy_to_def)
  show ?thesis
    by (rule spsc_reach.step [OF spsc_reach.step [OF spsc_reach.step [OF ring2_sent_reach 1] 2] 3])
qed

theorem spsc_delivers_in_order_witness:
  "rcvd ring2_run = take (length (rcvd ring2_run)) (sent ring2_run) \<and>
    length (rcvd ring2_run) \<le> length (sent ring2_run) \<and>
    length (sent ring2_run) \<le> length (rcvd ring2_run) + unat (nmemb (rg ring2_run))"
  by (rule spsc_delivers_in_order [OF ring2_run_reach ring2_inv]) (simp_all add: ring2_fields)

text \<open>
  C25: in every reachable interleaving a message whose write has finished is available: whenever
  such a message has not been read and the reader is idle, the next begin of a read returns a
  pointer, and it points to exactly the oldest unread message.
\<close>

theorem spsc_published_is_readable:
  assumes "spsc_reach r s" and "ring_inv r" and "nfree r = nmemb r" and "widx r = 0"
    and "rst s = R_Idle" and "length (rcvd s) < counted s"
  shows "begin_read_ring (rg s) \<noteq> 0 \<and>
    load_at (rg s) (begin_read_ring (rg s)) (unat (memb_sz (rg s))) = sent s ! length (rcvd s)"
proof -
  note inv = spsc_reach_inv [OF assms(1-4)]
  note d = spsc_invD [OF inv]
  let ?c = "length (rcvd s)"
  note msg = slot_of_msg [OF d(1), of ?c]
  have ridx: "ridx (rg s) mod nmemb (rg s) = of_nat (?c mod nslots s)"
    using inv assms(5) msg(3) by (simp add: spsc_inv_def advanced_def)
  have mk: "?c < marked s" "?c < copied_in s" and fr: "freed s = ?c"
    using assms(5,6) by (auto simp: progress_defs split: wstate.splits)
  have "slot_mem (rg s) (?c mod nslots s) = SLOT_READY"
    using inv mk(1) fr d(7) by (auto simp: spsc_inv_def)
  moreover have "nfree (rg s) \<noteq> nmemb (rg s)"
    using d(8) assms(5,6) by (auto simp: returned_def)
  ultimately have "begin_read_ring (rg s) = slot_addr (rg s) (of_nat (?c mod nslots s))"
    using msg(1) by (simp add: begin_read_ring_def ridx)
  moreover have "slot_bytes (rg s) (?c mod nslots s) = sent s ! ?c"
    using inv mk(2) by (simp add: spsc_inv_def)
  ultimately show ?thesis
    using msg(1,5) load_at_slot [OF d(1) msg(2)] by simp
qed

theorem spsc_published_is_readable_witness:
  "begin_read_ring (rg ring2_sent) \<noteq> 0 \<and>
    load_at (rg ring2_sent) (begin_read_ring (rg ring2_sent)) (unat (memb_sz (rg ring2_sent))) =
      sent ring2_sent ! length (rcvd ring2_sent)"
  by (rule spsc_published_is_readable [OF ring2_sent_reach ring2_inv])
    (simp_all add: ring2_fields ring2_sent_def counted_def)

end
