(* ===== verification/Double.thy ===== *)
theory Double
  imports Complex_Main
begin

text \<open>
  The type \<open>double\<close> of the language, as IEEE 754 defines it: the result of an operation is the exact result, rounded to
  the nearest number with 53 significant bits, to the one with an even last bit when two are equally near.  Numbers below
  2 to the \<open>-1022\<close> have fewer bits, and a result of 2 to the 1024 or more is not finite.  Shown here: integers up to
  2 to the 53 are exact, and the relative error of a chain of operations on numbers that are not negative grows with
  their number only.
\<close>

section \<open>Rounding\<close>

definition round_even :: "real \<Rightarrow> int" where
  "round_even x = (let n = \<lfloor>x\<rfloor>; f = x - of_int n in if f < 1 / 2 \<or> f = 1 / 2 \<and> even n then n else n + 1)"

text \<open>The value of the last bit of a number.\<close>

definition ulp :: "real \<Rightarrow> real" where
  "ulp x = 2 powr (of_int (max \<lfloor>log 2 \<bar>x\<bar>\<rfloor> (-1022)) - 52)"

definition nearest :: "real \<Rightarrow> real" where
  "nearest x = (if x = 0 then 0 else of_int (round_even (x / ulp x)) * ulp x)"

text \<open>A \<open>double\<close> is a real number, or \<open>None\<close> when it is infinite or not a number.\<close>

type_synonym double = "real option"

definition to_double :: "real \<Rightarrow> double" where
  "to_double x = (if \<bar>nearest x\<bar> < 2 ^ 1024 then Some (nearest x) else None)"

text \<open>Multiplication and division by a finite number; what is not finite stays so.\<close>

definition d_mult :: "double \<Rightarrow> real \<Rightarrow> double" where
  "d_mult d c = (case d of None \<Rightarrow> None | Some x \<Rightarrow> to_double (x * c))"

definition d_div :: "double \<Rightarrow> real \<Rightarrow> double" where
  "d_div d c = (case d of None \<Rightarrow> None | Some x \<Rightarrow> if c = 0 then None else to_double (x / c))"

section \<open>The error of one operation\<close>

lemma round_even_err: "\<bar>of_int (round_even x) - x\<bar> \<le> 1 / 2"
  unfolding round_even_def Let_def by (auto simp: abs_if) linarith+

lemma round_even_of_int [simp]: "round_even (of_int n) = n"
  by (simp add: round_even_def)

lemma round_even_ge: "of_int m \<le> x \<Longrightarrow> m \<le> round_even x"
proof -
  assume "of_int m \<le> x"
  then have "m \<le> \<lfloor>x\<rfloor>"
    by (simp add: le_floor_iff)
  then show ?thesis
    by (simp add: round_even_def Let_def)
qed

lemma round_even_uminus: "round_even (- x) = - round_even x"
proof (cases "x = of_int \<lfloor>x\<rfloor>")
  case True
  then show ?thesis
    by (metis of_int_minus round_even_of_int)
next
  case False
  then have lt: "of_int \<lfloor>x\<rfloor> < x"
    by linarith
  have fl: "\<lfloor>- x\<rfloor> = - \<lfloor>x\<rfloor> - 1"
    by (rule floor_unique) (use lt in linarith)+
  show ?thesis
    unfolding round_even_def Let_def fl by (auto simp: field_simps)
qed

lemma ulp_uminus [simp]: "ulp (- x) = ulp x"
  by (simp add: ulp_def)

lemma nearest_uminus: "nearest (- x) = - nearest x"
  by (simp add: nearest_def round_even_uminus)

lemma ulp_pos [simp]: "0 < ulp x"
  by (simp add: ulp_def)

lemma ulp_nonzero [simp]: "ulp x \<noteq> 0"
  using ulp_pos [of x] by linarith

lemma nearest_err: "\<bar>nearest x - x\<bar> \<le> ulp x / 2"
proof (cases "x = 0")
  case False
  have "nearest x - x = (of_int (round_even (x / ulp x)) - x / ulp x) * ulp x"
    using False by (simp add: nearest_def algebra_simps)
  then have "\<bar>nearest x - x\<bar> = \<bar>of_int (round_even (x / ulp x)) - x / ulp x\<bar> * ulp x"
    using less_imp_le [OF ulp_pos [of x]] by (simp add: abs_mult)
  also have "\<dots> \<le> 1 / 2 * ulp x"
    by (intro mult_right_mono round_even_err) (simp add: less_imp_le)
  finally show ?thesis
    by simp
qed (simp add: nearest_def less_imp_le)

lemma exponent_le: "x \<noteq> 0 \<Longrightarrow> 2 powr of_int \<lfloor>log 2 \<bar>x\<bar>\<rfloor> \<le> \<bar>x\<bar>"
  using powr_mono [of "of_int \<lfloor>log 2 \<bar>x\<bar>\<rfloor>" "log 2 \<bar>x\<bar>" 2] by simp

lemma ulp_le:
  assumes "x \<noteq> 0"
  shows "ulp x \<le> max \<bar>x\<bar> (2 powr (-1022)) / 2 ^ 52"
proof -
  have "ulp x = 2 powr of_int (max \<lfloor>log 2 \<bar>x\<bar>\<rfloor> (-1022)) / 2 powr 52"
    by (simp add: ulp_def powr_diff)
  also have "2 powr 52 = (2 :: real) ^ 52"
    using powr_realpow [of 2 52] by simp
  finally have "ulp x = 2 powr of_int (max \<lfloor>log 2 \<bar>x\<bar>\<rfloor> (-1022)) / 2 ^ 52" .
  moreover have "2 powr of_int (max \<lfloor>log 2 \<bar>x\<bar>\<rfloor> (-1022)) \<le> max \<bar>x\<bar> (2 powr (-1022))"
  proof (cases "\<lfloor>log 2 \<bar>x\<bar>\<rfloor> \<le> -1022")
    case False
    then have "max \<lfloor>log 2 \<bar>x\<bar>\<rfloor> (-1022) = \<lfloor>log 2 \<bar>x\<bar>\<rfloor>"
      by simp
    then show ?thesis
      using exponent_le [OF assms] by (simp only: le_max_iff_disj simp_thms)
  qed (simp only: max_absorb2 of_int_minus of_int_numeral max.cobounded2)
  ultimately show ?thesis
    by (simp add: divide_right_mono)
qed

lemma nearest_error: "\<bar>nearest x - x\<bar> \<le> max \<bar>x\<bar> (2 powr (-1022)) / 2 ^ 53"
proof (cases "x = 0")
  case True
  have "0 \<le> max \<bar>x\<bar> (2 powr (-1022)) / 2 ^ 53"
    by (intro divide_nonneg_nonneg) (simp_all add: le_max_iff_disj)
  then show ?thesis
    using True by (simp add: nearest_def)
next
  case False
  then show ?thesis
    using nearest_err [of x] ulp_le [OF False] by simp
qed

lemma nearest_nonneg:
  assumes "0 \<le> x"
  shows "0 \<le> nearest x"
proof -
  have "0 \<le> round_even (x / ulp x)"
    using assms by (intro round_even_ge) (simp add: less_imp_le)
  then show ?thesis
    by (simp add: nearest_def less_imp_le)
qed

lemma to_double_finite:
  assumes "\<bar>x\<bar> \<le> 2 ^ 1000"
  shows "to_double x = Some (nearest x)"
proof -
  have "(2 :: real) powr (-1022) \<le> 1"
    using powr_mono [of "-1022" 0 2] by simp
  moreover have "(1 :: real) \<le> 2 ^ 1000"
    by simp
  ultimately have "max \<bar>x\<bar> (2 powr (-1022)) \<le> 2 ^ 1000"
    using assms by linarith
  then have "max \<bar>x\<bar> (2 powr (-1022)) / 2 ^ 53 \<le> 2 ^ 1000 / 2 ^ 53"
    by (rule divide_right_mono) simp
  then have "\<bar>nearest x\<bar> \<le> 2 ^ 1000 + 2 ^ 1000 / 2 ^ 53"
    using nearest_error [of x] assms by linarith
  also have "\<dots> < 2 ^ 1024"
    by simp
  finally show ?thesis
    by (simp add: to_double_def)
qed

lemma nearest_of_int:
  assumes "\<bar>n\<bar> \<le> 2 ^ 53"
  shows "nearest (of_int n) = of_int n"
proof (cases "n = 0")
  case False
  let ?x = "of_int n :: real"
  define e where "e = nat \<lfloor>log 2 \<bar>?x\<bar>\<rfloor>"
  have one: "1 \<le> \<bar>?x\<bar>" and top: "\<bar>?x\<bar> \<le> 2 ^ 53"
    using False assms by (simp_all flip: of_int_abs)
  then have e: "\<lfloor>log 2 \<bar>?x\<bar>\<rfloor> = int e"
    by (simp add: e_def)
  have ulp: "ulp ?x = 2 powr (real e - 52)"
    by (simp add: ulp_def e)
  have le: "2 ^ e \<le> \<bar>?x\<bar>"
    using exponent_le [of ?x] False e powr_realpow [of 2 e] by simp
  then have "(2 :: real) ^ e \<le> 2 ^ 53"
    using top by linarith
  then have "e \<le> 53"
    by (rule power_le_imp_le_exp [rotated]) simp
  then consider "e \<le> 52" | "e = 53"
    by linarith
  then have "\<exists>k. ?x / ulp ?x = of_int k"
  proof cases
    case 1
    have "ulp ?x = 1 / 2 ^ (52 - e)"
      using 1 powr_realpow [of 2 "52 - e"] powr_minus_divide [of 2 "52 - real e"] unfolding ulp by (simp add: of_nat_diff)
    then have "?x / ulp ?x = of_int (n * 2 ^ (52 - e))"
      by simp
    then show ?thesis ..
  next
    case 2
    then have "\<bar>?x\<bar> = 2 ^ 53"
      using le top by simp
    then have "\<bar>n\<bar> = 2 ^ 53"
      by (simp flip: of_int_abs)
    then have "even \<bar>n\<bar>"
      by simp
    then have "n = 2 * (n div 2)"
      by simp
    moreover have "ulp ?x = 2"
      using 2 unfolding ulp by simp
    ultimately have "?x / ulp ?x = of_int (n div 2)"
      by (metis (no_types) nonzero_mult_div_cancel_left of_int_mult of_int_numeral zero_neq_numeral)
    then show ?thesis ..
  qed
  then obtain k where "?x / ulp ?x = of_int k" ..
  then show ?thesis
    using False ulp_pos [of ?x] by (simp add: nearest_def) (simp add: field_simps)
qed (simp add: nearest_def)

lemma nearest_ge_power:
  assumes "2 powr of_int e \<le> x" and "-1022 \<le> e"
  shows "2 powr of_int e \<le> nearest x"
proof -
  have x: "0 < x"
    using assms(1) by (rule order.strict_trans2 [rotated]) simp
  have "of_int e \<le> log 2 x"
    using log_le_cancel_iff [of 2 "2 powr of_int e" x] assms(1) x by simp
  then have E: "e \<le> \<lfloor>log 2 \<bar>x\<bar>\<rfloor>"
    using x by (simp add: le_floor_iff)
  then have "max \<lfloor>log 2 \<bar>x\<bar>\<rfloor> (-1022) = \<lfloor>log 2 \<bar>x\<bar>\<rfloor>"
    using assms(2) by simp
  then have u: "ulp x = 2 powr of_int \<lfloor>log 2 \<bar>x\<bar>\<rfloor> / 2 ^ 52"
    using powr_realpow [of 2 52] by (simp add: ulp_def powr_diff)
  then have "of_int (2 ^ 52) \<le> x / ulp x"
    using exponent_le [of x] x by (simp add: field_simps)
  then have "2 ^ 52 \<le> round_even (x / ulp x)"
    by (rule round_even_ge)
  then have "of_int (2 ^ 52) * ulp x \<le> of_int (round_even (x / ulp x)) * ulp x"
    by (intro mult_right_mono) (simp_all only: of_int_le_iff less_imp_le [OF ulp_pos])
  then have "2 powr of_int \<lfloor>log 2 \<bar>x\<bar>\<rfloor> \<le> nearest x"
    using x by (simp only: u [THEN arg_cong, of "\<lambda>y. of_int (2 ^ 52) * y"] nearest_def) simp
  moreover have "(2 :: real) powr of_int e \<le> 2 powr of_int \<lfloor>log 2 \<bar>x\<bar>\<rfloor>"
    using E by (intro powr_mono) simp_all
  ultimately show ?thesis
    by linarith
qed

section \<open>The error of several operations\<close>

text \<open>Two numbers that are not negative and differ by at most \<open>k\<close> roundings, and a number far from underflow.\<close>

definition shrink :: real where
  "shrink = 1 - 1 / 2 ^ 53"

definition close :: "nat \<Rightarrow> real \<Rightarrow> real \<Rightarrow> bool" where
  "close k a b \<longleftrightarrow> 0 \<le> a \<and> 0 \<le> b \<and> b * shrink ^ k \<le> a \<and> a * shrink ^ k \<le> b"

definition sizable :: "real \<Rightarrow> bool" where
  "sizable x \<longleftrightarrow> x = 0 \<or> 2 powr (-1000) \<le> x"

lemma sizable_nonneg: "sizable x \<Longrightarrow> 0 \<le> x"
  unfolding sizable_def by (meson order.trans order_refl powr_ge_zero)

lemma sizable_add: "sizable x \<Longrightarrow> sizable y \<Longrightarrow> sizable (x + y)"
  using sizable_nonneg [of x] sizable_nonneg [of y] by (auto simp: sizable_def)

lemma shrink_bounds: "0 \<le> shrink" "shrink \<le> 1" "0 \<le> shrink ^ k" "shrink ^ k \<le> 1"
proof -
  show "0 \<le> shrink" "shrink \<le> 1"
    by (simp_all add: shrink_def)
  then show "0 \<le> shrink ^ k" "shrink ^ k \<le> 1"
    by (simp_all add: power_le_one)
qed

lemma close_refl: "0 \<le> a \<Longrightarrow> close k a a"
  by (simp add: close_def mult_left_le shrink_bounds)

lemma close_mono:
  assumes "close j a b" and "j \<le> k"
  shows "close k a b"
proof -
  have "shrink ^ k \<le> shrink ^ j"
    using assms(2) shrink_bounds(1,2) by (rule power_decreasing)
  then have "a * shrink ^ k \<le> a * shrink ^ j" "b * shrink ^ k \<le> b * shrink ^ j"
    using assms(1) by (simp_all add: close_def mult_left_mono)
  then show ?thesis
    using assms(1) unfolding close_def by linarith
qed

lemma close_trans:
  assumes "close j a b" and "close k b c"
  shows "close (j + k) a c"
proof -
  have "c * shrink ^ k * shrink ^ j \<le> b * shrink ^ j" "a * shrink ^ j * shrink ^ k \<le> b * shrink ^ k"
    using assms shrink_bounds(3) by (simp_all add: close_def mult_right_mono)
  then show ?thesis
    using assms unfolding close_def power_add by (simp add: mult_ac)
qed

lemma close_scale:
  assumes "close k a b" and "0 \<le> c"
  shows "close k (a * c) (b * c)"
proof -
  have "b * shrink ^ k * c \<le> a * c" "a * shrink ^ k * c \<le> b * c"
    using assms by (simp_all add: close_def mult_right_mono)
  then show ?thesis
    using assms by (simp add: close_def mult_ac)
qed

lemma close_add: "close k a b \<Longrightarrow> close k c d \<Longrightarrow> close k (a + c) (b + d)"
  by (simp add: close_def distrib_right)

lemma close_nearest:
  assumes "sizable x"
  shows "close 1 (nearest x) x" and "sizable (nearest x)"
proof -
  have "close 1 (nearest x) x \<and> sizable (nearest x)"
  proof (cases "x = 0")
    case False
    then have big: "2 powr (-1000) \<le> x"
      using assms by (simp add: sizable_def)
    moreover have "(2 :: real) powr (-1022) \<le> 2 powr (-1000)"
      by simp
    ultimately have "2 powr (-1022) \<le> x" "0 \<le> x"
      using sizable_nonneg [OF assms] by linarith+
    then have "max \<bar>x\<bar> (2 powr (-1022)) = x" "0 \<le> x"
      by simp_all
    then have err: "\<bar>nearest x - x\<bar> \<le> x / 2 ^ 53" "0 \<le> x"
      using nearest_error [of x] by simp_all
    then have "nearest x \<le> x + x / 2 ^ 53"
      by linarith
    then have "nearest x * shrink \<le> (x + x / 2 ^ 53) * shrink"
      using shrink_bounds(1) by (rule mult_right_mono)
    also have "\<dots> \<le> x"
      using err(2) by (simp add: shrink_def field_simps)
    finally have up: "nearest x * shrink \<le> x" .
    have "x * shrink = x - x / 2 ^ 53"
      by (simp add: shrink_def algebra_simps)
    then have "x * shrink \<le> nearest x"
      using err(1) by linarith
    then have "close 1 (nearest x) x"
      using up err(2) nearest_nonneg [of x] by (simp add: close_def)
    moreover have "2 powr (-1000) \<le> nearest x"
      using nearest_ge_power [of "-1000" x] big by simp
    ultimately show ?thesis
      by (simp add: sizable_def)
  qed (simp add: nearest_def close_def sizable_def)
  then show "close 1 (nearest x) x" "sizable (nearest x)"
    by blast+
qed

lemma close_error:
  assumes "close k a b" and "k \<le> 2 ^ 52"
  shows "\<bar>a - b\<bar> \<le> real k * b / 2 ^ 52"
proof -
  define v where "v = real k / 2 ^ 53"
  have v: "0 \<le> v" "v \<le> 1 / 2"
    using assms(2) of_nat_mono [of k "2 ^ 52", where 'a = real] by (simp_all add: v_def)
  have ab: "0 \<le> a" "0 \<le> b"
    using assms(1) by (simp_all add: close_def)
  have "1 + real k * (- (1 / 2 ^ 53)) \<le> (1 + - (1 / 2 ^ 53)) ^ k"
    by (rule Bernoulli_inequality) simp
  then have "1 - v \<le> shrink ^ k"
    by (simp only: shrink_def v_def) simp
  then have "b * (1 - v) \<le> b * shrink ^ k" "a * (1 - v) \<le> a * shrink ^ k"
    using ab by (simp_all only: mult_left_mono)
  then have low: "b - v * b \<le> a" "a - v * a \<le> b"
    using assms(1) by (simp_all add: close_def right_diff_distrib mult.commute)
  have "v * a \<le> 1 / 2 * a"
    using v ab(1) by (intro mult_right_mono) simp_all
  then have "a \<le> 2 * b"
    using low(2) by linarith
  then have "v * a \<le> v * (2 * b)" "0 \<le> v * b"
    using v(1) ab(2) by (intro mult_left_mono mult_nonneg_nonneg; simp)+
  then have "\<bar>a - b\<bar> \<le> 2 * (v * b)"
    using low by linarith
  then show ?thesis
    by (simp add: v_def mult.commute)
qed

end
