(* ===== verification/Pgm_Types.thy ===== *)
theory Pgm_Types
  imports Ring_Buffer
begin

unbundle bit_operations_syntax

text \<open>
  The data of \<^verbatim>\<open>src/include/pgm.h\<close> and of the first part of \<^verbatim>\<open>src/src/pgm.cpp\<close>: limits, edge types,
  handles, edge attributes, memory headers, edges, nodes, graphs and the process-level globals,
  together with the state of the program.

  The calls into the operating system, the C library and Boost are the functions of the record
  \<open>os\<close> over a world of arbitrary type \<open>'w\<close>, an argument of every operation that makes such a
  call.  An operation that the code can only perform by leaving an array returns \<open>None\<close>.

  Counters and stored indices of the C structs (\<open>int\<close>, never negative and bounded by the array
  sizes) are \<open>nat\<close>; handles, return codes, file descriptors and thread ids are \<open>int\<close>;
  token counts are \<open>size_t\<close>.
\<close>

section \<open>Limits and edge types\<close>

definition PGM_GRAPH_NAME_LEN :: nat where "PGM_GRAPH_NAME_LEN = 80"
definition PGM_EDGE_NAME_LEN :: nat where "PGM_EDGE_NAME_LEN = 80"
definition PGM_NODE_NAME_LEN :: nat where "PGM_NODE_NAME_LEN = 80"
definition PGM_MAX_NODES :: nat where "PGM_MAX_NODES = 4096"
definition PGM_MAX_EDGES :: nat where "PGM_MAX_EDGES = 4096"
definition PGM_MAX_GRAPHS :: nat where "PGM_MAX_GRAPHS = 128"
definition PGM_MAX_IN_DEGREE :: nat where "PGM_MAX_IN_DEGREE = 32"
definition PGM_MAX_OUT_DEGREE :: nat where "PGM_MAX_OUT_DEGREE = PGM_MAX_IN_DEGREE"

lemmas pgm_limits = PGM_GRAPH_NAME_LEN_def PGM_EDGE_NAME_LEN_def PGM_NODE_NAME_LEN_def
  PGM_MAX_NODES_def PGM_MAX_EDGES_def PGM_MAX_GRAPHS_def PGM_MAX_IN_DEGREE_def PGM_MAX_OUT_DEGREE_def

type_synonym edge_type = "32 word"

definition PGM_SIGNALED :: edge_type where "PGM_SIGNALED = 0x80000000"
definition PGM_DATA_PASSING :: edge_type where "PGM_DATA_PASSING = 0x40000000"
definition PGM_EDGE_CV :: edge_type where "PGM_EDGE_CV = 1"
definition PGM_EDGE_FIFO :: edge_type where "PGM_EDGE_FIFO = 2"
definition PGM_EDGE_MQ :: edge_type where "PGM_EDGE_MQ = 4"
definition PGM_EDGE_RING :: edge_type where "PGM_EDGE_RING = 8"
definition PGM_EDGE_SOCK_STREAM :: edge_type where "PGM_EDGE_SOCK_STREAM = 0x10"

definition pgm_cv_edge :: edge_type where
  "pgm_cv_edge = PGM_EDGE_CV OR PGM_SIGNALED"
definition pgm_ring_edge :: edge_type where
  "pgm_ring_edge = PGM_EDGE_RING OR PGM_SIGNALED OR PGM_DATA_PASSING"
definition pgm_fast_fifo_edge :: edge_type where
  "pgm_fast_fifo_edge = PGM_EDGE_FIFO OR PGM_SIGNALED OR PGM_DATA_PASSING"
definition pgm_fast_mq_edge :: edge_type where
  "pgm_fast_mq_edge = PGM_EDGE_MQ OR PGM_SIGNALED OR PGM_DATA_PASSING"
definition pgm_fifo_edge :: edge_type where
  "pgm_fifo_edge = PGM_EDGE_FIFO OR PGM_DATA_PASSING"
definition pgm_mq_edge :: edge_type where
  "pgm_mq_edge = PGM_EDGE_MQ OR PGM_DATA_PASSING"
definition pgm_sock_stream_edge :: edge_type where
  "pgm_sock_stream_edge = PGM_EDGE_SOCK_STREAM OR PGM_DATA_PASSING"

lemmas edge_type_defs = PGM_SIGNALED_def PGM_DATA_PASSING_def PGM_EDGE_CV_def PGM_EDGE_FIFO_def
  PGM_EDGE_MQ_def PGM_EDGE_RING_def PGM_EDGE_SOCK_STREAM_def pgm_cv_edge_def pgm_ring_edge_def
  pgm_fast_fifo_edge_def pgm_fast_mq_edge_def pgm_fifo_edge_def pgm_mq_edge_def
  pgm_sock_stream_edge_def

definition PGM_TERMINATE :: byte where "PGM_TERMINATE = 0x80"

section \<open>Handles and attributes\<close>

type_synonym graph_t = int

record node_t =
  ngraph :: graph_t
  nnode :: int

record edge_t =
  egraph :: graph_t
  eedge :: int

definition BAD_EDGE :: edge_t where "BAD_EDGE = \<lparr>egraph = -1, eedge = -1\<rparr>"

text \<open>
  \<open>pgm_edge_attr\<close>.  The first eight bytes of its union are the field \<open>params\<close>, read as
  \<open>nr_init\<close> (CV edges), \<open>nmemb\<close> (rings), \<open>mq_maxmsg\<close> (message queues) or \<open>port\<close> (sockets).
\<close>

record edge_attr =
  nr_produce :: size_t
  nr_consume :: size_t
  nr_threshold :: size_t
  etype :: edge_type
  params :: "64 word"
  peer :: "string option"
  fd_prod_socket :: int

definition attr_nr_init :: "edge_attr \<Rightarrow> size_t" where "attr_nr_init a = params a"
definition attr_nmemb :: "edge_attr \<Rightarrow> size_t" where "attr_nmemb a = params a"
definition attr_mq_maxmsg :: "edge_attr \<Rightarrow> int" where "attr_mq_maxmsg a = sint (ucast (params a) :: 32 word)"
definition attr_port :: "edge_attr \<Rightarrow> int" where "attr_port a = sint (ucast (params a) :: 16 word)"

definition zero_attr :: edge_attr where
  "zero_attr = \<lparr>nr_produce = 0, nr_consume = 0, nr_threshold = 0, etype = 0, params = 0, peer = None,
     fd_prod_socket = 0\<rparr>"

definition default_edge :: edge_attr where
  "default_edge = zero_attr\<lparr>nr_produce := 1, nr_consume := 1, nr_threshold := 1, etype := pgm_cv_edge\<rparr>"

definition is_signal_driven :: "edge_attr \<Rightarrow> bool" where
  "is_signal_driven a \<longleftrightarrow> etype a AND PGM_SIGNALED \<noteq> 0"

definition is_data_passing :: "edge_attr \<Rightarrow> bool" where
  "is_data_passing a \<longleftrightarrow> etype a AND PGM_DATA_PASSING \<noteq> 0"

section \<open>Edges, nodes and graphs\<close>

text \<open>The operation tables an edge can point to; a null table is \<open>None\<close>.\<close>

datatype edge_ops = cv_edge_ops | fifo_edge_ops | mq_edge_ops | ring_edge_ops | sock_stream_edge_ops

text \<open>
  \<open>pgm_edge\<close>.  In the struct the descriptors and \<open>next_tag\<close> share a union with \<open>ringbuf\<close> and
  \<open>ring_cmd\<close>; the operation table of an edge never changes, and each table uses one side of the
  union only.
\<close>

record pgm_edge =
  e_name :: string
  e_producer :: nat
  e_consumer :: nat
  e_is_backedge :: bool
  e_attr :: edge_attr
  e_ops :: "edge_ops option"
  e_nr_skips :: size_t
  e_nr_pending :: size_t
  e_fd_out :: int
  e_fd_in :: int
  e_next_tag :: size_t
  e_ringbuf :: ring
  e_ring_cmd :: byte
  e_buf_out :: addr
  e_buf_in :: addr

record pgm_node =
  n_name :: string
  n_in :: "nat \<Rightarrow> nat"
  n_out :: "nat \<Rightarrow> nat"
  nr_in :: nat
  nr_out :: nat
  nr_in_data :: nat
  nr_in_signaled :: nat
  nr_in_data_backedges :: nat
  nr_in_signaled_backedges :: nat
  signal_edge_mask :: "32 word"
  nr_terminate_signals :: nat
  nr_terminate_msgs :: nat
  owner :: pid_t
  userdata :: addr
  sync_ready :: bool

text \<open>\<open>sync_ready\<close>: the lock and the condition variable of the node are initialised.\<close>

record pgm_graph =
  in_use :: bool
  g_name :: string
  nr_nodes :: nat
  nr_edges :: nat
  nodes :: "nat \<Rightarrow> pgm_node"
  edges :: "nat \<Rightarrow> pgm_edge"

definition UNCLAIMED_NODE :: pid_t where "UNCLAIMED_NODE = -1"

definition zero_ring :: ring where
  "zero_ring = \<lparr>nmemb = 0, memb_sz = 0, nfree = 0, widx = 0, ridx = 0, slots = 0, buf = 0,
     user_managed_buffers = False, slot_mem = (\<lambda>_. SLOT_FREE), buf_mem = (\<lambda>_. 0)\<rparr>"

definition zero_edge :: pgm_edge where
  "zero_edge = \<lparr>e_name = [], e_producer = 0, e_consumer = 0, e_is_backedge = False, e_attr = zero_attr,
     e_ops = None, e_nr_skips = 0, e_nr_pending = 0, e_fd_out = 0, e_fd_in = 0, e_next_tag = 0,
     e_ringbuf = zero_ring, e_ring_cmd = 0, e_buf_out = 0, e_buf_in = 0\<rparr>"

definition zero_node :: pgm_node where
  "zero_node = \<lparr>n_name = [], n_in = (\<lambda>_. 0), n_out = (\<lambda>_. 0), nr_in = 0, nr_out = 0, nr_in_data = 0,
     nr_in_signaled = 0, nr_in_data_backedges = 0, nr_in_signaled_backedges = 0, signal_edge_mask = 0,
     nr_terminate_signals = 0, nr_terminate_msgs = 0, owner = 0, userdata = 0, sync_ready = False\<rparr>"

definition zero_graph :: pgm_graph where
  "zero_graph = \<lparr>in_use = False, g_name = [], nr_nodes = 0, nr_edges = 0, nodes = (\<lambda>_. zero_node),
     edges = (\<lambda>_. zero_edge)\<rparr>"

definition upd_node :: "nat \<Rightarrow> (pgm_node \<Rightarrow> pgm_node) \<Rightarrow> pgm_graph \<Rightarrow> pgm_graph" where
  "upd_node i f g = g\<lparr>nodes := (nodes g)(i := f (nodes g i))\<rparr>"

definition upd_edge :: "nat \<Rightarrow> (pgm_edge \<Rightarrow> pgm_edge) \<Rightarrow> pgm_graph \<Rightarrow> pgm_graph" where
  "upd_edge i f g = g\<lparr>edges := (edges g)(i := f (edges g i))\<rparr>"

end
