(* ===== verification/Pgm_State.thy ===== *)
theory Pgm_State
  imports Pgm_Types
begin

text \<open>
  The process-level state of \<^verbatim>\<open>src/src/pgm.cpp\<close> (its globals and the memory its pointers lead to),
  the record of the external calls it makes, and the validity tests every entry point starts with.
\<close>

section \<open>External calls\<close>

datatype open_mode = O_RDONLY | O_WRONLY

text \<open>
  Every call may change the world; \<open>os_errno\<close> reads \<open>errno\<close>.  A read call returns its C result and
  the bytes it stored, \<open>getaddrinfo\<close> (host, port, passive) its C result and the addresses found (numbered).
\<close>

record 'w os =
  os_errno :: "'w \<Rightarrow> int"
  os_malloc :: "size_t \<Rightarrow> 'w \<Rightarrow> addr \<times> 'w"
  os_calloc :: "size_t \<Rightarrow> 'w \<Rightarrow> addr \<times> 'w"
  os_free :: "addr \<Rightarrow> 'w \<Rightarrow> 'w"
  os_hash :: "string \<Rightarrow> size_t"
  os_exists :: "string \<Rightarrow> 'w \<Rightarrow> bool"
  os_remove :: "string \<Rightarrow> 'w \<Rightarrow> bool \<times> 'w"
  os_mkfifo :: "string \<Rightarrow> 'w \<Rightarrow> int \<times> 'w"
  os_open :: "string \<Rightarrow> open_mode \<Rightarrow> 'w \<Rightarrow> int \<times> 'w"
  os_close :: "int \<Rightarrow> 'w \<Rightarrow> int \<times> 'w"
  os_read :: "int \<Rightarrow> nat \<Rightarrow> 'w \<Rightarrow> (int \<times> byte list) \<times> 'w"
  os_write :: "int \<Rightarrow> byte list \<Rightarrow> 'w \<Rightarrow> int \<times> 'w"
  os_time :: "'w \<Rightarrow> int"
  os_usleep :: "nat \<Rightarrow> 'w \<Rightarrow> 'w"
  os_mq_unlink :: "string \<Rightarrow> 'w \<Rightarrow> int \<times> 'w"
  os_mq_open :: "string \<Rightarrow> open_mode \<Rightarrow> int \<Rightarrow> size_t \<Rightarrow> 'w \<Rightarrow> int \<times> 'w"
  os_mq_close :: "int \<Rightarrow> 'w \<Rightarrow> int \<times> 'w"
  os_mq_receive :: "int \<Rightarrow> nat \<Rightarrow> 'w \<Rightarrow> (int \<times> byte list) \<times> 'w"
  os_mq_send :: "int \<Rightarrow> byte list \<Rightarrow> 'w \<Rightarrow> int \<times> 'w"
  os_getaddrinfo :: "string option \<Rightarrow> int \<Rightarrow> bool \<Rightarrow> 'w \<Rightarrow> (int \<times> nat list) \<times> 'w"
  os_socket :: "nat \<Rightarrow> 'w \<Rightarrow> int \<times> 'w"
  os_connect :: "int \<Rightarrow> nat \<Rightarrow> 'w \<Rightarrow> int \<times> 'w"
  os_bind :: "int \<Rightarrow> nat \<Rightarrow> 'w \<Rightarrow> int \<times> 'w"
  os_listen :: "int \<Rightarrow> 'w \<Rightarrow> int \<times> 'w"
  os_accept :: "int \<Rightarrow> 'w \<Rightarrow> int \<times> 'w"
  os_recv :: "int \<Rightarrow> nat \<Rightarrow> 'w \<Rightarrow> (int \<times> byte list) \<times> 'w"
  os_send :: "int \<Rightarrow> byte list \<Rightarrow> 'w \<Rightarrow> int \<times> 'w"

definition ENOENT :: int where "ENOENT = 2"
definition ENXIO :: int where "ENXIO = 6"
definition EAGAIN :: int where "EAGAIN = 11"

section \<open>State\<close>

text \<open>
  The header that precedes every buffer handed out by \<open>pgm_malloc\<close>; \<open>producer_flag\<close> is a
  one-bit field of type \<open>char\<close>, which is signed on the platforms of the code (x86): it is \<open>0\<close> or \<open>-1\<close>.
\<close>

record pgm_memory_hdr =
  usersize :: size_t
  assigned_edge :: edge_t
  cookie :: "32 word"
  producer_flag :: "1 word"

text \<open>
  \<open>gIsGraphMaster\<close> is a thread-local variable, so it is indexed by the calling thread.
  \<open>mem_hdr a\<close> is the memory at address \<open>a\<close> read as a buffer header, \<open>mem_byte a\<close> the byte at \<open>a\<close>;
  the headers of distinct live blocks do not overlap, and \<open>Pgm_Memory\<close> shows that the bytes the
  code stores behind a header do not either.
\<close>

record 'w pgm_state =
  gMemName :: string
  gIsGraphMaster :: "pid_t \<Rightarrow> bool"
  gGraphSharedMem :: bool
  gGraphs :: "(nat \<Rightarrow> pgm_graph) option"
  gGraphPath :: string
  mem_hdr :: "addr \<Rightarrow> pgm_memory_hdr"
  mem_byte :: "addr \<Rightarrow> byte"
  world :: 'w

text \<open>A call into the system.\<close>

definition sys :: "('w \<Rightarrow> 'a \<times> 'w) \<Rightarrow> 'w pgm_state \<Rightarrow> 'a \<times> 'w pgm_state" where
  "sys call s = (let (r, w) = call (world s) in (r, s\<lparr>world := w\<rparr>))"

section \<open>Validity tests and access paths\<close>

definition is_valid_handle :: "graph_t \<Rightarrow> bool" where
  "is_valid_handle graph \<longleftrightarrow> 0 \<le> graph \<and> graph \<le> int PGM_MAX_GRAPHS"

text \<open>The test reads \<open>gGraphs[graph]\<close>, which is outside the array for the handle 128.\<close>

definition is_valid_graph :: "'w pgm_state \<Rightarrow> graph_t \<Rightarrow> bool option" where
  "is_valid_graph s graph =
     (case gGraphs s of
        None \<Rightarrow> Some False
      | Some gs \<Rightarrow>
          if \<not> is_valid_handle graph then Some False
          else if int PGM_MAX_GRAPHS \<le> graph then None
          else Some (in_use (gs (nat graph))))"

definition graph_of :: "'w pgm_state \<Rightarrow> graph_t \<Rightarrow> pgm_graph" where
  "graph_of s graph = (case gGraphs s of None \<Rightarrow> zero_graph | Some gs \<Rightarrow> gs (nat graph))"

definition set_graph :: "graph_t \<Rightarrow> pgm_graph \<Rightarrow> 'w pgm_state \<Rightarrow> 'w pgm_state" where
  "set_graph graph g s = s\<lparr>gGraphs := map_option (\<lambda>gs. gs(nat graph := g)) (gGraphs s)\<rparr>"

text \<open>
  The common frame of the entry points: stop at an invalid graph with the result \<open>bad\<close>, otherwise
  go on with the graph.
\<close>

definition with_graph :: "'w pgm_state \<Rightarrow> graph_t \<Rightarrow> 'r \<Rightarrow> (pgm_graph \<Rightarrow> 'r option) \<Rightarrow> 'r option" where
  "with_graph s graph bad k =
     (case is_valid_graph s graph of
        None \<Rightarrow> None
      | Some ok \<Rightarrow> if ok then k (graph_of s graph) else Some bad)"

text \<open>An unchecked index of a handle into the arrays of a graph.\<close>

definition in_nodes :: "int \<Rightarrow> bool" where
  "in_nodes i \<longleftrightarrow> 0 \<le> i \<and> i < int PGM_MAX_NODES"

definition in_edges :: "int \<Rightarrow> bool" where
  "in_edges i \<longleftrightarrow> 0 \<le> i \<and> i < int PGM_MAX_EDGES"

definition with_node :: "pgm_graph \<Rightarrow> int \<Rightarrow> (pgm_node \<Rightarrow> 'r option) \<Rightarrow> 'r option" where
  "with_node g i k = (if in_nodes i then k (nodes g (nat i)) else None)"

definition with_edge :: "pgm_graph \<Rightarrow> int \<Rightarrow> (pgm_edge \<Rightarrow> 'r option) \<Rightarrow> 'r option" where
  "with_edge g i k = (if in_edges i then k (edges g (nat i)) else None)"

section \<open>Lemmas\<close>

text \<open>A handle that passes the test and does not leave the array.\<close>

definition live_graph :: "'w pgm_state \<Rightarrow> graph_t \<Rightarrow> bool" where
  "live_graph s graph \<longleftrightarrow> is_valid_graph s graph = Some True"

lemma live_graphD:
  assumes "live_graph s graph"
  obtains gs where "gGraphs s = Some gs" and "0 \<le> graph" and "nat graph < PGM_MAX_GRAPHS"
    and "graph_of s graph = gs (nat graph)" and "in_use (gs (nat graph))"
  using assms
  by (auto simp: live_graph_def is_valid_graph_def is_valid_handle_def graph_of_def
      split: option.splits if_splits)

lemma with_graph_live [simp]: "live_graph s graph \<Longrightarrow> with_graph s graph bad k = k (graph_of s graph)"
  by (simp add: live_graph_def with_graph_def)

lemma with_graph_Some:
  "with_graph s graph bad k = Some r \<Longrightarrow> r \<noteq> bad \<Longrightarrow> live_graph s graph \<and> k (graph_of s graph) = Some r"
  by (auto simp: with_graph_def live_graph_def split: option.splits if_splits)

lemma graph_of_set_graph [simp]:
  "live_graph s graph \<Longrightarrow> graph_of (set_graph graph g s) graph = g"
  by (erule live_graphD) (simp add: graph_of_def set_graph_def)

lemma graph_of_set_graph_other:
  "nat graph \<noteq> nat other \<Longrightarrow> graph_of (set_graph graph g s) other = graph_of s other"
  by (simp add: graph_of_def set_graph_def split: option.splits)

lemma set_graph_fields [simp]:
  "gIsGraphMaster (set_graph graph g s) = gIsGraphMaster s" "world (set_graph graph g s) = world s"
  "gGraphPath (set_graph graph g s) = gGraphPath s" "mem_hdr (set_graph graph g s) = mem_hdr s"
  "mem_byte (set_graph graph g s) = mem_byte s" "gGraphSharedMem (set_graph graph g s) = gGraphSharedMem s"
  by (simp_all add: set_graph_def)

lemma live_graph_set_graph [simp]:
  "live_graph s graph \<Longrightarrow> live_graph (set_graph graph g s) graph = in_use g"
  by (erule live_graphD)
    (auto simp: live_graph_def is_valid_graph_def is_valid_handle_def set_graph_def PGM_MAX_GRAPHS_def)

section \<open>A concrete system for examples\<close>

text \<open>
  A system in which every call succeeds; its world is the next free address of a bump allocator.
\<close>

definition sample_os :: "addr os" where
  "sample_os = \<lparr>os_errno = (\<lambda>_. 0), os_malloc = (\<lambda>n w. (w, w + n)), os_calloc = (\<lambda>n w. (w, w + n)),
     os_free = (\<lambda>_ w. w), os_hash = (\<lambda>_. 0), os_exists = (\<lambda>_ _. True), os_remove = (\<lambda>_ w. (True, w)),
     os_mkfifo = (\<lambda>_ w. (0, w)), os_open = (\<lambda>_ _ w. (3, w)), os_close = (\<lambda>_ w. (0, w)),
     os_read = (\<lambda>_ n w. ((int n, replicate n 0), w)), os_write = (\<lambda>_ bs w. (int (length bs), w)),
     os_time = (\<lambda>_. 0), os_usleep = (\<lambda>_ w. w), os_mq_unlink = (\<lambda>_ w. (0, w)),
     os_mq_open = (\<lambda>_ _ _ _ w. (3, w)), os_mq_close = (\<lambda>_ w. (0, w)),
     os_mq_receive = (\<lambda>_ n w. ((int n, replicate n 0), w)), os_mq_send = (\<lambda>_ _ w. (0, w)),
     os_getaddrinfo = (\<lambda>_ _ _ w. ((0, [0]), w)), os_socket = (\<lambda>_ w. (3, w)), os_connect = (\<lambda>_ _ w. (0, w)),
     os_bind = (\<lambda>_ _ w. (0, w)), os_listen = (\<lambda>_ w. (0, w)), os_accept = (\<lambda>_ w. (4, w)),
     os_recv = (\<lambda>_ n w. ((int n, replicate n 0), w)), os_send = (\<lambda>_ bs w. (int (length bs), w))\<rparr>"

text \<open>A process whose thread 1 is the graph master, with no graph yet.\<close>

definition sample_state :: "addr pgm_state" where
  "sample_state = \<lparr>gMemName = [], gIsGraphMaster = (\<lambda>t. t = 1), gGraphSharedMem = False,
     gGraphs = Some (\<lambda>_. zero_graph), gGraphPath = ''/tmp/g'',
     mem_hdr = (\<lambda>_. \<lparr>usersize = 0, assigned_edge = \<lparr>egraph = 0, eedge = 0\<rparr>, cookie = 0, producer_flag = 0\<rparr>),
     mem_byte = (\<lambda>_. 0), world = 4096\<rparr>"

text \<open>A system in which nothing works, and a state without graphs: the start of the examples.\<close>

definition dead_os :: "'w os" where
  "dead_os = \<lparr>os_errno = (\<lambda>_. EAGAIN), os_malloc = (\<lambda>_ w. (0, w)), os_calloc = (\<lambda>_ w. (0, w)),
     os_free = (\<lambda>_ w. w), os_hash = (\<lambda>_. 0), os_exists = (\<lambda>_ _. False), os_remove = (\<lambda>_ w. (False, w)),
     os_mkfifo = (\<lambda>_ w. (-1, w)), os_open = (\<lambda>_ _ w. (-1, w)), os_close = (\<lambda>_ w. (-1, w)),
     os_read = (\<lambda>_ _ w. ((-1, []), w)), os_write = (\<lambda>_ _ w. (-1, w)),
     os_time = (\<lambda>_. 0), os_usleep = (\<lambda>_ w. w), os_mq_unlink = (\<lambda>_ w. (-1, w)),
     os_mq_open = (\<lambda>_ _ _ _ w. (-1, w)), os_mq_close = (\<lambda>_ w. (-1, w)),
     os_mq_receive = (\<lambda>_ _ w. ((-1, []), w)), os_mq_send = (\<lambda>_ _ w. (-1, w)),
     os_getaddrinfo = (\<lambda>_ _ _ w. ((-1, []), w)), os_socket = (\<lambda>_ w. (-1, w)), os_connect = (\<lambda>_ _ w. (-1, w)),
     os_bind = (\<lambda>_ _ w. (-1, w)), os_listen = (\<lambda>_ w. (-1, w)), os_accept = (\<lambda>_ w. (-1, w)),
     os_recv = (\<lambda>_ _ w. ((-1, []), w)), os_send = (\<lambda>_ _ w. (-1, w))\<rparr>"

definition world_state :: "'w \<Rightarrow> 'w pgm_state" where
  "world_state w = \<lparr>gMemName = [], gIsGraphMaster = (\<lambda>t. t = 1), gGraphSharedMem = False,
     gGraphs = Some (\<lambda>_. zero_graph), gGraphPath = ''/tmp/g'',
     mem_hdr = (\<lambda>_. \<lparr>usersize = 0, assigned_edge = BAD_EDGE, cookie = 0, producer_flag = 0\<rparr>),
     mem_byte = (\<lambda>_. 0), world = w\<rparr>"

end
