(* ===== verification/Pgm_Memory.thy ===== *)
theory Pgm_Memory
  imports Pgm_State
begin

unbundle bit_operations_syntax

text \<open>
  The buffers of data-passing edges (the memory management routines of \<^verbatim>\<open>src/src/pgm.cpp\<close>): a
  block obtained from \<open>malloc\<close> holds a header, padding, one byte with the offset of the user
  pointer, one byte for the transmission tag, and the 16-byte aligned user data.

  Shown here: the layout stays inside the block for every address \<open>malloc\<close> may return and the header
  is recovered from the user pointer; and the bookkeeping between edges and headers (\<open>bufs_inv\<close>: every
  buffer installed in an edge has a header that names this end of this edge) survives the swap
  operations, which exchange exactly the two buffers.
\<close>

section \<open>Operations\<close>

definition PGM_COOKIE :: "32 word" where "PGM_COOKIE = 0x00100100"

text \<open>\<open>sizeof(pgm_memory_hdr_t)\<close>: 21 bytes of fields, 8-byte aligned.\<close>

definition sizeof_hdr :: size_t where "sizeof_hdr = 24"
definition PGM_USERMEM_PADDING :: size_t where "PGM_USERMEM_PADDING = 15"
definition PGM_USERMEM_EXTRA :: size_t where "PGM_USERMEM_EXTRA = sizeof_hdr + 1 + PGM_USERMEM_PADDING"
definition PGM_TRANSMISSION_TAGS :: size_t where "PGM_TRANSMISSION_TAGS = 1"

lemmas usermem_defs = sizeof_hdr_def PGM_USERMEM_PADDING_def PGM_USERMEM_EXTRA_def
  PGM_TRANSMISSION_TAGS_def

definition pgm_get_mem_header :: "'w pgm_state \<Rightarrow> addr \<Rightarrow> addr" where
  "pgm_get_mem_header s userptr =
     (let off = ucast (mem_byte s (userptr - 2)) :: size_t in
      if off > PGM_USERMEM_EXTRA then 0 else userptr - off)"

definition pgm_get_mem_header_safe :: "'w pgm_state \<Rightarrow> addr \<Rightarrow> addr" where
  "pgm_get_mem_header_safe s userptr =
     (let ptr = pgm_get_mem_header s userptr in
      if ptr = 0 \<or> cookie (mem_hdr s ptr) \<noteq> PGM_COOKIE then 0 else ptr)"

definition pgm_get_user_ptr :: "addr \<Rightarrow> addr" where
  "pgm_get_user_ptr mem = (mem + PGM_USERMEM_EXTRA) AND NOT PGM_USERMEM_PADDING"

definition hdr_is_bad :: "pgm_memory_hdr \<Rightarrow> bool" where
  "hdr_is_bad h \<longleftrightarrow> egraph (assigned_edge h) = egraph BAD_EDGE \<and> eedge (assigned_edge h) = eedge BAD_EDGE"

definition is_producer_buf :: "'w pgm_state \<Rightarrow> addr \<Rightarrow> bool" where
  "is_producer_buf s userptr =
     (let ptr = pgm_get_mem_header_safe s userptr in
      ptr \<noteq> 0 \<and> \<not> hdr_is_bad (mem_hdr s ptr) \<and> sint (producer_flag (mem_hdr s ptr)) = 1)"

definition is_consumer_buf :: "'w pgm_state \<Rightarrow> addr \<Rightarrow> bool" where
  "is_consumer_buf s userptr =
     (let ptr = pgm_get_mem_header_safe s userptr in
      ptr \<noteq> 0 \<and> \<not> hdr_is_bad (mem_hdr s ptr) \<and> sint (producer_flag (mem_hdr s ptr)) = 0)"

text \<open>\<open>is_buf_assigned\<close> with its out parameter: the edge is returned when there is one.\<close>

definition is_buf_assigned :: "'w pgm_state \<Rightarrow> addr \<Rightarrow> edge_t option" where
  "is_buf_assigned s userptr =
     (let ptr = pgm_get_mem_header_safe s userptr in
      if ptr = 0 then None
      else if hdr_is_bad (mem_hdr s ptr) then None
      else Some (assigned_edge (mem_hdr s ptr)))"

definition upd_hdr :: "addr \<Rightarrow> (pgm_memory_hdr \<Rightarrow> pgm_memory_hdr) \<Rightarrow> 'w pgm_state \<Rightarrow> 'w pgm_state" where
  "upd_hdr p f s = s\<lparr>mem_hdr := (mem_hdr s)(p := f (mem_hdr s p))\<rparr>"

definition pgm_malloc :: "'w os \<Rightarrow> size_t \<Rightarrow> 'w pgm_state \<Rightarrow> addr \<times> 'w pgm_state" where
  "pgm_malloc os nbytes s =
     (let (buf, w) = os_malloc os (nbytes + PGM_TRANSMISSION_TAGS + PGM_USERMEM_EXTRA) (world s);
          s = s\<lparr>world := w\<rparr>
      in if buf = 0 then (0, s)
         else
           let s = upd_hdr buf (\<lambda>h. h\<lparr>usersize := nbytes, assigned_edge := BAD_EDGE,
                                       cookie := PGM_COOKIE\<rparr>) s;
               ptr = pgm_get_user_ptr buf
           in (ptr, s\<lparr>mem_byte := (mem_byte s)(ptr - 2 := ucast (ptr - buf))\<rparr>))"

definition pgm_free :: "'w os \<Rightarrow> addr \<Rightarrow> 'w pgm_state \<Rightarrow> 'w pgm_state" where
  "pgm_free os userptr s =
     (if userptr = 0 then s
      else let hdr = pgm_get_mem_header_safe s userptr in
        if hdr = 0 then s else s\<lparr>world := os_free os hdr (world s)\<rparr>)"

text \<open>\<open>__pgm_malloc_edge_buf\<close>: \<open>graph\<close> and \<open>i\<close> are \<open>g - gGraphs\<close> and \<open>e - g->edges\<close>.\<close>

definition malloc_edge_buf ::
  "'w os \<Rightarrow> graph_t \<Rightarrow> nat \<Rightarrow> pgm_edge \<Rightarrow> bool \<Rightarrow> 'w pgm_state \<Rightarrow> addr \<times> 'w pgm_state"
where
  "malloc_edge_buf os graph i e is_producer s =
     (let usernbytes = (if is_producer then nr_produce (e_attr e) else nr_consume (e_attr e));
          (uptr, s) = pgm_malloc os usernbytes s
      in if uptr = 0 then (0, s)
         else let mem = pgm_get_mem_header s uptr in
           (mem, upd_hdr mem (\<lambda>h. h\<lparr>assigned_edge := \<lparr>egraph = graph, eedge = int i\<rparr>,
                                     producer_flag := of_bool is_producer\<rparr>) s))"

definition pgm_malloc_edge_buf_p :: "'w os \<Rightarrow> edge_t \<Rightarrow> 'w pgm_state \<Rightarrow> (addr \<times> 'w pgm_state) option" where
  "pgm_malloc_edge_buf_p os edge s =
     with_graph s (egraph edge) (0, s) (\<lambda>g. with_edge g (eedge edge)
       (\<lambda>e. Some (pgm_malloc os (nr_produce (e_attr e)) s)))"

definition pgm_malloc_edge_buf_c :: "'w os \<Rightarrow> edge_t \<Rightarrow> 'w pgm_state \<Rightarrow> (addr \<times> 'w pgm_state) option" where
  "pgm_malloc_edge_buf_c os edge s =
     with_graph s (egraph edge) (0, s) (\<lambda>g. with_edge g (eedge edge)
       (\<lambda>e. Some (pgm_malloc os (nr_consume (e_attr e)) s)))"

definition pgm_get_edge_buf_p :: "'w pgm_state \<Rightarrow> edge_t \<Rightarrow> addr option" where
  "pgm_get_edge_buf_p s edge =
     with_graph s (egraph edge) 0 (\<lambda>g. with_edge g (eedge edge) (\<lambda>e.
       if \<not> is_data_passing (e_attr e) then Some 0 else Some (pgm_get_user_ptr (e_buf_out e))))"

definition pgm_get_edge_buf_c :: "'w pgm_state \<Rightarrow> edge_t \<Rightarrow> addr option" where
  "pgm_get_edge_buf_c s edge =
     with_graph s (egraph edge) 0 (\<lambda>g. with_edge g (eedge edge) (\<lambda>e.
       if \<not> is_data_passing (e_attr e) then Some 0 else Some (pgm_get_user_ptr (e_buf_in e))))"

definition pgm_get_edge_from_buf :: "'w pgm_state \<Rightarrow> addr \<Rightarrow> edge_t" where
  "pgm_get_edge_from_buf s uptr = (case is_buf_assigned s uptr of Some e \<Rightarrow> e | None \<Rightarrow> BAD_EDGE)"

definition pgm_is_buf_in_use :: "'w pgm_state \<Rightarrow> addr \<Rightarrow> bool" where
  "pgm_is_buf_in_use s uptr \<longleftrightarrow> is_buf_assigned s uptr \<noteq> None"

text \<open>The slot of an edge that the code selects by the address of \<open>buf_out\<close> or \<open>buf_in\<close>.\<close>

definition end_buf :: "bool \<Rightarrow> pgm_edge \<Rightarrow> addr" where
  "end_buf pf e = (if pf then e_buf_out e else e_buf_in e)"

definition set_end_buf :: "bool \<Rightarrow> addr \<Rightarrow> pgm_edge \<Rightarrow> pgm_edge" where
  "set_end_buf pf p e = (if pf then e\<lparr>e_buf_out := p\<rparr> else e\<lparr>e_buf_in := p\<rparr>)"

definition set_edge :: "edge_t \<Rightarrow> (pgm_edge \<Rightarrow> pgm_edge) \<Rightarrow> 'w pgm_state \<Rightarrow> 'w pgm_state" where
  "set_edge edge f s = set_graph (egraph edge) (upd_edge (nat (eedge edge)) f (graph_of s (egraph edge))) s"

text \<open>
  \<open>__pgm_swap_edge_buf\<close>.  The old header is dereferenced unchecked: an edge without a buffer is
  undefined behaviour.
\<close>

definition swap_edge_buf :: "edge_t \<Rightarrow> addr \<Rightarrow> bool \<Rightarrow> 'w pgm_state \<Rightarrow> (addr \<times> 'w pgm_state) option" where
  "swap_edge_buf edge new_uptr swap_producer s =
     (if new_uptr = 0 then Some (0, s)
      else with_graph s (egraph edge) (0, s) (\<lambda>g. with_edge g (eedge edge) (\<lambda>e.
        if \<not> is_data_passing (e_attr e) then Some (0, s)
        else let hdr = pgm_get_mem_header_safe s new_uptr in
          if hdr = 0 then Some (0, s)
          else if egraph (assigned_edge (mem_hdr s hdr)) \<noteq> egraph BAD_EDGE \<and>
                  eedge (assigned_edge (mem_hdr s hdr)) \<noteq> eedge BAD_EDGE then Some (0, s)
          else let old_hdr = end_buf swap_producer e in
            if old_hdr = 0 then None
            else if usersize (mem_hdr s hdr) \<noteq> usersize (mem_hdr s old_hdr) then Some (0, s)
            else
              let s = upd_hdr hdr (\<lambda>h. h\<lparr>assigned_edge := edge,
                         producer_flag := producer_flag (mem_hdr s old_hdr)\<rparr>) s;
                  s = upd_hdr old_hdr (\<lambda>h. h\<lparr>assigned_edge := BAD_EDGE\<rparr>) s;
                  s = set_edge edge (set_end_buf swap_producer hdr) s
              in Some (pgm_get_user_ptr old_hdr, s))))"

definition pgm_swap_edge_buf_p :: "edge_t \<Rightarrow> addr \<Rightarrow> 'w pgm_state \<Rightarrow> (addr \<times> 'w pgm_state) option" where
  "pgm_swap_edge_buf_p edge new_uptr s = swap_edge_buf edge new_uptr True s"

definition pgm_swap_edge_buf_c :: "edge_t \<Rightarrow> addr \<Rightarrow> 'w pgm_state \<Rightarrow> (addr \<times> 'w pgm_state) option" where
  "pgm_swap_edge_buf_c edge new_uptr s = swap_edge_buf edge new_uptr False s"

text \<open>
  The edges named by the two headers are looked up unchecked, so a header with indices outside the
  arrays is undefined behaviour.
\<close>

definition edge_at :: "'w pgm_state \<Rightarrow> edge_t \<Rightarrow> pgm_edge option" where
  "edge_at s edge =
     (if gGraphs s = None \<or> \<not> (0 \<le> egraph edge \<and> egraph edge < int PGM_MAX_GRAPHS) then None
      else with_edge (graph_of s (egraph edge)) (eedge edge) Some)"

definition pgm_swap_edge_bufs :: "addr \<Rightarrow> addr \<Rightarrow> 'w pgm_state \<Rightarrow> (int \<times> 'w pgm_state) option" where
  "pgm_swap_edge_bufs a b s =
     (if a = 0 \<or> b = 0 \<or> a = b then Some (-1, s)
      else case (is_buf_assigned s a, is_buf_assigned s b) of
        (Some edgea, Some edgeb) \<Rightarrow>
          let hdra = pgm_get_mem_header s a; hdrb = pgm_get_mem_header s b in
          if usersize (mem_hdr s hdra) \<noteq> usersize (mem_hdr s hdrb) then Some (-1, s)
          else (case (edge_at s edgea, edge_at s edgeb) of
            (Some ea, Some eb) \<Rightarrow>
              let fa = producer_flag (mem_hdr s hdra); fb = producer_flag (mem_hdr s hdrb);
                  tempbuf = end_buf (fa \<noteq> 0) ea;
                  s = set_edge edgea (set_end_buf (fa \<noteq> 0) (end_buf (fb \<noteq> 0) eb)) s;
                  s = set_edge edgeb (set_end_buf (fb \<noteq> 0) tempbuf) s;
                  s = upd_hdr hdra (\<lambda>h. h\<lparr>assigned_edge := edgeb\<rparr>) s;
                  s = upd_hdr hdrb (\<lambda>h. h\<lparr>assigned_edge := edgea\<rparr>) s;
                  s = upd_hdr hdra (\<lambda>h. h\<lparr>producer_flag := fb\<rparr>) s;
                  s = upd_hdr hdrb (\<lambda>h. h\<lparr>producer_flag := fa\<rparr>) s
              in Some (0, s)
          | _ \<Rightarrow> None)
      | _ \<Rightarrow> Some (-1, s))"

section \<open>Layout\<close>

lemma unat_and_not_15: "unat ((x :: 64 word) AND NOT 15) = unat x div 16 * 16"
proof -
  have "x AND NOT (mask 4) = push_bit 4 (drop_bit 4 x)"
    by (rule bit_eqI) (auto simp: bit_simps)
  then have "x AND NOT 15 = x - take_bit 4 x"
    using bits_ident [of 4 x] by (simp add: mask_eq_exp_minus_1 eq_diff_eq)
  moreover have t: "unat (take_bit 4 x) = unat x mod 16"
    by (simp add: take_bit_eq_mod unat_mod_distrib)
  moreover have "take_bit 4 x \<le> x"
    unfolding word_le_nat_alt t by simp
  ultimately have "unat (x AND NOT 15) = unat x - unat x mod 16"
    by (simp add: unat_sub)
  then show ?thesis by (simp add: minus_mod_eq_div_mult)
qed

text \<open>
  The user pointer of a block at any address: aligned, between 25 and 40 bytes behind the start of
  the block, so that the offset byte and the tag byte come after the 21 bytes of header fields.
\<close>

lemma user_ptr_layout:
  assumes "unat blk + 40 < 2 ^ 64"
  defines "u \<equiv> pgm_get_user_ptr blk"
  shows "16 dvd unat u" and "unat u = unat blk + unat (u - blk)"
    and "25 \<le> unat (u - blk)" and "unat (u - blk) \<le> 40"
proof -
  have s: "unat (blk + 40) = unat blk + 40"
    using assms(1) by (simp add: unat_word_ariths)
  have u: "unat u = (unat blk + 40) div 16 * 16"
    unfolding u_def pgm_get_user_ptr_def usermem_defs using s unat_and_not_15 [of "blk + 40"] by simp
  then show "16 dvd unat u" by simp
  have b: "unat blk + 25 \<le> unat u" "unat u \<le> unat blk + 40"
    unfolding u by presburger+
  then have "blk \<le> u" by (simp add: word_le_nat_alt)
  then have d: "unat (u - blk) = unat u - unat blk" by (simp add: unat_sub)
  show "unat u = unat blk + unat (u - blk)" "25 \<le> unat (u - blk)" "unat (u - blk) \<le> 40"
    using b d by linarith+
qed

lemma offset_byte_roundtrip:
  assumes "unat (x :: 64 word) \<le> 40"
  shows "ucast (ucast x :: byte) = x"
proof -
  have "unat (ucast x :: byte) = unat x"
    using assms by (simp add: unsigned_ucast_eq take_bit_nat_eq_self)
  moreover have "take_bit 8 x = x"
    using assms by (simp add: take_bit_eq_mod word_unat_eq_iff unat_mod_distrib)
  ultimately show ?thesis
    by (simp add: word_unat_eq_iff unsigned_ucast_eq take_bit_nat_eq_self)
qed

text \<open>The header is found again from the user pointer while the offset byte is intact.\<close>

definition offset_intact :: "'w pgm_state \<Rightarrow> addr \<Rightarrow> bool" where
  "offset_intact s blk \<longleftrightarrow> unat blk + 40 < 2 ^ 64 \<and>
     mem_byte s (pgm_get_user_ptr blk - 2) = ucast (pgm_get_user_ptr blk - blk)"

lemma get_mem_header_user_ptr:
  assumes "offset_intact s blk"
  shows "pgm_get_mem_header s (pgm_get_user_ptr blk) = blk"
proof -
  have l: "unat (pgm_get_user_ptr blk - blk) \<le> 40"
    using assms user_ptr_layout(4) by (simp add: offset_intact_def)
  then have "\<not> pgm_get_user_ptr blk - blk > 40" by (simp add: word_less_nat_alt)
  then show ?thesis
    using assms offset_byte_roundtrip [OF l]
    by (simp add: pgm_get_mem_header_def offset_intact_def usermem_defs)
qed

lemma upd_hdr_fields [simp]:
  "mem_hdr (upd_hdr p f s) = (mem_hdr s)(p := f (mem_hdr s p))" "mem_byte (upd_hdr p f s) = mem_byte s"
  "gGraphs (upd_hdr p f s) = gGraphs s" "world (upd_hdr p f s) = world s"
  "pgm_get_mem_header (upd_hdr p f s) u = pgm_get_mem_header s u"
  "offset_intact (upd_hdr p f s) b = offset_intact s b"
  by (simp_all add: upd_hdr_def pgm_get_mem_header_def offset_intact_def)

text \<open>
  C24: whatever address \<open>malloc\<close> returns, a buffer of \<open>pgm_malloc\<close> is 16-byte aligned, its offset byte
  and tag byte lie behind the header fields, its \<open>nbytes\<close> of user data end inside the block, and the
  header found from the user pointer is the one at the start of the block: it has the requested size,
  is valid, and is assigned to no edge.
\<close>

theorem pgm_malloc_layout:
  assumes "os_malloc os (nbytes + 41) (world s) = (blk, w)" and "blk \<noteq> 0"
    and "unat blk + unat nbytes + 41 < 2 ^ 64"
    and "pgm_malloc os nbytes s = (u, s')"
  shows "16 dvd unat u \<and> unat blk + 21 \<le> unat (u - 2) \<and>
    unat u + unat nbytes \<le> unat blk + unat (nbytes + 41) \<and>
    pgm_get_mem_header_safe s' u = blk \<and> usersize (mem_hdr s' blk) = nbytes \<and>
    \<not> pgm_is_buf_in_use s' u"
proof -
  let ?u = "pgm_get_user_ptr blk"
  have lt: "unat blk + 40 < 2 ^ 64" using assms(3) by simp
  note l = user_ptr_layout [OF lt]
  have s': "u = ?u" "s' = (upd_hdr blk (\<lambda>h. h\<lparr>usersize := nbytes, assigned_edge := BAD_EDGE,
      cookie := PGM_COOKIE\<rparr>) (s\<lparr>world := w\<rparr>))\<lparr>mem_byte := (mem_byte s)(?u - 2 := ucast (?u - blk))\<rparr>"
    using assms(1,2,4) by (auto simp: pgm_malloc_def usermem_defs Let_def add.assoc)
  have "offset_intact s' blk" using lt by (simp add: offset_intact_def s')
  then have h: "pgm_get_mem_header s' u = blk" by (simp add: s'(1) get_mem_header_user_ptr)
  have m: "mem_hdr s' blk = (mem_hdr s blk)\<lparr>usersize := nbytes, assigned_edge := BAD_EDGE,
      cookie := PGM_COOKIE\<rparr>"
    by (simp add: s'(2) upd_hdr_def)
  have safe: "pgm_get_mem_header_safe s' u = blk"
    using assms(2) by (simp add: pgm_get_mem_header_safe_def h m)
  moreover have "\<not> pgm_is_buf_in_use s' u"
    by (simp add: pgm_is_buf_in_use_def is_buf_assigned_def safe m hdr_is_bad_def BAD_EDGE_def)
  moreover have "unat (u - 2) = unat u - 2"
  proof -
    have "2 \<le> unat u" unfolding s'(1) using l(2,3) by linarith
    then show ?thesis by (simp add: unat_sub word_le_nat_alt)
  qed
  moreover have "unat (nbytes + 41) = unat nbytes + 41"
    using assms(3) by (simp add: unat_word_ariths)
  moreover have "usersize (mem_hdr s' blk) = nbytes" by (simp add: m)
  moreover have "unat blk + 21 \<le> unat u - 2" "unat u \<le> unat blk + 40" "16 dvd unat u"
    unfolding s'(1) using l by linarith+
  ultimately show ?thesis
    by (intro conjI) simp_all
qed

theorem pgm_malloc_layout_witness:
  "let (u, s') = pgm_malloc sample_os 100 sample_state in
    16 dvd unat u \<and> unat (4096 :: size_t) + 21 \<le> unat (u - 2) \<and>
    unat u + unat (100 :: size_t) \<le> unat (4096 :: size_t) + unat (100 + 41 :: size_t) \<and>
    pgm_get_mem_header_safe s' u = 4096 \<and> usersize (mem_hdr s' 4096) = 100 \<and>
    \<not> pgm_is_buf_in_use s' u"
  unfolding Let_def split_beta
  by (rule pgm_malloc_layout [of sample_os _ _ _ "4096 + 141"])
    (simp_all add: sample_os_def sample_state_def)

section \<open>Edges and their buffers\<close>

text \<open>The buffer installed at the producer or the consumer end of an edge.\<close>

definition end_at :: "'w pgm_state \<Rightarrow> edge_t \<Rightarrow> bool \<Rightarrow> addr option" where
  "end_at s edge pf = map_option (end_buf pf) (edge_at s edge)"

text \<open>A header that names an end of an edge.\<close>

definition hdr_names :: "'w pgm_state \<Rightarrow> addr \<Rightarrow> edge_t \<Rightarrow> bool \<Rightarrow> bool" where
  "hdr_names s p edge pf \<longleftrightarrow> cookie (mem_hdr s p) = PGM_COOKIE \<and> assigned_edge (mem_hdr s p) = edge \<and>
     (producer_flag (mem_hdr s p) \<noteq> 0) = pf \<and> offset_intact s p"

definition bufs_inv :: "'w pgm_state \<Rightarrow> bool" where
  "bufs_inv s \<longleftrightarrow> (\<forall>edge pf p. end_at s edge pf = Some p \<and> p \<noteq> 0 \<longrightarrow> hdr_names s p edge pf)"

lemma end_buf_set_end_buf [simp]:
  "end_buf pf' (set_end_buf pf p e) = (if pf' = pf then p else end_buf pf' e)"
  by (simp add: end_buf_def set_end_buf_def)

lemma edge_atD:
  assumes "edge_at s edge = Some e"
  shows "0 \<le> egraph edge" and "0 \<le> eedge edge" and "\<not> hdr_is_bad (h\<lparr>assigned_edge := edge\<rparr>)"
    and "edge \<noteq> BAD_EDGE" and "e = edges (graph_of s (egraph edge)) (nat (eedge edge))"
  using assms
  by (auto simp: edge_at_def with_edge_def in_edges_def hdr_is_bad_def BAD_EDGE_def split: if_splits)

lemma nat_eq_cases: "0 \<le> x \<Longrightarrow> 0 \<le> y \<Longrightarrow> nat x = nat y \<longleftrightarrow> x = y"
  by auto

lemma edge_t_eq_iff: "e = e' \<longleftrightarrow> egraph e = egraph e' \<and> eedge e = eedge e'" for e e' :: edge_t
  by (metis edge_t.equality old.unit.exhaust)

lemma edge_at_Some:
  "edge_at s edge = Some e \<longleftrightarrow> (\<exists>gs. gGraphs s = Some gs \<and> 0 \<le> egraph edge \<and>
     egraph edge < int PGM_MAX_GRAPHS \<and> in_edges (eedge edge) \<and>
     e = edges (gs (nat (egraph edge))) (nat (eedge edge)))"
  by (auto simp: edge_at_def with_edge_def graph_of_def)

lemma edge_at_set_edge:
  assumes "edge_at s edge = Some e"
  shows "edge_at (set_edge edge f s) edge' = (if edge' = edge then Some (f e) else edge_at s edge')"
proof -
  obtain gs where gs: "gGraphs s = Some gs" "0 \<le> egraph edge" "0 \<le> eedge edge"
    "e = edges (gs (nat (egraph edge))) (nat (eedge edge))"
    using assms by (auto simp: edge_at_Some in_edges_def)
  define gs' where "gs' = gs(nat (egraph edge) :=
    upd_edge (nat (eedge edge)) f (gs (nat (egraph edge))))"
  have s': "gGraphs (set_edge edge f s) = Some gs'"
    by (simp add: set_edge_def set_graph_def graph_of_def gs(1) gs'_def)
  show ?thesis
  proof (cases "edge' = edge")
    case True
    then show ?thesis using assms s' gs by (simp add: edge_at_Some gs'_def upd_edge_def)
  next
    case False
    have "edges (gs' (nat (egraph edge'))) (nat (eedge edge')) =
        edges (gs (nat (egraph edge'))) (nat (eedge edge'))"
      if "0 \<le> egraph edge'" "in_edges (eedge edge')"
      using False that gs(2,3)
      by (auto simp: gs'_def upd_edge_def edge_t_eq_iff in_edges_def nat_eq_cases)
    then show ?thesis
      using False s' gs(1) by (auto simp: edge_at_def with_edge_def graph_of_def)
  qed
qed

lemma if_swap:
  "a \<noteq> b \<Longrightarrow> (if x = b then p else if x = a then q else r) =
    (if x = a then q else if x = b then p else r)"
  by auto

lemma end_at_set_edge:
  assumes "edge_at s edge = Some e"
  shows "end_at (set_edge edge (set_end_buf pf p) s) edge' pf' =
    (if (edge', pf') = (edge, pf) then Some p else end_at s edge' pf')"
  using assms by (auto simp: end_at_def edge_at_set_edge)

lemma edge_at_upd_hdr [simp]: "edge_at (upd_hdr p f s) edge = edge_at s edge"
  by (simp add: edge_at_def graph_of_def)

lemma end_at_upd_hdr [simp]: "end_at (upd_hdr p f s) edge pf = end_at s edge pf"
  by (simp add: end_at_def)

lemma set_edge_fields [simp]:
  "mem_hdr (set_edge edge f s) = mem_hdr s" "mem_byte (set_edge edge f s) = mem_byte s"
  "offset_intact (set_edge edge f s) p = offset_intact s p"
  "pgm_get_mem_header (set_edge edge f s) u = pgm_get_mem_header s u"
  by (simp_all add: set_edge_def offset_intact_def pgm_get_mem_header_def)

lemma is_buf_assigned_end:
  assumes "bufs_inv s" and "end_at s edge pf = Some p" and "p \<noteq> 0"
  shows "is_buf_assigned s (pgm_get_user_ptr p) = Some edge"
    and "pgm_get_mem_header s (pgm_get_user_ptr p) = p" and "(producer_flag (mem_hdr s p) \<noteq> 0) = pf"
proof -
  have h: "hdr_names s p edge pf" using assms by (simp add: bufs_inv_def)
  then show g: "pgm_get_mem_header s (pgm_get_user_ptr p) = p"
    by (simp add: hdr_names_def get_mem_header_user_ptr)
  obtain e where "edge_at s edge = Some e" using assms(2) by (auto simp: end_at_def)
  from edge_atD(1) [OF this] show "is_buf_assigned s (pgm_get_user_ptr p) = Some edge"
    using h assms(3)
    by (simp add: is_buf_assigned_def pgm_get_mem_header_safe_def g hdr_names_def hdr_is_bad_def
        BAD_EDGE_def)
  show "(producer_flag (mem_hdr s p) \<noteq> 0) = pf" using h by (simp add: hdr_names_def)
qed

text \<open>Two ends never share a buffer.\<close>

lemma bufs_inv_inj:
  assumes "bufs_inv s" and "end_at s e1 p1 = Some p" and "end_at s e2 p2 = Some p" and "p \<noteq> 0"
  shows "(e1, p1) = (e2, p2)"
proof -
  have "hdr_names s p e1 p1" "hdr_names s p e2 p2" using assms by (simp_all add: bufs_inv_def)
  then show ?thesis by (simp add: hdr_names_def)
qed

lemma swapped_ends:
  assumes "edge_at s ea = Some e1" and "edge_at s eb = Some e2" and "(ea, fa) \<noteq> (eb, fb)"
  shows "end_at (set_edge eb (set_end_buf fb pa) (set_edge ea (set_end_buf fa pb) s)) e f =
    (if (e, f) = (ea, fa) then Some pb else if (e, f) = (eb, fb) then Some pa else end_at s e f)"
proof -
  let ?s1 = "set_edge ea (set_end_buf fa pb) s"
  have "edge_at ?s1 eb = (if eb = ea then Some (set_end_buf fa pb e1) else Some e2)"
    by (simp only: edge_at_set_edge [OF assms(1)] assms(2))
  then have "edge_at ?s1 eb = Some (if eb = ea then set_end_buf fa pb e1 else e2)"
    by (simp only: if_distrib [of Some])
  from end_at_set_edge [OF this]
  have "end_at (set_edge eb (set_end_buf fb pa) ?s1) e f = (if (e, f) = (eb, fb) then Some pa else end_at ?s1 e f)" .
  also have "end_at ?s1 e f = (if (e, f) = (ea, fa) then Some pb else end_at s e f)"
    by (rule end_at_set_edge [OF assms(1)])
  finally show ?thesis by (simp only: if_swap [OF assms(3)])
qed

text \<open>
  C23: exchanging the buffers of two ends of edges succeeds when their sizes agree; each buffer
  ends up installed at, and naming, the end the other one came from, every other end keeps its
  buffer, and the correspondence between edges and headers is preserved.
\<close>

theorem swap_edge_bufs_exchanges:
  assumes "bufs_inv s" and "end_at s ea fa = Some pa" and "end_at s eb fb = Some pb"
    and "pa \<noteq> 0" and "pb \<noteq> 0" and "(ea, fa) \<noteq> (eb, fb)"
    and "usersize (mem_hdr s pa) = usersize (mem_hdr s pb)"
    and "pgm_get_user_ptr pa \<noteq> 0" and "pgm_get_user_ptr pb \<noteq> 0"
  shows "\<exists>s'. pgm_swap_edge_bufs (pgm_get_user_ptr pa) (pgm_get_user_ptr pb) s = Some (0, s') \<and>
    bufs_inv s' \<and> (\<forall>e f. end_at s' e f = (if (e, f) = (ea, fa) then Some pb
      else if (e, f) = (eb, fb) then Some pa else end_at s e f))"
proof -
  note A = is_buf_assigned_end [OF assms(1,2,4)] and B = is_buf_assigned_end [OF assms(1,3,5)]
  have ne: "pa \<noteq> pb" using bufs_inv_inj [OF assms(1,2)] assms(3,4,6) by metis
  have ue: "pgm_get_user_ptr pa \<noteq> pgm_get_user_ptr pb" using ne A(2) B(2) by metis
  obtain e1 e2 where e: "edge_at s ea = Some e1" "edge_at s eb = Some e2"
    and bufs: "end_buf fa e1 = pa" "end_buf fb e2 = pb"
    using assms(2,3) by (auto simp: end_at_def)
  define s' where "s' = upd_hdr pb (\<lambda>h. h\<lparr>producer_flag := producer_flag (mem_hdr s pa)\<rparr>)
    (upd_hdr pa (\<lambda>h. h\<lparr>producer_flag := producer_flag (mem_hdr s pb)\<rparr>)
    (upd_hdr pb (\<lambda>h. h\<lparr>assigned_edge := ea\<rparr>) (upd_hdr pa (\<lambda>h. h\<lparr>assigned_edge := eb\<rparr>)
    (set_edge eb (set_end_buf fb pa) (set_edge ea (set_end_buf fa pb) s)))))"
  have run: "pgm_swap_edge_bufs (pgm_get_user_ptr pa) (pgm_get_user_ptr pb) s = Some (0, s')"
    using A B ue assms(7-9) e bufs by (simp add: pgm_swap_edge_bufs_def s'_def Let_def)
  have ends: "end_at s' e f = (if (e, f) = (ea, fa) then Some pb
      else if (e, f) = (eb, fb) then Some pa else end_at s e f)" for e f
    using swapped_ends [OF e assms(6)] by (simp only: s'_def end_at_upd_hdr)
  have names: "hdr_names s pa ea fa" "hdr_names s pb eb fb"
    using assms(1-5) by (simp_all add: bufs_inv_def)
  have "hdr_names s' p e f" if at: "end_at s' e f = Some p" and p0: "p \<noteq> 0" for p e f
  proof -
    consider "(e, f) = (ea, fa)" "p = pb" | "(e, f) = (eb, fb)" "p = pa"
      | "end_at s e f = Some p" "(e, f) \<noteq> (ea, fa)" "(e, f) \<noteq> (eb, fb)"
      using at unfolding ends by (metis option.inject)
    then show ?thesis
    proof cases
      case 3
      then have "p \<noteq> pa" "p \<noteq> pb" "hdr_names s p e f"
        using bufs_inv_inj [OF assms(1)] assms(1-3) p0 unfolding bufs_inv_def by blast+
      then show ?thesis by (simp add: hdr_names_def s'_def)
    qed (use names ne in \<open>auto simp: hdr_names_def s'_def\<close>)
  qed
  then have "bufs_inv s'" by (simp add: bufs_inv_def)
  with run ends show ?thesis by blast
qed

text \<open>Installing a free buffer of the right size at an end of an edge.\<close>

definition free_buf :: "'w pgm_state \<Rightarrow> addr \<Rightarrow> bool" where
  "free_buf s p \<longleftrightarrow> p \<noteq> 0 \<and> pgm_get_user_ptr p \<noteq> 0 \<and> offset_intact s p \<and>
     cookie (mem_hdr s p) = PGM_COOKIE \<and> assigned_edge (mem_hdr s p) = BAD_EDGE"

definition data_edge :: "'w pgm_state \<Rightarrow> edge_t \<Rightarrow> bool" where
  "data_edge s edge \<longleftrightarrow> live_graph s (egraph edge) \<and> in_edges (eedge edge) \<and>
     is_data_passing (e_attr (edges (graph_of s (egraph edge)) (nat (eedge edge))))"

lemma upd_edge_fields [simp]:
  "in_use (upd_edge i f g) = in_use g" "edges (upd_edge i f g) i = f (edges g i)"
  by (simp_all add: upd_edge_def)

lemma live_graph_upd_hdr [simp]:
  "live_graph (upd_hdr p f s) g = live_graph s g" "graph_of (upd_hdr p f s) g = graph_of s g"
  by (simp_all add: live_graph_def is_valid_graph_def graph_of_def)

lemma live_graph_in_use [simp]: "live_graph s g \<Longrightarrow> in_use (graph_of s g)"
  by (erule live_graphD) simp

lemma data_edge_at:
  "data_edge s edge \<Longrightarrow> edge_at s edge = Some (edges (graph_of s (egraph edge)) (nat (eedge edge)))"
  unfolding data_edge_def by (auto elim!: live_graphD simp: edge_at_Some graph_of_def)

lemma swap_edge_buf_step:
  assumes "bufs_inv s" and "data_edge s edge" and "end_at s edge pf = Some old" and "old \<noteq> 0"
    and "pgm_get_user_ptr old \<noteq> 0" and "free_buf s p"
    and "usersize (mem_hdr s p) = usersize (mem_hdr s old)"
  shows "\<exists>s'. swap_edge_buf edge (pgm_get_user_ptr p) pf s = Some (pgm_get_user_ptr old, s') \<and>
    bufs_inv s' \<and> data_edge s' edge \<and> free_buf s' old \<and>
    usersize (mem_hdr s' p) = usersize (mem_hdr s' old) \<and>
    (\<forall>e f. end_at s' e f = (if (e, f) = (edge, pf) then Some p else end_at s e f))"
proof -
  let ?e = "edges (graph_of s (egraph edge)) (nat (eedge edge))"
  note at = data_edge_at [OF assms(2)]
  have names: "hdr_names s old edge pf" using assms(1,3,4) by (simp add: bufs_inv_def)
  have "edge \<noteq> BAD_EDGE" using edge_atD(4) [OF at] .
  then have ne: "p \<noteq> old" using names assms(6) by (auto simp: free_buf_def hdr_names_def)
  define s' where "s' = set_edge edge (set_end_buf pf p) (upd_hdr old (\<lambda>h. h\<lparr>assigned_edge := BAD_EDGE\<rparr>)
    (upd_hdr p (\<lambda>h. h\<lparr>assigned_edge := edge, producer_flag := producer_flag (mem_hdr s old)\<rparr>) s))"
  have old: "end_buf pf ?e = old" using assms(3) at by (simp add: end_at_def)
  have hdr: "pgm_get_mem_header_safe s (pgm_get_user_ptr p) = p"
    using assms(6) by (simp add: pgm_get_mem_header_safe_def free_buf_def get_mem_header_user_ptr)
  have run: "swap_edge_buf edge (pgm_get_user_ptr p) pf s = Some (pgm_get_user_ptr old, s')"
    using assms(2,4,6,7) hdr old
    by (simp add: swap_edge_buf_def data_edge_def with_edge_def free_buf_def BAD_EDGE_def s'_def)
  have ends: "end_at s' e f = (if (e, f) = (edge, pf) then Some p else end_at s e f)" for e f
    using end_at_set_edge [of "upd_hdr _ _ (upd_hdr _ _ s)" edge ?e pf p e f] at
    by (simp only: s'_def edge_at_upd_hdr end_at_upd_hdr)
  have "hdr_names s' q e f" if "end_at s' e f = Some q" "q \<noteq> 0" for q e f
  proof (cases "(e, f) = (edge, pf)")
    case True
    then have "q = p" using that(1) unfolding ends by simp
    with True show ?thesis
      using names ne assms(6) by (auto simp: hdr_names_def free_buf_def s'_def)
  next
    case False
    then have at': "end_at s e f = Some q" using that(1) unfolding ends by metis
    then have q: "hdr_names s q e f" using assms(1) that(2) by (simp add: bufs_inv_def)
    have "q \<noteq> old" using bufs_inv_inj [OF assms(1) at' _ that(2)] assms(3) False by blast
    moreover have "q \<noteq> p"
    proof -
      obtain e' where "edge_at s e = Some e'" using at' by (auto simp: end_at_def)
      from edge_atD(4) [OF this] show ?thesis using q assms(6) by (auto simp: hdr_names_def free_buf_def)
    qed
    ultimately show ?thesis using q by (simp add: hdr_names_def s'_def)
  qed
  then have "bufs_inv s'" by (simp add: bufs_inv_def)
  moreover have "free_buf s' old" "usersize (mem_hdr s' p) = usersize (mem_hdr s' old)"
    using names ne assms(4,5,7) by (simp_all add: free_buf_def hdr_names_def s'_def)
  moreover have "data_edge s' edge"
    using assms(2) by (auto simp: data_edge_def s'_def set_edge_def set_end_buf_def)
  ultimately show ?thesis using run ends by blast
qed

text \<open>
  Installing a free buffer of the right size at an end of an open data-passing edge returns the
  previous buffer, now free; the other ends are untouched and edges and headers still correspond.
  Installing the returned buffer again restores the buffers of all edges.
\<close>

theorem swap_edge_buf_roundtrip:
  assumes "bufs_inv s" and "data_edge s edge" and "end_at s edge pf = Some old" and "old \<noteq> 0"
    and "pgm_get_user_ptr old \<noteq> 0" and "free_buf s p"
    and "usersize (mem_hdr s p) = usersize (mem_hdr s old)"
  shows "\<exists>s' s''. swap_edge_buf edge (pgm_get_user_ptr p) pf s = Some (pgm_get_user_ptr old, s') \<and>
    bufs_inv s' \<and> free_buf s' old \<and>
    (\<forall>e f. end_at s' e f = (if (e, f) = (edge, pf) then Some p else end_at s e f)) \<and>
    swap_edge_buf edge (pgm_get_user_ptr old) pf s' = Some (pgm_get_user_ptr p, s'') \<and>
    bufs_inv s'' \<and> end_at s'' = end_at s"
proof -
  obtain s' where s': "swap_edge_buf edge (pgm_get_user_ptr p) pf s = Some (pgm_get_user_ptr old, s')"
    "bufs_inv s'" "data_edge s' edge" "free_buf s' old"
    "usersize (mem_hdr s' p) = usersize (mem_hdr s' old)"
    "\<And>e f. end_at s' e f = (if (e, f) = (edge, pf) then Some p else end_at s e f)"
    using swap_edge_buf_step [OF assms] by blast
  have p: "end_at s' edge pf = Some p" "p \<noteq> 0" "pgm_get_user_ptr p \<noteq> 0"
    using s'(6) [of edge pf] assms(6) by (simp_all add: free_buf_def)
  obtain s'' where s'': "swap_edge_buf edge (pgm_get_user_ptr old) pf s' = Some (pgm_get_user_ptr p, s'')"
    "bufs_inv s''" "\<And>e f. end_at s'' e f = (if (e, f) = (edge, pf) then Some old else end_at s' e f)"
    using swap_edge_buf_step [OF s'(2,3) p s'(4) s'(5) [symmetric]] by blast
  have "end_at s'' e f = end_at s e f" for e f
    unfolding s''(3) s'(6) using assms(3) by (cases "(e, f) = (edge, pf)") (simp_all only: if_True if_False prod.inject simp_thms)
  then have "end_at s'' = end_at s" by blast
  with s'(1,2,4,6) s''(1,2) show ?thesis by blast
qed

text \<open>
  Two ring edges of graph 0 whose producers have a buffer, at 4096 and 8192, and a free buffer of
  the same size at 12288.
\<close>

definition buf_edge :: "addr \<Rightarrow> pgm_edge" where
  "buf_edge p = zero_edge\<lparr>e_attr := zero_attr\<lparr>etype := pgm_ring_edge\<rparr>, e_buf_out := p\<rparr>"

definition buf_state :: "addr pgm_state" where
  "buf_state = sample_state\<lparr>
     gGraphs := Some ((\<lambda>_. zero_graph)(0 := zero_graph\<lparr>in_use := True, nr_edges := 2,
       edges := (\<lambda>_. zero_edge)(0 := buf_edge 4096, 1 := buf_edge 8192)\<rparr>)),
     mem_hdr := (\<lambda>a. \<lparr>usersize = 8, assigned_edge = (if a = 4096 then \<lparr>egraph = 0, eedge = 0\<rparr>
       else if a = 8192 then \<lparr>egraph = 0, eedge = 1\<rparr> else BAD_EDGE), cookie = PGM_COOKIE,
       producer_flag = 1\<rparr>),
     mem_byte := (\<lambda>_. 32)\<rparr>"

lemma buf_state_user_ptr:
  "pgm_get_user_ptr 4096 = 4128" "pgm_get_user_ptr 8192 = 8224" "pgm_get_user_ptr 12288 = 12320"
  by (simp_all add: pgm_get_user_ptr_def usermem_defs)

lemma buf_state_ends:
  "end_at buf_state \<lparr>egraph = 0, eedge = 0\<rparr> True = Some 4096"
  "end_at buf_state \<lparr>egraph = 0, eedge = 1\<rparr> True = Some 8192"
  by (simp_all add: end_at_def edge_at_def buf_state_def graph_of_def with_edge_def in_edges_def
      end_buf_def buf_edge_def PGM_MAX_GRAPHS_def PGM_MAX_EDGES_def)

lemma buf_state_inv: "bufs_inv buf_state"
proof -
  have "(edge = \<lparr>egraph = 0, eedge = 0\<rparr> \<and> p = 4096 \<or> edge = \<lparr>egraph = 0, eedge = 1\<rparr> \<and> p = 8192) \<and> pf"
    if at: "end_at buf_state edge pf = Some p" and p: "p \<noteq> 0" for edge pf p
  proof -
    have "edge_at buf_state edge \<noteq> None" using at by (auto simp: end_at_def)
    then have "0 \<le> egraph edge" "0 \<le> eedge edge" using edge_atD(1,2) by blast+
    then show ?thesis
      using at p
      by (auto simp: end_at_def edge_at_Some buf_state_def end_buf_def buf_edge_def zero_edge_def
          zero_graph_def edge_t_eq_iff split: if_splits)
  qed
  then show ?thesis
    by (fastforce simp: bufs_inv_def hdr_names_def offset_intact_def buf_state_user_ptr buf_state_def)
qed

theorem swap_edge_bufs_exchanges_witness:
  "\<exists>s'. pgm_swap_edge_bufs 4128 8224 buf_state = Some (0, s') \<and> bufs_inv s' \<and>
    (\<forall>e f. end_at s' e f = (if (e, f) = (\<lparr>egraph = 0, eedge = 0\<rparr>, True) then Some 8192
      else if (e, f) = (\<lparr>egraph = 0, eedge = 1\<rparr>, True) then Some 4096 else end_at buf_state e f))"
  using swap_edge_bufs_exchanges [OF buf_state_inv buf_state_ends]
  unfolding buf_state_user_ptr by (simp add: buf_state_def)

theorem swap_edge_buf_roundtrip_witness:
  "\<exists>s' s''. swap_edge_buf \<lparr>egraph = 0, eedge = 0\<rparr> 12320 True buf_state = Some (4128, s') \<and>
    bufs_inv s' \<and> free_buf s' 4096 \<and>
    (\<forall>e f. end_at s' e f = (if (e, f) = (\<lparr>egraph = 0, eedge = 0\<rparr>, True) then Some 12288
      else end_at buf_state e f)) \<and>
    swap_edge_buf \<lparr>egraph = 0, eedge = 0\<rparr> 4128 True s' = Some (12320, s'') \<and>
    bufs_inv s'' \<and> end_at s'' = end_at buf_state"
proof -
  have d: "data_edge buf_state \<lparr>egraph = 0, eedge = 0\<rparr>"
    by (simp add: data_edge_def live_graph_def is_valid_graph_def is_valid_handle_def buf_state_def
        graph_of_def in_edges_def PGM_MAX_GRAPHS_def PGM_MAX_EDGES_def is_data_passing_def
        buf_edge_def edge_type_defs)
  have f: "free_buf buf_state 12288"
    by (simp add: free_buf_def offset_intact_def buf_state_user_ptr) (simp add: buf_state_def)
  have u: "usersize (mem_hdr buf_state 12288) = usersize (mem_hdr buf_state 4096)"
    by (simp add: buf_state_def)
  show ?thesis
    using swap_edge_buf_roundtrip [OF buf_state_inv d buf_state_ends(1) _ _ f u]
    unfolding buf_state_user_ptr by simp
qed

text \<open>
  Two consequences of the definitions: a set \<open>producer_flag\<close> reads as \<open>-1\<close>, so \<open>is_producer_buf\<close>
  recognises no buffer; and the buffer of an edge that is not open is reported as address 32.
\<close>

lemma is_producer_buf_False: "\<not> is_producer_buf s u"
proof -
  have "sint f \<noteq> 1" for f :: "1 word"
    using sint_lt [of f] by simp
  then show ?thesis by (simp add: is_producer_buf_def)
qed

lemma get_edge_buf_p_closed:
  assumes "data_edge s edge" and "end_at s edge True = Some 0"
  shows "pgm_get_edge_buf_p s edge = Some 32"
  using assms(2) data_edge_at [OF assms(1)] assms(1)
  by (simp add: pgm_get_edge_buf_p_def data_edge_def with_edge_def end_at_def end_buf_def
      pgm_get_user_ptr_def usermem_defs)

end
