(* ===== verification/Pgm_Ipc.thy ===== *)
theory Pgm_Ipc
  imports Pgm_Memory
begin

text \<open>
  The five kinds of edges of \<^verbatim>\<open>src/src/pgm.cpp\<close>: ring buffers, named FIFOs, POSIX message queues,
  stream sockets and condition variables, each with its table of operations (initialise, open and
  close either end, destroy, read, write).  An operation works on the edge it is given and on the
  state around it and returns the C result with both; \<open>None\<close> is undefined behaviour, a failed
  assertion, or a loop that does not end.

  Shown here: closing an end that was opened successfully gives back the edge as it was before the
  opening, for every kind of edge; a failed opening installs no buffer; and the producer's wait for
  the reader of a FIFO ends as long as the system clock advances.
\<close>

type_synonym 'w edge_result = "(int \<times> pgm_edge \<times> 'w pgm_state) option"

section \<open>Ring edges\<close>

text \<open>
  \<open>init_ring\<close> calls \<open>calloc\<close> and \<open>malloc\<close> only behind its checks; the fresh data block has the bytes
  that happen to be in memory.
\<close>

definition ring_init :: "'w os \<Rightarrow> pgm_edge \<Rightarrow> 'w pgm_state \<Rightarrow> 'w edge_result" where
  "ring_init os e s =
     (let a = e_attr e; n = attr_nmemb a; sz = nr_produce a in
      if nr_produce a \<noteq> nr_consume a then Some (-1, e, s)
      else (case (if n = 0 \<or> sz = 0 then Some 0 else round_up_count n) of
          None \<Rightarrow> None
        | Some count \<Rightarrow>
            let (cp, s1) = sys (os_calloc os count) s;
                (mp, s2) = sys (os_malloc os (count * sz)) s1;
                (cp, mp, s') = (if count = 0 then (0, 0, s) else (cp, mp, s2))
            in (case init_ring cp mp (\<lambda>i. mem_byte s (mp + of_nat i)) (Some (e_ringbuf e)) n sz of
                  Some (ret, Some r) \<Rightarrow> Some (ret, e\<lparr>e_ringbuf := r\<rparr>, s')
                | _ \<Rightarrow> None)))"

definition ring_open_consumer :: "'w os \<Rightarrow> graph_t \<Rightarrow> nat \<Rightarrow> pgm_edge \<Rightarrow> 'w pgm_state \<Rightarrow> 'w edge_result" where
  "ring_open_consumer os graph i e s =
     (let (b, s) = malloc_edge_buf os graph i e False s in Some (0, e\<lparr>e_buf_in := b\<rparr>, s))"

definition ring_open_producer :: "'w os \<Rightarrow> graph_t \<Rightarrow> nat \<Rightarrow> pgm_edge \<Rightarrow> 'w pgm_state \<Rightarrow> 'w edge_result" where
  "ring_open_producer os graph i e s =
     (let (b, s) = malloc_edge_buf os graph i e True s in Some (0, e\<lparr>e_buf_out := b\<rparr>, s))"

definition free_mem :: "'w os \<Rightarrow> addr \<Rightarrow> 'w pgm_state \<Rightarrow> 'w pgm_state" where
  "free_mem os p s = s\<lparr>world := os_free os p (world s)\<rparr>"

definition ring_close_consumer :: "'w os \<Rightarrow> pgm_edge \<Rightarrow> 'w pgm_state \<Rightarrow> 'w edge_result" where
  "ring_close_consumer os e s = Some (0, e\<lparr>e_buf_in := 0\<rparr>, free_mem os (e_buf_in e) s)"

definition ring_close_producer :: "'w os \<Rightarrow> pgm_edge \<Rightarrow> 'w pgm_state \<Rightarrow> 'w edge_result" where
  "ring_close_producer os e s = Some (0, e\<lparr>e_buf_out := 0\<rparr>, free_mem os (e_buf_out e) s)"

definition ring_destroy :: "'w os \<Rightarrow> pgm_edge \<Rightarrow> 'w pgm_state \<Rightarrow> 'w edge_result" where
  "ring_destroy os e s = Some (0, e, fold (free_mem os) (free_ring (Some (e_ringbuf e))) s)"

text \<open>
  The accesses by machine word and by \<open>memcpy\<close> move the same \<open>nbytes\<close> bytes.
\<close>

definition ring_read :: "pgm_edge \<Rightarrow> size_t \<Rightarrow> ((int \<times> byte list) \<times> pgm_edge) option" where
  "ring_read e nbytes =
     (if nbytes \<noteq> nr_produce (e_attr e) \<or> nbytes \<noteq> nr_consume (e_attr e) then None
      else map_option (\<lambda>(bs, r). ((int (unat nbytes), bs), e\<lparr>e_ringbuf := r\<rparr>))
             (read_ring (e_ringbuf e) (unat nbytes)))"

definition ring_write :: "pgm_edge \<Rightarrow> byte list \<Rightarrow> (int \<times> pgm_edge) option" where
  "ring_write e bs =
     (if of_nat (length bs) \<noteq> nr_produce (e_attr e) \<or> of_nat (length bs) \<noteq> nr_consume (e_attr e) then None
      else map_option (\<lambda>r. (int (length bs), e\<lparr>e_ringbuf := r\<rparr>)) (write_ring (e_ringbuf e) bs))"

section \<open>FIFO edges\<close>

text \<open>\<open>operator /=\<close> of a path.\<close>

definition path_append :: "string \<Rightarrow> string \<Rightarrow> string" where
  "path_append p q = (if p = [] \<or> last p = CHR ''/'' then p @ q else p @ ''/'' @ q)"

definition fifo_name :: "'w os \<Rightarrow> 'w pgm_state \<Rightarrow> pgm_graph \<Rightarrow> pgm_edge \<Rightarrow> string" where
  "fifo_name os s g e =
     num_str 10 (unat (os_hash os (gGraphPath s))) @ ''_'' @ g_name g @ ''_'' @
     n_name (nodes g (e_producer e)) @ ''_'' @ n_name (nodes g (e_consumer e)) @ ''_'' @ e_name e @ ''.edge''"

definition fifo_path :: "'w os \<Rightarrow> 'w pgm_state \<Rightarrow> pgm_graph \<Rightarrow> pgm_edge \<Rightarrow> string" where
  "fifo_path os s g e = path_append (gGraphPath s) (fifo_name os s g e)"

definition fifo_create :: "'w os \<Rightarrow> pgm_graph \<Rightarrow> pgm_edge \<Rightarrow> 'w pgm_state \<Rightarrow> 'w edge_result" where
  "fifo_create os g e s =
     (if gGraphPath s = [] then Some (-1, e, s)
      else let p = fifo_path os s g e;
               (_, s) = sys (os_remove os p) s;
               (ret, s) = sys (os_mkfifo os p) s
           in Some (ret, e, s))"

definition fifo_open_consumer ::
  "'w os \<Rightarrow> graph_t \<Rightarrow> nat \<Rightarrow> pgm_graph \<Rightarrow> pgm_edge \<Rightarrow> 'w pgm_state \<Rightarrow> 'w edge_result"
where
  "fifo_open_consumer os graph i g e s =
     (if gGraphPath s = [] then Some (-1, e, s)
      else let (fd, s) = sys (os_open os (fifo_path os s g e) O_RDONLY) s; e = e\<lparr>e_fd_in := fd\<rparr> in
        if fd \<noteq> -1 then let (b, s) = malloc_edge_buf os graph i e False s in Some (0, e\<lparr>e_buf_in := b\<rparr>, s)
        else Some (-1, e, s))"

text \<open>
  The producer retries once a millisecond while no reader has opened the FIFO (\<open>ENXIO\<close>), for up to
  60 seconds; the result is the last descriptor.
\<close>

partial_function (option) fifo_open_loop ::
  "'w os \<Rightarrow> string \<Rightarrow> int \<Rightarrow> 'w \<Rightarrow> (int \<times> int \<times> 'w) option"
where
  "fifo_open_loop os p start_time w =
     (let (fd, w) = os_open os p O_WRONLY w in
      if fd = -1 then
        if os_errno os w \<noteq> ENXIO then Some (-1, fd, w)
        else if os_time os w - start_time > 60 then Some (-1, fd, w)
        else fifo_open_loop os p start_time (os_usleep os 1000 w)
      else Some (0, fd, w))"

definition fifo_open_producer ::
  "'w os \<Rightarrow> graph_t \<Rightarrow> nat \<Rightarrow> pgm_graph \<Rightarrow> pgm_edge \<Rightarrow> 'w pgm_state \<Rightarrow> 'w edge_result"
where
  "fifo_open_producer os graph i g e s =
     (if gGraphPath s = [] then Some (-1, e, s)
      else (case fifo_open_loop os (fifo_path os s g e) (os_time os (world s)) (world s) of
          None \<Rightarrow> None
        | Some (ret, fd, w) \<Rightarrow>
            let e = e\<lparr>e_fd_out := fd\<rparr>; s = s\<lparr>world := w\<rparr> in
            if ret = 0 then let (b, s) = malloc_edge_buf os graph i e True s in Some (ret, e\<lparr>e_buf_out := b\<rparr>, s)
            else Some (ret, e, s)))"

definition fifo_close_consumer :: "'w os \<Rightarrow> pgm_edge \<Rightarrow> 'w pgm_state \<Rightarrow> 'w edge_result" where
  "fifo_close_consumer os e s =
     (let (ret, s) = sys (os_close os (e_fd_in e)) s in
      if ret = 0 then Some (ret, e\<lparr>e_fd_in := 0, e_buf_in := 0\<rparr>, free_mem os (e_buf_in e) s)
      else Some (ret, e, s))"

definition fifo_close_producer :: "'w os \<Rightarrow> pgm_edge \<Rightarrow> 'w pgm_state \<Rightarrow> 'w edge_result" where
  "fifo_close_producer os e s =
     (let (ret, s) = sys (os_close os (e_fd_out e)) s in
      if ret = 0 then Some (ret, e\<lparr>e_fd_out := 0, e_buf_out := 0\<rparr>, free_mem os (e_buf_out e) s)
      else Some (ret, e, s))"

definition fifo_destroy :: "'w os \<Rightarrow> pgm_graph \<Rightarrow> pgm_edge \<Rightarrow> 'w pgm_state \<Rightarrow> 'w edge_result" where
  "fifo_destroy os g e s =
     (if gGraphPath s = [] then Some (-1, e, s)
      else let p = fifo_path os s g e in
        if os_exists os p (world s) then
          let (ok, s) = sys (os_remove os p) s in Some (if ok then 0 else -1, e, s)
        else Some (-1, e, s))"

definition fifo_read :: "'w os \<Rightarrow> pgm_edge \<Rightarrow> nat \<Rightarrow> 'w pgm_state \<Rightarrow> (int \<times> byte list) \<times> 'w pgm_state" where
  "fifo_read os e nbytes s = sys (os_read os (e_fd_in e) nbytes) s"

definition fifo_write :: "'w os \<Rightarrow> pgm_edge \<Rightarrow> byte list \<Rightarrow> 'w pgm_state \<Rightarrow> int \<times> 'w pgm_state" where
  "fifo_write os e bs s = sys (os_write os (e_fd_out e) bs) s"

section \<open>Message queue edges\<close>

definition mq_path :: "'w os \<Rightarrow> 'w pgm_state \<Rightarrow> pgm_graph \<Rightarrow> pgm_edge \<Rightarrow> string" where
  "mq_path os s g e = path_append ''/'' (fifo_name os s g e)"

definition mq_create :: "'w os \<Rightarrow> pgm_graph \<Rightarrow> pgm_edge \<Rightarrow> 'w pgm_state \<Rightarrow> 'w edge_result" where
  "mq_create os g e s =
     (let (ret, s) = sys (os_mq_unlink os (mq_path os s g e)) s in
      if ret = -1 \<and> os_errno os (world s) = ENOENT then Some (0, e, s) else Some (ret, e, s))"

definition mq_open_consumer ::
  "'w os \<Rightarrow> graph_t \<Rightarrow> nat \<Rightarrow> pgm_graph \<Rightarrow> pgm_edge \<Rightarrow> 'w pgm_state \<Rightarrow> 'w edge_result"
where
  "mq_open_consumer os graph i g e s =
     (let (fd, s) = sys (os_mq_open os (mq_path os s g e) O_RDONLY (attr_mq_maxmsg (e_attr e))
                           (nr_produce (e_attr e) + 1)) s;
          e = e\<lparr>e_fd_in := fd\<rparr>
      in if fd = -1 then Some (-1, e, s)
         else let (b, s) = malloc_edge_buf os graph i e False s in Some (0, e\<lparr>e_buf_in := b\<rparr>, s))"

definition mq_open_producer ::
  "'w os \<Rightarrow> graph_t \<Rightarrow> nat \<Rightarrow> pgm_graph \<Rightarrow> pgm_edge \<Rightarrow> 'w pgm_state \<Rightarrow> 'w edge_result"
where
  "mq_open_producer os graph i g e s =
     (let (fd, s) = sys (os_mq_open os (mq_path os s g e) O_WRONLY (attr_mq_maxmsg (e_attr e))
                           (nr_produce (e_attr e) + 1)) s;
          e = e\<lparr>e_fd_out := fd\<rparr>
      in if fd = -1 then Some (-1, e, s)
         else let (b, s) = malloc_edge_buf os graph i e True s in Some (0, e\<lparr>e_buf_out := b\<rparr>, s))"

definition mq_close_consumer :: "'w os \<Rightarrow> pgm_edge \<Rightarrow> 'w pgm_state \<Rightarrow> 'w edge_result" where
  "mq_close_consumer os e s =
     (let (ret, s) = sys (os_mq_close os (e_fd_in e)) s in
      if ret = 0 then Some (ret, e\<lparr>e_fd_in := 0, e_buf_in := 0\<rparr>, free_mem os (e_buf_in e) s)
      else Some (ret, e, s))"

definition mq_close_producer :: "'w os \<Rightarrow> pgm_edge \<Rightarrow> 'w pgm_state \<Rightarrow> 'w edge_result" where
  "mq_close_producer os e s =
     (let (ret, s) = sys (os_mq_close os (e_fd_out e)) s in
      if ret = 0 then Some (ret, e\<lparr>e_fd_out := 0, e_buf_out := 0\<rparr>, free_mem os (e_buf_out e) s)
      else Some (ret, e, s))"

definition mq_destroy :: "'w os \<Rightarrow> pgm_graph \<Rightarrow> pgm_edge \<Rightarrow> 'w pgm_state \<Rightarrow> 'w edge_result" where
  "mq_destroy os g e s = (let (ret, s) = sys (os_mq_unlink os (mq_path os s g e)) s in Some (ret, e, s))"

definition mq_read :: "'w os \<Rightarrow> pgm_edge \<Rightarrow> nat \<Rightarrow> 'w pgm_state \<Rightarrow> (int \<times> byte list) \<times> 'w pgm_state" where
  "mq_read os e nbytes s = sys (os_mq_receive os (e_fd_in e) nbytes) s"

definition mq_write :: "'w os \<Rightarrow> pgm_edge \<Rightarrow> byte list \<Rightarrow> 'w pgm_state \<Rightarrow> int \<times> 'w pgm_state" where
  "mq_write os e bs s =
     (let (ret, s) = sys (os_mq_send os (e_fd_out e) bs) s in
      (if ret = 0 then int (length bs) else ret, s))"

section \<open>Socket edges\<close>

text \<open>
  The loop over the addresses that \<open>getaddrinfo\<close> found: the first for which both a socket is created
  and \<open>attach\<close> (\<open>connect\<close>, \<open>bind\<close>) is successful; a socket that cannot be attached is closed.
\<close>

fun first_socket ::
  "'w os \<Rightarrow> (int \<Rightarrow> nat \<Rightarrow> 'w \<Rightarrow> bool \<times> 'w) \<Rightarrow> nat list \<Rightarrow> 'w \<Rightarrow> int option \<times> 'w"
where
  "first_socket os attach [] w = (None, w)"
| "first_socket os attach (rp # rps) w =
     (let (sfd, w) = os_socket os rp w in
      if sfd = -1 then first_socket os attach rps w
      else let (ok, w) = attach sfd rp w in
        if ok then (Some sfd, w) else first_socket os attach rps (snd (os_close os sfd w)))"

definition try_connect :: "'w os \<Rightarrow> int \<Rightarrow> nat \<Rightarrow> 'w \<Rightarrow> bool \<times> 'w" where
  "try_connect os sfd rp w = (let (r, w) = os_connect os sfd rp w in (r \<noteq> -1, w))"

definition try_bind :: "'w os \<Rightarrow> int \<Rightarrow> nat \<Rightarrow> 'w \<Rightarrow> bool \<times> 'w" where
  "try_bind os sfd rp w = (let (r, w) = os_bind os sfd rp w in (r = 0, w))"

definition sock_stream_create :: "pgm_edge \<Rightarrow> 'w pgm_state \<Rightarrow> 'w edge_result" where
  "sock_stream_create e s = Some (0, e, s)"

definition sock_stream_open_consumer ::
  "'w os \<Rightarrow> graph_t \<Rightarrow> nat \<Rightarrow> pgm_edge \<Rightarrow> 'w pgm_state \<Rightarrow> 'w edge_result"
where
  "sock_stream_open_consumer os graph i e s =
     (let ((err, result), s) =
            sys (os_getaddrinfo os (peer (e_attr e)) (attr_port (e_attr e)) False) s
      in if err \<noteq> 0 then Some (-1, e, s)
         else let (sfd, s) = sys (first_socket os (try_connect os) result) s in
           (case sfd of
              None \<Rightarrow> Some (-1, e, s)
            | Some fd \<Rightarrow>
                let e = e\<lparr>e_fd_in := fd\<rparr>; (b, s) = malloc_edge_buf os graph i e False s
                in Some (0, e\<lparr>e_buf_in := b\<rparr>, s)))"

definition sock_stream_open_producer ::
  "'w os \<Rightarrow> graph_t \<Rightarrow> nat \<Rightarrow> pgm_edge \<Rightarrow> 'w pgm_state \<Rightarrow> 'w edge_result"
where
  "sock_stream_open_producer os graph i e s =
     (let ((err, result), s) = sys (os_getaddrinfo os None (attr_port (e_attr e)) True) s
      in if err \<noteq> 0 then Some (-1, e, s)
         else let (sfd, s) = sys (first_socket os (try_bind os) result) s in
           (case sfd of
              None \<Rightarrow> Some (-1, e, s)
            | Some fd \<Rightarrow>
                let (ret, s) = sys (os_listen os fd) s in
                if ret < 0 then Some (ret, e, s)
                else let (ret, s) = sys (os_accept os fd) s in
                  if ret < 0 then Some (ret, e, s)
                  else
                    let e = e\<lparr>e_fd_out := ret, e_attr := (e_attr e)\<lparr>fd_prod_socket := fd\<rparr>\<rparr>;
                        (b, s) = malloc_edge_buf os graph i e True s
                    in Some (0, e\<lparr>e_buf_out := b\<rparr>, s)))"

text \<open>\<open>ret |= close(...)\<close> of two results that are 0 or -1.\<close>

definition or_ret :: "int \<Rightarrow> int \<Rightarrow> int" where
  "or_ret a b = (if a = 0 then b else if b = 0 then a else -1)"

definition sock_stream_close_consumer :: "'w os \<Rightarrow> pgm_edge \<Rightarrow> 'w pgm_state \<Rightarrow> 'w edge_result" where
  "sock_stream_close_consumer os e s =
     (let (ret, s) = sys (os_close os (e_fd_in e)) s in
      if ret = 0 then Some (ret, e\<lparr>e_fd_in := 0, e_buf_in := 0\<rparr>, free_mem os (e_buf_in e) s)
      else Some (ret, e, s))"

definition sock_stream_close_producer :: "'w os \<Rightarrow> pgm_edge \<Rightarrow> 'w pgm_state \<Rightarrow> 'w edge_result" where
  "sock_stream_close_producer os e s =
     (let (ret1, s) = sys (os_close os (e_fd_out e)) s;
          (ret2, s) = sys (os_close os (fd_prod_socket (e_attr e))) s;
          ret = or_ret ret1 ret2
      in if ret = 0
         then Some (ret, e\<lparr>e_fd_out := 0, e_attr := (e_attr e)\<lparr>fd_prod_socket := 0\<rparr>, e_buf_out := 0\<rparr>,
                    free_mem os (e_buf_out e) s)
         else Some (ret, e, s))"

definition sock_stream_destroy :: "pgm_edge \<Rightarrow> 'w pgm_state \<Rightarrow> 'w edge_result" where
  "sock_stream_destroy e s = Some (0, e, s)"

definition sock_stream_read :: "'w os \<Rightarrow> pgm_edge \<Rightarrow> nat \<Rightarrow> 'w pgm_state \<Rightarrow> (int \<times> byte list) \<times> 'w pgm_state" where
  "sock_stream_read os e nbytes s = sys (os_recv os (e_fd_in e) nbytes) s"

definition sock_stream_write :: "'w os \<Rightarrow> pgm_edge \<Rightarrow> byte list \<Rightarrow> 'w pgm_state \<Rightarrow> int \<times> 'w pgm_state" where
  "sock_stream_write os e bs s = sys (os_send os (e_fd_out e) bs) s"

section \<open>CV edges\<close>

definition cv_create :: "pgm_edge \<Rightarrow> 'w pgm_state \<Rightarrow> 'w edge_result" where
  "cv_create e s = Some (0, e\<lparr>e_nr_pending := attr_nr_init (e_attr e)\<rparr>, s)"

definition dummy_edge_op :: "pgm_edge \<Rightarrow> 'w pgm_state \<Rightarrow> 'w edge_result" where
  "dummy_edge_op e s = Some (0, e, s)"

definition dummy_edge_close :: "pgm_edge \<Rightarrow> 'w pgm_state \<Rightarrow> 'w edge_result" where
  "dummy_edge_close e s = Some (0, e, s)"

definition dummy_edge_read :: "int \<times> byte list" where "dummy_edge_read = (0, [])"

definition dummy_edge_write :: int where "dummy_edge_write = 0"

section \<open>The operation tables\<close>

primrec ops_init :: "edge_ops \<Rightarrow> 'w os \<Rightarrow> pgm_graph \<Rightarrow> pgm_edge \<Rightarrow> 'w pgm_state \<Rightarrow> 'w edge_result" where
  "ops_init cv_edge_ops os g e s = cv_create e s"
| "ops_init fifo_edge_ops os g e s = fifo_create os g e s"
| "ops_init mq_edge_ops os g e s = mq_create os g e s"
| "ops_init ring_edge_ops os g e s = ring_init os e s"
| "ops_init sock_stream_edge_ops os g e s = sock_stream_create e s"

primrec ops_open_consumer ::
  "edge_ops \<Rightarrow> 'w os \<Rightarrow> graph_t \<Rightarrow> nat \<Rightarrow> pgm_graph \<Rightarrow> pgm_edge \<Rightarrow> 'w pgm_state \<Rightarrow> 'w edge_result"
where
  "ops_open_consumer cv_edge_ops os graph i g e s = dummy_edge_op e s"
| "ops_open_consumer fifo_edge_ops os graph i g e s = fifo_open_consumer os graph i g e s"
| "ops_open_consumer mq_edge_ops os graph i g e s = mq_open_consumer os graph i g e s"
| "ops_open_consumer ring_edge_ops os graph i g e s = ring_open_consumer os graph i e s"
| "ops_open_consumer sock_stream_edge_ops os graph i g e s = sock_stream_open_consumer os graph i e s"

primrec ops_open_producer ::
  "edge_ops \<Rightarrow> 'w os \<Rightarrow> graph_t \<Rightarrow> nat \<Rightarrow> pgm_graph \<Rightarrow> pgm_edge \<Rightarrow> 'w pgm_state \<Rightarrow> 'w edge_result"
where
  "ops_open_producer cv_edge_ops os graph i g e s = dummy_edge_op e s"
| "ops_open_producer fifo_edge_ops os graph i g e s = fifo_open_producer os graph i g e s"
| "ops_open_producer mq_edge_ops os graph i g e s = mq_open_producer os graph i g e s"
| "ops_open_producer ring_edge_ops os graph i g e s = ring_open_producer os graph i e s"
| "ops_open_producer sock_stream_edge_ops os graph i g e s = sock_stream_open_producer os graph i e s"

primrec ops_close_consumer :: "edge_ops \<Rightarrow> 'w os \<Rightarrow> pgm_edge \<Rightarrow> 'w pgm_state \<Rightarrow> 'w edge_result" where
  "ops_close_consumer cv_edge_ops os e s = dummy_edge_close e s"
| "ops_close_consumer fifo_edge_ops os e s = fifo_close_consumer os e s"
| "ops_close_consumer mq_edge_ops os e s = mq_close_consumer os e s"
| "ops_close_consumer ring_edge_ops os e s = ring_close_consumer os e s"
| "ops_close_consumer sock_stream_edge_ops os e s = sock_stream_close_consumer os e s"

primrec ops_close_producer :: "edge_ops \<Rightarrow> 'w os \<Rightarrow> pgm_edge \<Rightarrow> 'w pgm_state \<Rightarrow> 'w edge_result" where
  "ops_close_producer cv_edge_ops os e s = dummy_edge_close e s"
| "ops_close_producer fifo_edge_ops os e s = fifo_close_producer os e s"
| "ops_close_producer mq_edge_ops os e s = mq_close_producer os e s"
| "ops_close_producer ring_edge_ops os e s = ring_close_producer os e s"
| "ops_close_producer sock_stream_edge_ops os e s = sock_stream_close_producer os e s"

primrec ops_destroy :: "edge_ops \<Rightarrow> 'w os \<Rightarrow> pgm_graph \<Rightarrow> pgm_edge \<Rightarrow> 'w pgm_state \<Rightarrow> 'w edge_result" where
  "ops_destroy cv_edge_ops os g e s = dummy_edge_op e s"
| "ops_destroy fifo_edge_ops os g e s = fifo_destroy os g e s"
| "ops_destroy mq_edge_ops os g e s = mq_destroy os g e s"
| "ops_destroy ring_edge_ops os g e s = ring_destroy os e s"
| "ops_destroy sock_stream_edge_ops os g e s = sock_stream_destroy e s"

primrec ops_read ::
  "edge_ops \<Rightarrow> 'w os \<Rightarrow> pgm_edge \<Rightarrow> size_t \<Rightarrow> 'w pgm_state \<Rightarrow> ((int \<times> byte list) \<times> pgm_edge \<times> 'w pgm_state) option"
where
  "ops_read cv_edge_ops os e n s = Some (dummy_edge_read, e, s)"
| "ops_read fifo_edge_ops os e n s = (let (r, s) = fifo_read os e (unat n) s in Some (r, e, s))"
| "ops_read mq_edge_ops os e n s = (let (r, s) = mq_read os e (unat n) s in Some (r, e, s))"
| "ops_read ring_edge_ops os e n s = map_option (\<lambda>(r, e). (r, e, s)) (ring_read e n)"
| "ops_read sock_stream_edge_ops os e n s = (let (r, s) = sock_stream_read os e (unat n) s in Some (r, e, s))"

primrec ops_write ::
  "edge_ops \<Rightarrow> 'w os \<Rightarrow> pgm_edge \<Rightarrow> byte list \<Rightarrow> 'w pgm_state \<Rightarrow> (int \<times> pgm_edge \<times> 'w pgm_state) option"
where
  "ops_write cv_edge_ops os e bs s = Some (dummy_edge_write, e, s)"
| "ops_write fifo_edge_ops os e bs s = (let (r, s) = fifo_write os e bs s in Some (r, e, s))"
| "ops_write mq_edge_ops os e bs s = (let (r, s) = mq_write os e bs s in Some (r, e, s))"
| "ops_write ring_edge_ops os e bs s = map_option (\<lambda>(r, e). (r, e, s)) (ring_write e bs)"
| "ops_write sock_stream_edge_ops os e bs s = (let (r, s) = sock_stream_write os e bs s in Some (r, e, s))"

section \<open>Properties\<close>

lemmas open_close_defs =
  fifo_open_consumer_def fifo_close_consumer_def fifo_open_producer_def fifo_close_producer_def
  mq_open_consumer_def mq_close_consumer_def mq_open_producer_def mq_close_producer_def
  ring_open_consumer_def ring_close_consumer_def ring_open_producer_def ring_close_producer_def
  sock_stream_open_consumer_def sock_stream_close_consumer_def
  sock_stream_open_producer_def sock_stream_close_producer_def
  dummy_edge_op_def dummy_edge_close_def

text \<open>What a successful opening and a successful closing do to the edge itself.\<close>

lemma open_consumer_edge:
  assumes "ops_open_consumer k os graph i g e s = Some (0, e1, s1)"
  shows "if k = cv_edge_ops then e1 = e
    else if k = ring_edge_ops then \<exists>b. e1 = e\<lparr>e_buf_in := b\<rparr>
    else \<exists>fd b. e1 = e\<lparr>e_fd_in := fd, e_buf_in := b\<rparr>"
  using assms
  by (cases k) (auto simp: open_close_defs Let_def split: prod.splits if_splits option.splits)

lemma close_consumer_edge:
  assumes "ops_close_consumer k os e s = Some (0, e1, s1)"
  shows "e1 = (if k = cv_edge_ops then e else if k = ring_edge_ops then e\<lparr>e_buf_in := 0\<rparr>
    else e\<lparr>e_fd_in := 0, e_buf_in := 0\<rparr>)"
  using assms
  by (cases k) (auto simp: open_close_defs Let_def split: prod.splits if_splits)

lemma open_producer_edge:
  assumes "ops_open_producer k os graph i g e s = Some (0, e1, s1)"
  shows "if k = cv_edge_ops then e1 = e
    else if k = ring_edge_ops then \<exists>b. e1 = e\<lparr>e_buf_out := b\<rparr>
    else if k = sock_stream_edge_ops then
      \<exists>fd sfd b. e1 = e\<lparr>e_fd_out := fd, e_attr := (e_attr e)\<lparr>fd_prod_socket := sfd\<rparr>, e_buf_out := b\<rparr>
    else \<exists>fd b. e1 = e\<lparr>e_fd_out := fd, e_buf_out := b\<rparr>"
  using assms
  by (cases k) (auto simp: open_close_defs Let_def split: prod.splits if_splits option.splits)

lemma close_producer_edge:
  assumes "ops_close_producer k os e s = Some (0, e1, s1)"
  shows "e1 = (if k = cv_edge_ops then e else if k = ring_edge_ops then e\<lparr>e_buf_out := 0\<rparr>
    else if k = sock_stream_edge_ops then
      e\<lparr>e_fd_out := 0, e_attr := (e_attr e)\<lparr>fd_prod_socket := 0\<rparr>, e_buf_out := 0\<rparr>
    else e\<lparr>e_fd_out := 0, e_buf_out := 0\<rparr>)"
  using assms
  by (cases k) (auto simp: open_close_defs Let_def split: prod.splits if_splits)

text \<open>
  C29: for every kind of edge, opening an end of a closed edge and closing it again, both
  successfully and with arbitrary activity of the rest of the program in between, leaves the edge
  as it was.
\<close>

theorem open_close_roundtrip:
  assumes "e_fd_in e = 0" and "e_buf_in e = 0" and "e_fd_out e = 0" and "e_buf_out e = 0"
    and "fd_prod_socket (e_attr e) = 0"
  shows "(ops_open_consumer k os graph i g e s = Some (0, e1, s1) \<longrightarrow>
      ops_close_consumer k os e1 t = Some (0, e2, t2) \<longrightarrow> e2 = e) \<and>
    (ops_open_producer k os graph i g e s = Some (0, e1, s1) \<longrightarrow>
      ops_close_producer k os e1 t = Some (0, e2, t2) \<longrightarrow> e2 = e)"
proof (intro conjI impI)
  assume o: "ops_open_consumer k os graph i g e s = Some (0, e1, s1)"
    and c: "ops_close_consumer k os e1 t = Some (0, e2, t2)"
  show "e2 = e"
    using open_consumer_edge [OF o] close_consumer_edge [OF c] assms(1,2)
    by (auto split: if_splits)
next
  assume o: "ops_open_producer k os graph i g e s = Some (0, e1, s1)"
    and c: "ops_close_producer k os e1 t = Some (0, e2, t2)"
  show "e2 = e"
    using open_producer_edge [OF o] close_producer_edge [OF c] assms(3-5)
    by (auto split: if_splits)
qed

theorem open_close_roundtrip_witness:
  "\<exists>e1 s1 t2. ops_open_consumer mq_edge_ops sample_os 0 0 zero_graph zero_edge sample_state = Some (0, e1, s1) \<and>
    ops_close_consumer mq_edge_ops sample_os e1 s1 = Some (0, zero_edge, t2) \<and> e_buf_in e1 \<noteq> 0"
proof -
  obtain e1 s1 where o: "ops_open_consumer mq_edge_ops sample_os 0 0 zero_graph zero_edge sample_state
      = Some (0, e1, s1)" and b: "e_buf_in e1 \<noteq> 0"
    by (simp add: mq_open_consumer_def sys_def malloc_edge_buf_def pgm_malloc_def sample_os_def
        sample_state_def usermem_defs pgm_get_user_ptr_def pgm_get_mem_header_def Let_def)
  obtain e2 t2 where c: "ops_close_consumer mq_edge_ops sample_os e1 s1 = Some (0, e2, t2)"
    by (simp add: mq_close_consumer_def sys_def sample_os_def)
  have "e2 = zero_edge"
    using open_close_roundtrip [of zero_edge mq_edge_ops sample_os 0 0 zero_graph sample_state e1 s1 s1 e2 t2] o c
    by (simp add: zero_edge_def zero_attr_def)
  with o b c show ?thesis by blast
qed

text \<open>
  The producer's wait for the reader of a FIFO ends: if the system has a millisecond clock that
  \<open>time\<close> reads, that no call sets back and that \<open>usleep\<close> advances, opening the producer end returns.
\<close>

theorem fifo_open_loop_returns:
  fixes clock :: "'w \<Rightarrow> nat"
  assumes time: "\<And>w. os_time os w = int (clock w div 1000)"
    and op: "\<And>w. clock w \<le> clock (snd (os_open os p O_WRONLY w))"
    and sleep: "\<And>w. clock w < clock (os_usleep os 1000 w)"
  shows "\<exists>r. fifo_open_loop os p start_time w = Some r"
proof (induction "nat (start_time * 1000 + 61000 - int (clock w))" arbitrary: w rule: less_induct)
  case less
  obtain fd w1 where w1: "os_open os p O_WRONLY w = (fd, w1)" by fastforce
  let ?w2 = "os_usleep os 1000 w1"
  have c: "clock w < clock ?w2" using op [of w] sleep [of w1] w1 by simp
  show ?case
  proof (cases "fd = -1 \<and> os_errno os w1 = ENXIO \<and> \<not> os_time os w1 - start_time > 60")
    case True
    then have "int (clock w1 div 1000) \<le> start_time + 60" using time [of w1] by linarith
    moreover have "clock w1 < clock w1 div 1000 * 1000 + 1000"
      using div_mult_mod_eq [of "clock w1" 1000] mod_less_divisor [of 1000 "clock w1"] by linarith
    moreover have "clock w \<le> clock w1" using op [of w] w1 by simp
    ultimately have "int (clock w) < start_time * 1000 + 61000" by linarith
    with c have "nat (start_time * 1000 + 61000 - int (clock ?w2)) < nat (start_time * 1000 + 61000 - int (clock w))"
      by simp
    from less [OF this] show ?thesis
      using True w1 by (subst fifo_open_loop.simps) simp
  next
    case False
    then show ?thesis using w1 by (subst fifo_open_loop.simps) auto
  qed
qed

theorem fifo_open_loop_returns_witness:
  "\<exists>r. fifo_open_loop (\<lparr>os_errno = (\<lambda>_. ENXIO), os_malloc = (\<lambda>_ w. (0, w)), os_calloc = (\<lambda>_ w. (0, w)),
     os_free = (\<lambda>_ w. w), os_hash = (\<lambda>_. 0), os_exists = (\<lambda>_ _. False), os_remove = (\<lambda>_ w. (False, w)),
     os_mkfifo = (\<lambda>_ w. (-1, w)), os_open = (\<lambda>_ _ w. (-1, w)), os_close = (\<lambda>_ w. (-1, w)),
     os_read = (\<lambda>_ _ w. ((-1, []), w)), os_write = (\<lambda>_ _ w. (-1, w)),
     os_time = (\<lambda>w. int (w div 1000)), os_usleep = (\<lambda>_ w. w + 1), os_mq_unlink = (\<lambda>_ w. (-1, w)),
     os_mq_open = (\<lambda>_ _ _ _ w. (-1, w)), os_mq_close = (\<lambda>_ w. (-1, w)),
     os_mq_receive = (\<lambda>_ _ w. ((-1, []), w)), os_mq_send = (\<lambda>_ _ w. (-1, w)),
     os_getaddrinfo = (\<lambda>_ _ _ w. ((-1, []), w)), os_socket = (\<lambda>_ w. (-1, w)), os_connect = (\<lambda>_ _ w. (-1, w)),
     os_bind = (\<lambda>_ _ w. (-1, w)), os_listen = (\<lambda>_ w. (-1, w)), os_accept = (\<lambda>_ w. (-1, w)),
     os_recv = (\<lambda>_ _ w. ((-1, []), w)), os_send = (\<lambda>_ _ w. (-1, w))\<rparr> :: nat os) ''/tmp/g/f'' 0 0 = Some r"
  by (rule fifo_open_loop_returns [of _ "\<lambda>w. w"]) simp_all

end
