(* ===== verification/Pgm_Graph.thy ===== *)
theory Pgm_Graph
  imports Pgm_Ipc
begin

unbundle bit_operations_syntax

text \<open>
  Creation and destruction of graphs, nodes and edges (\<^verbatim>\<open>src/src/pgm.cpp\<close>, graph/node/edge
  init/destroy routines) and the lookup of a graph by name.  The bodies between locking and
  unlocking the graph's mutex are single steps.  Each operation takes the calling thread \<open>self\<close>,
  since only the thread that created the graphs may change them.

  Shown here: the structural invariant of graphs (\<open>graph_inv\<close>) that ties the per-node edge lists,
  degrees, signal masks and counters to the array of edges, and that every operation preserves it.
\<close>

section \<open>Operations\<close>

text \<open>The first index in a range that satisfies a condition.\<close>

definition first_index :: "(nat \<Rightarrow> bool) \<Rightarrow> nat \<Rightarrow> nat option" where
  "first_index P n = find P [0..<n]"

definition prepare_graph :: "string \<Rightarrow> 'w pgm_state \<Rightarrow> int \<times> graph_t \<times> 'w pgm_state" where
  "prepare_graph graph_name s =
     (case first_index (\<lambda>i. \<not> in_use (graph_of s (int i))) PGM_MAX_GRAPHS of
        None \<Rightarrow> (-1, -1, s)
      | Some i \<Rightarrow>
          let g = zero_graph\<lparr>in_use := True\<rparr> in
          if strnlen graph_name PGM_GRAPH_NAME_LEN \<le> 0 \<or>
             strnlen graph_name PGM_GRAPH_NAME_LEN > PGM_GRAPH_NAME_LEN then (-1, int i, set_graph (int i) g s)
          else (0, int i, set_graph (int i) (g\<lparr>g_name := strncpy_zeroed graph_name PGM_GRAPH_NAME_LEN\<rparr>) s))"

text \<open>\<open>open_graph\<close> compares as many characters as the requested name has.\<close>

definition open_graph :: "string \<Rightarrow> 'w pgm_state \<Rightarrow> int \<times> graph_t" where
  "open_graph graph_name s =
     (case first_index (\<lambda>i. strncmp_eq (g_name (graph_of s (int i))) graph_name (length graph_name))
             PGM_MAX_GRAPHS of
        None \<Rightarrow> (-1, -1)
      | Some i \<Rightarrow> (0, int i))"

text \<open>
  \<open>pgm_find_graph\<close>: graphs are only looked up in shared memory.  The second component is the new
  value of the handle the pointer argument leads to, if it is written.
\<close>

definition pgm_find_graph :: "string \<Rightarrow> 'w pgm_state \<Rightarrow> (int \<times> graph_t option) option" where
  "pgm_find_graph graph_name s =
     (if \<not> gGraphSharedMem s then Some (-1, None)
      else let len = strnlen graph_name PGM_GRAPH_NAME_LEN in
        if len \<le> 0 \<or> len > PGM_GRAPH_NAME_LEN then Some (-1, None)
        else if gGraphs s = None then None
        else let (ret, h) = open_graph graph_name s in Some (ret, Some h))"

definition pgm_init_graph ::
  "pid_t \<Rightarrow> string \<Rightarrow> 'w pgm_state \<Rightarrow> (int \<times> graph_t option \<times> 'w pgm_state) option"
where
  "pgm_init_graph self graph_name s =
     (if gGraphs s = None then Some (-1, None, s)
      else let len = strnlen graph_name PGM_GRAPH_NAME_LEN in
        if len \<le> 0 \<or> len > PGM_GRAPH_NAME_LEN then Some (-1, None, s)
        else if \<not> gIsGraphMaster s self then Some (-1, None, s)
        else (case pgm_find_graph graph_name s of
            None \<Rightarrow> None
          | Some (found, h) \<Rightarrow>
              if found = 0 then Some (-1, h, s)
              else let (ret, h, s) = prepare_graph graph_name s in Some (ret, Some h, s)))"

text \<open>The overloads with a numerical name print it in hexadecimal.\<close>

definition numerical_name :: "32 word \<Rightarrow> nat \<Rightarrow> string" where
  "numerical_name n len = take (len - 1) (num_str 16 (unat n))"

definition pgm_init_graph_num :: "pid_t \<Rightarrow> 32 word \<Rightarrow> 'w pgm_state \<Rightarrow> (int \<times> graph_t option \<times> 'w pgm_state) option" where
  "pgm_init_graph_num self n s = pgm_init_graph self (numerical_name n PGM_GRAPH_NAME_LEN) s"

definition pgm_find_graph_num :: "32 word \<Rightarrow> 'w pgm_state \<Rightarrow> (int \<times> graph_t option) option" where
  "pgm_find_graph_num n s = pgm_find_graph (numerical_name n PGM_GRAPH_NAME_LEN) s"

text \<open>
  \<open>pgm_init_node\<close>: the handle is written only once a slot was found.  A null handle pointer is \<open>False\<close>.
\<close>

definition pgm_init_node ::
  "pid_t \<Rightarrow> bool \<Rightarrow> graph_t \<Rightarrow> string \<Rightarrow> 'w pgm_state \<Rightarrow> (int \<times> node_t option \<times> 'w pgm_state) option"
where
  "pgm_init_node self node graph nm s =
     (if \<not> node then Some (-1, None, s)
      else with_graph s graph (-1, None, s) (\<lambda>g.
        if \<not> gIsGraphMaster s self then Some (-1, None, s)
        else let len = strnlen nm PGM_NODE_NAME_LEN in
          if len \<le> 0 \<or> len > PGM_NODE_NAME_LEN then Some (-1, None, s)
          else if nr_nodes g + 1 = PGM_MAX_NODES then Some (-1, None, s)
          else
            let i = nr_nodes g;
                n = zero_node\<lparr>owner := UNCLAIMED_NODE, n_name := strncpy_zeroed nm len, sync_ready := True\<rparr>;
                g = g\<lparr>nr_nodes := nr_nodes g + 1, nodes := (nodes g)(i := n)\<rparr>
            in Some (0, Some \<lparr>ngraph = graph, nnode = int i\<rparr>, set_graph graph g s)))"

definition pgm_init_node_num ::
  "pid_t \<Rightarrow> bool \<Rightarrow> graph_t \<Rightarrow> 32 word \<Rightarrow> 'w pgm_state \<Rightarrow> (int \<times> node_t option \<times> 'w pgm_state) option"
where
  "pgm_init_node_num self node graph n s =
     pgm_init_node self node graph (numerical_name n PGM_NODE_NAME_LEN) s"

text \<open>The checks of \<open>__pgm_init_edge\<close> that come before the graph is locked.\<close>

definition edge_attr_ok :: "edge_attr \<Rightarrow> bool" where
  "edge_attr_ok a \<longleftrightarrow>
     \<not> (etype a AND PGM_EDGE_MQ \<noteq> 0 \<and> nr_produce a \<noteq> nr_consume a) \<and>
     \<not> (etype a AND PGM_EDGE_RING \<noteq> 0 \<and> (nr_produce a \<noteq> nr_consume a \<or> attr_nmemb a = 0)) \<and>
     \<not> nr_threshold a < nr_consume a \<and>
     \<not> (nr_produce a \<le> 0 \<or> nr_consume a \<le> 0 \<or> nr_threshold a \<le> 0) \<and>
     etype a \<noteq> 0"

text \<open>The operation table selected by the type bits, in the order of the code's tests.\<close>

definition select_ops :: "edge_type \<Rightarrow> edge_ops option" where
  "select_ops t =
     (if t AND PGM_EDGE_CV \<noteq> 0 then Some cv_edge_ops
      else if t AND PGM_EDGE_FIFO \<noteq> 0 then Some fifo_edge_ops
      else if t AND PGM_EDGE_MQ \<noteq> 0 then Some mq_edge_ops
      else if t AND PGM_EDGE_RING \<noteq> 0 then Some ring_edge_ops
      else if t AND PGM_EDGE_SOCK_STREAM \<noteq> 0 then Some sock_stream_edge_ops
      else None)"

text \<open>The consumer's counters and signal mask.\<close>

definition count_in_edge :: "edge_attr \<Rightarrow> bool \<Rightarrow> pgm_node \<Rightarrow> pgm_node" where
  "count_in_edge a is_backedge nc =
     (let nc = (if is_signal_driven a then
                  let nc = nc\<lparr>nr_in_signaled := nr_in_signaled nc + 1,
                              signal_edge_mask := signal_edge_mask nc OR push_bit (nr_in nc) 1\<rparr>
                  in if is_backedge then nc\<lparr>nr_in_signaled_backedges := nr_in_signaled_backedges nc + 1\<rparr> else nc
                else nc)
      in if is_data_passing a then
           let nc = nc\<lparr>nr_in_data := nr_in_data nc + 1\<rparr>
           in if is_backedge then nc\<lparr>nr_in_data_backedges := nr_in_data_backedges nc + 1\<rparr> else nc
         else nc)"

definition add_out :: "nat \<Rightarrow> pgm_node \<Rightarrow> pgm_node" where
  "add_out i np = np\<lparr>n_out := (n_out np)(nr_out np := i), nr_out := nr_out np + 1\<rparr>"

definition add_in :: "nat \<Rightarrow> pgm_node \<Rightarrow> pgm_node" where
  "add_in i nc = nc\<lparr>n_in := (n_in nc)(nr_in nc := i), nr_in := nr_in nc + 1\<rparr>"

definition new_edge :: "nat \<Rightarrow> nat \<Rightarrow> string \<Rightarrow> edge_attr \<Rightarrow> bool \<Rightarrow> size_t \<Rightarrow> pgm_edge" where
  "new_edge p c nm a is_backedge nr_skips =
     (let e = zero_edge\<lparr>e_name := strncpy_zeroed nm (strnlen nm PGM_EDGE_NAME_LEN), e_producer := p,
                e_consumer := c, e_attr := a\<rparr>
      in if is_backedge then e\<lparr>e_is_backedge := True, e_nr_skips := nr_skips\<rparr> else e)"

text \<open>Linking edge number \<open>i\<close> into the two nodes and filling its slot.\<close>

definition link_edge :: "nat \<Rightarrow> pgm_edge \<Rightarrow> pgm_graph \<Rightarrow> pgm_graph" where
  "link_edge i e g =
     upd_edge i (\<lambda>_. e) (upd_node (e_consumer e) (add_in i) (upd_node (e_producer e) (add_out i)
       (upd_node (e_consumer e) (count_in_edge (e_attr e) (e_is_backedge e)) g)))"

text \<open>
  \<open>__pgm_init_edge\<close>.  The edge is counted before the degrees of the two nodes are checked, and
  stays counted when a later check or the initialisation of the edge fails.
\<close>

definition init_edge ::
  "'w os \<Rightarrow> pid_t \<Rightarrow> bool \<Rightarrow> node_t \<Rightarrow> node_t \<Rightarrow> string \<Rightarrow> edge_attr \<Rightarrow> bool \<Rightarrow> size_t \<Rightarrow>
   'w pgm_state \<Rightarrow> (int \<times> edge_t option \<times> 'w pgm_state) option"
where
  "init_edge os self edge producer consumer nm a is_backedge nr_skips s =
     (if \<not> edge \<or> ngraph producer \<noteq> ngraph consumer then Some (-1, None, s)
      else with_graph s (ngraph producer) (-1, None, s) (\<lambda>g.
        if \<not> gIsGraphMaster s self then Some (-1, None, s)
        else let len = strnlen nm PGM_EDGE_NAME_LEN in
          if len \<le> 0 \<or> len > PGM_EDGE_NAME_LEN then Some (-1, None, s)
          else if \<not> edge_attr_ok a then Some (-1, None, s)
          else if nr_edges g + 1 = PGM_MAX_EDGES then Some (-1, None, s)
          else if int (nr_nodes g) \<le> nnode producer \<or> int (nr_nodes g) \<le> nnode consumer
            then Some (-1, None, s)
          else
            let i = nr_edges g;
                h = Some \<lparr>egraph = ngraph producer, eedge = int i\<rparr>;
                g = g\<lparr>nr_edges := nr_edges g + 1\<rparr>
            in with_node g (nnode producer) (\<lambda>np.
              if nr_out np + 1 = PGM_MAX_OUT_DEGREE then Some (-1, h, set_graph (ngraph producer) g s)
              else with_node g (nnode consumer) (\<lambda>nc.
                if nr_in nc + 1 = PGM_MAX_IN_DEGREE then Some (-1, h, set_graph (ngraph producer) g s)
                else
                  let e = new_edge (nat (nnode producer)) (nat (nnode consumer)) nm a is_backedge nr_skips
                  in (case select_ops (etype a) of
                        None \<Rightarrow> Some (-1, h, set_graph (ngraph producer) (link_edge i e g) s)
                      | Some k \<Rightarrow>
                          let e = e\<lparr>e_ops := Some k\<rparr>; g = link_edge i e g in
                          (case ops_init k os g e s of
                             None \<Rightarrow> None
                           | Some (ret, e, s) \<Rightarrow>
                               Some (ret, h, set_graph (ngraph producer) (upd_edge i (\<lambda>_. e) g) s)))))))"

definition pgm_init_edge ::
  "'w os \<Rightarrow> pid_t \<Rightarrow> bool \<Rightarrow> node_t \<Rightarrow> node_t \<Rightarrow> string \<Rightarrow> edge_attr \<Rightarrow>
   'w pgm_state \<Rightarrow> (int \<times> edge_t option \<times> 'w pgm_state) option"
where
  "pgm_init_edge os self edge producer consumer nm a s =
     init_edge os self edge producer consumer nm a False 0 s"

definition pgm_init_edge_num ::
  "'w os \<Rightarrow> pid_t \<Rightarrow> bool \<Rightarrow> node_t \<Rightarrow> node_t \<Rightarrow> 32 word \<Rightarrow> edge_attr \<Rightarrow>
   'w pgm_state \<Rightarrow> (int \<times> edge_t option \<times> 'w pgm_state) option"
where
  "pgm_init_edge_num os self edge producer consumer n a s =
     pgm_init_edge os self edge producer consumer (numerical_name n PGM_EDGE_NAME_LEN) a s"

definition pgm_init_backedge ::
  "'w os \<Rightarrow> pid_t \<Rightarrow> bool \<Rightarrow> size_t \<Rightarrow> node_t \<Rightarrow> node_t \<Rightarrow> string \<Rightarrow> edge_attr \<Rightarrow>
   'w pgm_state \<Rightarrow> (int \<times> edge_t option \<times> 'w pgm_state) option"
where
  "pgm_init_backedge os self edge nr_skips producer consumer nm a s =
     init_edge os self edge producer consumer nm a True nr_skips s"

definition pgm_init_backedge_num ::
  "'w os \<Rightarrow> pid_t \<Rightarrow> bool \<Rightarrow> size_t \<Rightarrow> node_t \<Rightarrow> node_t \<Rightarrow> 32 word \<Rightarrow> edge_attr \<Rightarrow>
   'w pgm_state \<Rightarrow> (int \<times> edge_t option \<times> 'w pgm_state) option"
where
  "pgm_init_backedge_num os self edge nr_skips producer consumer n a s =
     pgm_init_backedge os self edge nr_skips producer consumer (numerical_name n PGM_EDGE_NAME_LEN) a s"

text \<open>
  \<open>__destroy_graph\<close>: the destroy operation of every counted edge, in order (the result is ignored; an
  edge without an operation table is a null dereference), then the nodes and the name are cleared.
\<close>

fun destroy_edges :: "'w os \<Rightarrow> nat list \<Rightarrow> pgm_graph \<Rightarrow> 'w pgm_state \<Rightarrow> (pgm_graph \<times> 'w pgm_state) option" where
  "destroy_edges os [] g s = Some (g, s)"
| "destroy_edges os (i # is) g s =
     (case e_ops (edges g i) of
        None \<Rightarrow> None
      | Some k \<Rightarrow>
          (case ops_destroy k os g (edges g i) s of
             None \<Rightarrow> None
           | Some (_, e, s) \<Rightarrow> destroy_edges os is (upd_edge i (\<lambda>_. e) g) s))"

definition destroy_graph :: "'w os \<Rightarrow> pgm_graph \<Rightarrow> 'w pgm_state \<Rightarrow> (pgm_graph \<times> 'w pgm_state) option" where
  "destroy_graph os g s =
     (case destroy_edges os [0..<nr_edges g] g s of
        None \<Rightarrow> None
      | Some (g, s) \<Rightarrow>
          Some (g\<lparr>in_use := False, nr_nodes := 0, g_name := [], nodes := (\<lambda>_. zero_node)\<rparr>, s))"

definition pgm_destroy_graph :: "'w os \<Rightarrow> pid_t \<Rightarrow> graph_t \<Rightarrow> 'w pgm_state \<Rightarrow> (int \<times> 'w pgm_state) option" where
  "pgm_destroy_graph os self graph s =
     (if \<not> gIsGraphMaster s self then Some (-1, s)
      else with_graph s graph (-1, s) (\<lambda>g.
        if list_ex (\<lambda>i. owner (nodes g i) \<noteq> UNCLAIMED_NODE) [0..<nr_nodes g] then Some (-1, s)
        else (case destroy_graph os g s of
            None \<Rightarrow> None
          | Some (g, s) \<Rightarrow> Some (0, set_graph graph g s))))"

section \<open>The structural invariant\<close>

text \<open>The edge lists of a node, as lists.\<close>

definition in_list :: "pgm_node \<Rightarrow> nat list" where
  "in_list n = map (n_in n) [0..<nr_in n]"

definition out_list :: "pgm_node \<Rightarrow> nat list" where
  "out_list n = map (n_out n) [0..<nr_out n]"

text \<open>
  An edge that is linked into its nodes has a name; a slot whose initialisation stopped at the
  degree checks is still cleared.
\<close>

definition linked :: "pgm_graph \<Rightarrow> nat \<Rightarrow> bool" where
  "linked g i \<longleftrightarrow> e_name (edges g i) \<noteq> []"

definition out_edges :: "pgm_graph \<Rightarrow> nat \<Rightarrow> nat list" where
  "out_edges g j = filter (\<lambda>i. linked g i \<and> e_producer (edges g i) = j) [0..<nr_edges g]"

definition in_edges_of :: "pgm_graph \<Rightarrow> nat \<Rightarrow> nat list" where
  "in_edges_of g j = filter (\<lambda>i. linked g i \<and> e_consumer (edges g i) = j) [0..<nr_edges g]"

text \<open>The degrees, counters and the signal mask of a node agree with its edge lists.\<close>

definition node_ok :: "(nat \<Rightarrow> pgm_edge) \<Rightarrow> nat list \<Rightarrow> nat list \<Rightarrow> pgm_node \<Rightarrow> bool" where
  "node_ok es ins outs n \<longleftrightarrow>
     in_list n = ins \<and> out_list n = outs \<and>
     nr_in n < PGM_MAX_IN_DEGREE \<and> nr_out n < PGM_MAX_OUT_DEGREE \<and>
     nr_in_signaled n = length (filter (\<lambda>i. is_signal_driven (e_attr (es i))) ins) \<and>
     nr_in_signaled_backedges n =
       length (filter (\<lambda>i. is_signal_driven (e_attr (es i)) \<and> e_is_backedge (es i)) ins) \<and>
     nr_in_data n = length (filter (\<lambda>i. is_data_passing (e_attr (es i))) ins) \<and>
     nr_in_data_backedges n =
       length (filter (\<lambda>i. is_data_passing (e_attr (es i)) \<and> e_is_backedge (es i)) ins) \<and>
     (\<forall>k. bit (signal_edge_mask n) k \<longleftrightarrow> k < length ins \<and> is_signal_driven (e_attr (es (ins ! k))))"

definition edge_ok :: "pgm_graph \<Rightarrow> nat \<Rightarrow> bool" where
  "edge_ok g i \<longleftrightarrow>
     (if linked g i then i < nr_edges g \<and> e_producer (edges g i) < nr_nodes g \<and>
        e_consumer (edges g i) < nr_nodes g \<and> edge_attr_ok (e_attr (edges g i)) \<and>
        e_ops (edges g i) = select_ops (etype (e_attr (edges g i)))
      else e_producer (edges g i) = 0 \<and> e_consumer (edges g i) = 0 \<and> e_ops (edges g i) = None)"

definition graph_inv :: "pgm_graph \<Rightarrow> bool" where
  "graph_inv g \<longleftrightarrow> nr_nodes g < PGM_MAX_NODES \<and> nr_edges g < PGM_MAX_EDGES \<and>
     (\<forall>i. edge_ok g i) \<and>
     (\<forall>j < nr_nodes g. n_name (nodes g j) \<noteq> [] \<and>
        node_ok (edges g) (in_edges_of g j) (out_edges g j) (nodes g j))"

definition state_inv :: "'w pgm_state \<Rightarrow> bool" where
  "state_inv s \<longleftrightarrow> (\<forall>graph. live_graph s graph \<longrightarrow> graph_inv (graph_of s graph))"

lemma length_in_list [simp]: "length (in_list n) = nr_in n" "length (out_list n) = nr_out n"
  by (simp_all add: in_list_def out_list_def)

text \<open>Adding an edge to a node.\<close>

lemma lists_add [simp]:
  "in_list (add_in i n) = in_list n @ [i]" "out_list (add_in i n) = out_list n"
  "in_list (add_out i n) = in_list n" "out_list (add_out i n) = out_list n @ [i]"
  "in_list (count_in_edge a b n) = in_list n" "out_list (count_in_edge a b n) = out_list n"
  by (auto simp: in_list_def out_list_def add_in_def add_out_def count_in_edge_def Let_def)

lemma node_ok_add_out:
  assumes "node_ok es ins outs n" and "nr_out n + 1 \<noteq> PGM_MAX_OUT_DEGREE"
  shows "node_ok es ins (outs @ [i]) (add_out i n)"
  using assms unfolding node_ok_def by (simp add: lists_add) (simp add: add_out_def)

lemma count_in_edge_fields:
  "nr_in (count_in_edge a b n) = nr_in n" "nr_out (count_in_edge a b n) = nr_out n"
  "n_name (count_in_edge a b n) = n_name n"
  "nr_in_signaled (count_in_edge a b n) = nr_in_signaled n + (if is_signal_driven a then 1 else 0)"
  "nr_in_data (count_in_edge a b n) = nr_in_data n + (if is_data_passing a then 1 else 0)"
  "nr_in_signaled_backedges (count_in_edge a b n) =
     nr_in_signaled_backedges n + (if is_signal_driven a \<and> b then 1 else 0)"
  "nr_in_data_backedges (count_in_edge a b n) =
     nr_in_data_backedges n + (if is_data_passing a \<and> b then 1 else 0)"
  "signal_edge_mask (count_in_edge a b n) =
     (if is_signal_driven a then signal_edge_mask n OR push_bit (nr_in n) 1 else signal_edge_mask n)"
  by (simp_all add: count_in_edge_def Let_def)

lemma bit_mask_add:
  fixes m :: "32 word"
  assumes "n < 32"
  shows "bit (m OR push_bit n 1) k \<longleftrightarrow> bit m k \<or> k = n"
  using assms by (auto simp: bit_simps)

lemma node_ok_add_in:
  assumes n: "node_ok es ins outs n" and deg: "nr_in n + 1 \<noteq> PGM_MAX_IN_DEGREE"
  shows "node_ok es (ins @ [i]) outs
    (add_in i (count_in_edge (e_attr (es i)) (e_is_backedge (es i)) n))"
proof -
  let ?n = "add_in i (count_in_edge (e_attr (es i)) (e_is_backedge (es i)) n)"
  have len: "nr_in n = length ins" and lt: "nr_in n < 31"
    using n deg length_in_list(1) [of n] by (auto simp: node_ok_def PGM_MAX_IN_DEGREE_def)
  have fields: "nr_in ?n = nr_in n + 1" "nr_out ?n = nr_out n"
    "signal_edge_mask ?n = signal_edge_mask (count_in_edge (e_attr (es i)) (e_is_backedge (es i)) n)"
    "nr_in_signaled ?n = nr_in_signaled (count_in_edge (e_attr (es i)) (e_is_backedge (es i)) n)"
    "nr_in_data ?n = nr_in_data (count_in_edge (e_attr (es i)) (e_is_backedge (es i)) n)"
    "nr_in_signaled_backedges ?n = nr_in_signaled_backedges (count_in_edge (e_attr (es i)) (e_is_backedge (es i)) n)"
    "nr_in_data_backedges ?n = nr_in_data_backedges (count_in_edge (e_attr (es i)) (e_is_backedge (es i)) n)"
    by (simp_all add: add_in_def count_in_edge_fields)
  have "bit (signal_edge_mask ?n) k \<longleftrightarrow>
      k < length (ins @ [i]) \<and> is_signal_driven (e_attr (es ((ins @ [i]) ! k)))" for k
  proof -
    have old: "bit (signal_edge_mask n) k \<longleftrightarrow> k < length ins \<and> is_signal_driven (e_attr (es (ins ! k)))"
      using n by (simp add: node_ok_def)
    show ?thesis
      unfolding fields count_in_edge_fields
      using bit_mask_add [of "nr_in n" "signal_edge_mask n" k] lt old len
      by (auto simp: nth_append)
  qed
  then show ?thesis
    using n lt unfolding node_ok_def lists_add fields count_in_edge_fields
    by (simp add: PGM_MAX_IN_DEGREE_def)
qed

lemma node_ok_cong:
  "(\<And>i. i \<in> set ins \<Longrightarrow> es i = es' i) \<Longrightarrow> node_ok es ins outs n = node_ok es' ins outs n"
  unfolding node_ok_def by (simp cong: filter_cong conj_cong)

text \<open>The parts of edges and nodes the invariant depends on.\<close>

definition edge_shape :: "pgm_edge \<Rightarrow> string \<times> nat \<times> nat \<times> bool \<times> edge_ops option \<times> edge_attr" where
  "edge_shape e = (e_name e, e_producer e, e_consumer e, e_is_backedge e, e_ops e,
     (e_attr e)\<lparr>fd_prod_socket := 0\<rparr>)"

definition node_shape :: "pgm_node \<Rightarrow> pgm_node" where
  "node_shape n = n\<lparr>nr_terminate_signals := 0, nr_terminate_msgs := 0, owner := 0, userdata := 0,
     sync_ready := False\<rparr>"

definition same_shape :: "pgm_graph \<Rightarrow> pgm_graph \<Rightarrow> bool" where
  "same_shape g g' \<longleftrightarrow> nr_nodes g' = nr_nodes g \<and> nr_edges g' = nr_edges g \<and>
     (\<forall>i. edge_shape (edges g' i) = edge_shape (edges g i)) \<and>
     (\<forall>j. node_shape (nodes g' j) = node_shape (nodes g j))"

lemma attr_shape:
  assumes "a\<lparr>fd_prod_socket := 0\<rparr> = a'\<lparr>fd_prod_socket := 0\<rparr>"
  shows "nr_produce a = nr_produce a'" "nr_consume a = nr_consume a'" "nr_threshold a = nr_threshold a'"
    "etype a = etype a'" "params a = params a'"
  using assms by (cases a; cases a'; simp)+

lemma edge_shapeD:
  assumes "edge_shape e = edge_shape e'"
  shows "e_name e = e_name e'" "e_producer e = e_producer e'" "e_consumer e = e_consumer e'"
    "e_is_backedge e = e_is_backedge e'" "e_ops e = e_ops e'" "etype (e_attr e) = etype (e_attr e')"
    "is_signal_driven (e_attr e) = is_signal_driven (e_attr e')"
    "is_data_passing (e_attr e) = is_data_passing (e_attr e')"
    "edge_attr_ok (e_attr e) = edge_attr_ok (e_attr e')"
  using assms attr_shape [of "e_attr e" "e_attr e'"]
  by (simp_all add: edge_shape_def is_signal_driven_def is_data_passing_def edge_attr_ok_def attr_nmemb_def)

lemma node_shapeD:
  assumes "node_shape n = node_shape n'"
  shows "n_name n = n_name n'" "in_list n = in_list n'" "out_list n = out_list n'" "nr_in n = nr_in n'"
    "nr_out n = nr_out n'" "nr_in_data n = nr_in_data n'" "nr_in_signaled n = nr_in_signaled n'"
    "nr_in_data_backedges n = nr_in_data_backedges n'"
    "nr_in_signaled_backedges n = nr_in_signaled_backedges n'"
    "signal_edge_mask n = signal_edge_mask n'"
  using assms by (cases n; cases n'; simp add: node_shape_def in_list_def out_list_def)+

lemma same_shape_lists:
  assumes "same_shape g g'"
  shows "linked g' i = linked g i" "in_edges_of g' j = in_edges_of g j" "out_edges g' j = out_edges g j"
proof -
  have e: "edge_shape (edges g' i) = edge_shape (edges g i)" for i
    using assms by (simp add: same_shape_def)
  have n: "nr_edges g' = nr_edges g" using assms by (simp add: same_shape_def)
  show l: "linked g' i = linked g i" for i using edge_shapeD(1) [OF e] by (simp add: linked_def)
  show "in_edges_of g' j = in_edges_of g j" "out_edges g' j = out_edges g j"
    using l edge_shapeD(2,3) [OF e] n by (simp_all add: in_edges_of_def out_edges_def)
qed

lemma node_ok_shape:
  assumes "\<And>i. edge_shape (es' i) = edge_shape (es i)" and "node_shape n' = node_shape n"
  shows "node_ok es' ins outs n' = node_ok es ins outs n"
  using edge_shapeD(4,7,8) [OF assms(1)] node_shapeD [OF assms(2)] by (simp add: node_ok_def)

lemma graph_inv_same_shape:
  assumes "same_shape g g'"
  shows "graph_inv g' = graph_inv g"
proof -
  have e: "edge_shape (edges g' i) = edge_shape (edges g i)" for i
    using assms by (simp add: same_shape_def)
  have n: "node_shape (nodes g' j) = node_shape (nodes g j)" for j
    using assms by (simp add: same_shape_def)
  have "edge_ok g' i = edge_ok g i" for i
    using same_shape_lists(1) [OF assms] edge_shapeD [OF e [of i]] assms
    by (simp add: edge_ok_def same_shape_def)
  moreover have "node_ok (edges g') (in_edges_of g' j) (out_edges g' j) (nodes g' j) =
      node_ok (edges g) (in_edges_of g j) (out_edges g j) (nodes g j)" for j
    using node_ok_shape [OF e n [of j]] same_shape_lists [OF assms] by simp
  moreover have "n_name (nodes g' j) = n_name (nodes g j)" for j
    using node_shapeD(1) [OF n] .
  ultimately show ?thesis
    using assms by (simp add: graph_inv_def same_shape_def)
qed

lemma same_shape_upd_edge:
  "edge_shape e = edge_shape (edges g i) \<Longrightarrow> same_shape g (upd_edge i (\<lambda>_. e) g)"
  by (simp add: same_shape_def upd_edge_def)

lemma same_shape_trans: "same_shape g h \<Longrightarrow> same_shape h k \<Longrightarrow> same_shape g k"
  by (simp add: same_shape_def)

text \<open>No operation of an edge changes its shape.\<close>

lemma ops_shape:
  "ops_init k os g e s = Some (ret, e', s') \<Longrightarrow> edge_shape e' = edge_shape e \<and> gGraphs s' = gGraphs s \<and> gIsGraphMaster s' = gIsGraphMaster s"
  "ops_destroy k os g e s = Some (ret, e', s') \<Longrightarrow> edge_shape e' = edge_shape e"
  subgoal
    by (cases k) (auto simp: cv_create_def fifo_create_def mq_create_def ring_init_def
        sock_stream_create_def edge_shape_def sys_def Let_def split: if_splits option.splits prod.splits)
  subgoal
    by (cases k) (auto simp: dummy_edge_op_def fifo_destroy_def mq_destroy_def ring_destroy_def
        sock_stream_destroy_def Let_def split: if_splits prod.splits)
  done

text \<open>Counting an edge without linking it, and linking the last counted edge.\<close>

lemma graph_inv_unlinked_tail: "graph_inv g \<Longrightarrow> nr_edges g \<le> i \<Longrightarrow> \<not> linked g i"
  by (auto simp: graph_inv_def edge_ok_def dest!: spec [of _ i])

lemma graph_inv_count_edge:
  assumes "graph_inv g" and "nr_edges g + 1 \<noteq> PGM_MAX_EDGES"
  shows "graph_inv (g\<lparr>nr_edges := nr_edges g + 1\<rparr>)" (is "graph_inv ?g")
proof -
  have l: "linked ?g i = linked g i" for i by (simp add: linked_def)
  have "\<not> linked g (nr_edges g)" using graph_inv_unlinked_tail [OF assms(1)] by simp
  then have "in_edges_of ?g j = in_edges_of g j" "out_edges ?g j = out_edges g j" for j
    by (simp_all add: in_edges_of_def out_edges_def linked_def)
  moreover have "edge_ok ?g i" for i
    using assms(1) by (auto simp: graph_inv_def edge_ok_def linked_def dest!: spec [of _ i] split: if_splits)
  ultimately show ?thesis
    using assms by (simp add: graph_inv_def)
qed

lemma count_add_out: "count_in_edge a b (add_out i n) = add_out i (count_in_edge a b n)"
  by (simp add: count_in_edge_def add_out_def Let_def)

lemma n_name_add [simp]:
  "n_name (add_in i n) = n_name n" "n_name (add_out i n) = n_name n"
  "n_name (count_in_edge a b n) = n_name n"
  by (simp_all add: add_in_def add_out_def count_in_edge_fields)

lemma link_edge_nodes:
  "nodes (link_edge i e g) j =
     (let c = (\<lambda>n. if j = e_consumer e then count_in_edge (e_attr e) (e_is_backedge e) n else n);
          p = (\<lambda>n. if j = e_producer e then add_out i n else n);
          a = (\<lambda>n. if j = e_consumer e then add_in i n else n)
      in a (c (p (nodes g j))))"
  by (simp add: link_edge_def upd_node_def upd_edge_def Let_def count_add_out)

lemma link_edge_fields [simp]:
  "edges (link_edge i e g) = (edges g)(i := e)" "nr_nodes (link_edge i e g) = nr_nodes g"
  "nr_edges (link_edge i e g) = nr_edges g" "in_use (link_edge i e g) = in_use g"
  "g_name (link_edge i e g) = g_name g"
  by (simp_all add: link_edge_def upd_node_def upd_edge_def)

lemma link_edge_inv:
  fixes g
  defines "i \<equiv> nr_edges g"
  assumes inv: "graph_inv g" and max: "nr_edges g + 1 \<noteq> PGM_MAX_EDGES"
    and e: "e_name e \<noteq> []" "e_producer e < nr_nodes g" "e_consumer e < nr_nodes g"
      "edge_attr_ok (e_attr e)" "e_ops e = select_ops (etype (e_attr e))"
    and deg: "nr_out (nodes g (e_producer e)) + 1 \<noteq> PGM_MAX_OUT_DEGREE"
      "nr_in (nodes g (e_consumer e)) + 1 \<noteq> PGM_MAX_IN_DEGREE"
  shows "graph_inv (link_edge i e (g\<lparr>nr_edges := nr_edges g + 1\<rparr>))" (is "graph_inv ?g")
proof -
  have lists: "in_edges_of ?g j = in_edges_of g j @ (if e_consumer e = j then [i] else [])"
    "out_edges ?g j = out_edges g j @ (if e_producer e = j then [i] else [])" for j
    using e(1) by (auto simp: in_edges_of_def out_edges_def linked_def i_def intro!: filter_cong)
  have "edge_ok ?g k" for k
  proof (cases "k = i")
    case False
    have "edge_ok g k" using inv by (simp add: graph_inv_def)
    with False show ?thesis by (auto simp: edge_ok_def linked_def split: if_splits)
  qed (use e in \<open>simp add: edge_ok_def linked_def i_def\<close>)
  moreover have "n_name (nodes ?g j) \<noteq> [] \<and> node_ok (edges ?g) (in_edges_of ?g j) (out_edges ?g j) (nodes ?g j)"
    if j: "j < nr_nodes g" for j
  proof -
    have ok: "node_ok (edges g) (in_edges_of g j) (out_edges g j) (nodes g j)" "n_name (nodes g j) \<noteq> []"
      using inv j by (simp_all add: graph_inv_def)
    have "node_ok (edges ?g) (in_edges_of g j) (out_edges g j) (nodes g j)"
      using ok(1) by (subst node_ok_cong [of _ _ "edges g"]) (auto simp: in_edges_of_def i_def)
    then have out: "node_ok (edges ?g) (in_edges_of g j) (out_edges ?g j)
        (if j = e_producer e then add_out i (nodes g j) else nodes g j)"
      using deg(1) lists(2) [of j] by (auto intro: node_ok_add_out)
    have "node_ok (edges ?g) (in_edges_of ?g j) (out_edges ?g j) (nodes ?g j)"
      using node_ok_add_in [OF out, of i] out deg(2) lists(1) [of j]
      by (auto simp: link_edge_nodes Let_def add_out_def split: if_splits)
    then show ?thesis using ok(2) by (auto simp: link_edge_nodes Let_def)
  qed
  moreover have "nr_edges g + 1 < PGM_MAX_EDGES" using inv max by (simp add: graph_inv_def)
  ultimately show ?thesis
    using inv by (simp add: graph_inv_def)
qed

section \<open>The operations keep the invariant\<close>

lemma state_inv_cong: "gGraphs s' = gGraphs s \<Longrightarrow> state_inv s' = state_inv s"
  by (simp add: state_inv_def live_graph_def is_valid_graph_def graph_of_def)

lemma live_graph_cong: "gGraphs s' = gGraphs s \<Longrightarrow> live_graph s' = live_graph s"
  by (rule ext) (simp add: live_graph_def is_valid_graph_def)

lemma graph_of_cong: "gGraphs s' = gGraphs s \<Longrightarrow> graph_of s' = graph_of s"
  by (rule ext) (simp add: graph_of_def)

lemma state_inv_set_graph:
  assumes "state_inv s" and "0 \<le> graph" and "in_use g \<Longrightarrow> graph_inv g"
  shows "state_inv (set_graph graph g s)"
  unfolding state_inv_def
proof (intro allI impI)
  fix h assume live: "live_graph (set_graph graph g s) h"
  then obtain gs where gs: "gGraphs s = Some gs" "0 \<le> h" "in_use (graph_of (set_graph graph g s) h)"
    by (elim live_graphD) (auto simp: set_graph_def)
  show "graph_inv (graph_of (set_graph graph g s) h)"
  proof (cases "h = graph")
    case True
    then show ?thesis using gs assms(3) by (simp add: graph_of_def set_graph_def)
  next
    case False
    then have ne: "nat graph \<noteq> nat h" using gs(2) assms(2) by (simp add: nat_eq_cases)
    have "live_graph s h"
      using live gs ne
      by (auto simp: live_graph_def is_valid_graph_def set_graph_def split: if_splits)
    then show ?thesis using assms(1) graph_of_set_graph_other [OF ne, of g s] by (simp add: state_inv_def)
  qed
qed

lemma live_graph_nonneg: "live_graph s graph \<Longrightarrow> 0 \<le> graph"
  by (erule live_graphD)

lemma state_invD: "state_inv s \<Longrightarrow> live_graph s graph \<Longrightarrow> graph_inv (graph_of s graph)"
  by (simp add: state_inv_def)

lemma graph_inv_empty: "graph_inv (zero_graph\<lparr>in_use := b, g_name := nm\<rparr>)"
  by (simp add: graph_inv_def edge_ok_def linked_def zero_graph_def zero_edge_def PGM_MAX_NODES_def
      PGM_MAX_EDGES_def)

lemma linkedD:
  assumes "graph_inv g" and "linked g i"
  shows "i < nr_edges g" and "e_producer (edges g i) < nr_nodes g" and "e_consumer (edges g i) < nr_nodes g"
    and "edge_attr_ok (e_attr (edges g i))" and "e_ops (edges g i) = select_ops (etype (e_attr (edges g i)))"
proof -
  have "edge_ok g i" using assms(1) by (simp add: graph_inv_def)
  then show "i < nr_edges g" and "e_producer (edges g i) < nr_nodes g" and "e_consumer (edges g i) < nr_nodes g"
    and "edge_attr_ok (e_attr (edges g i))" and "e_ops (edges g i) = select_ops (etype (e_attr (edges g i)))"
    using assms(2) by (simp_all add: edge_ok_def)
qed

lemma graph_inv_add_node:
  assumes "graph_inv g" and "nr_nodes g + 1 \<noteq> PGM_MAX_NODES" and "nm \<noteq> []"
  shows "graph_inv (g\<lparr>nr_nodes := nr_nodes g + 1, nodes := (nodes g)(nr_nodes g :=
    zero_node\<lparr>owner := t, n_name := nm, sync_ready := b\<rparr>)\<rparr>)" (is "graph_inv ?g")
proof -
  have lists: "in_edges_of ?g = in_edges_of g" "out_edges ?g = out_edges g"
    by (auto simp: in_edges_of_def out_edges_def linked_def fun_eq_iff)
  have none: "in_edges_of g (nr_nodes g) = []" "out_edges g (nr_nodes g) = []"
    using linkedD(2,3) [OF assms(1)] by (fastforce simp: in_edges_of_def out_edges_def filter_empty_conv)+
  have "edge_ok ?g i" for i
    using assms(1) by (auto simp: graph_inv_def edge_ok_def linked_def dest!: spec [of _ i] split: if_splits)
  moreover have "node_ok (edges g) [] [] (zero_node\<lparr>owner := t, n_name := nm, sync_ready := b\<rparr>)"
    by (simp add: node_ok_def in_list_def out_list_def zero_node_def PGM_MAX_IN_DEGREE_def
        PGM_MAX_OUT_DEGREE_def)
  ultimately show ?thesis
    using assms lists none by (auto simp: graph_inv_def less_Suc_eq)
qed

lemma pgm_init_node_inv:
  assumes "state_inv s" and "pgm_init_node self node graph nm s = Some (ret, h, s')"
  shows "state_inv s'"
proof (cases "s' = s")
  case False
  then have live: "live_graph s graph"
    using assms(2) by (auto simp: pgm_init_node_def with_graph_def live_graph_def split: if_splits option.splits)
  let ?g = "graph_of s graph"
  have "strnlen nm PGM_NODE_NAME_LEN \<noteq> 0" and "nr_nodes ?g + 1 \<noteq> PGM_MAX_NODES"
    and s': "s' = set_graph graph (?g\<lparr>nr_nodes := nr_nodes ?g + 1, nodes := (nodes ?g)(nr_nodes ?g :=
      zero_node\<lparr>owner := UNCLAIMED_NODE, n_name := strncpy_zeroed nm (strnlen nm PGM_NODE_NAME_LEN),
        sync_ready := True\<rparr>)\<rparr>) s"
    using False live assms(2) by (auto simp: pgm_init_node_def Let_def split: if_splits)
  then show ?thesis
    unfolding s'
    by (intro state_inv_set_graph graph_inv_add_node assms(1) live_graph_nonneg [OF live]
        state_invD [OF assms(1) live])
      (auto simp: strnlen_def strncpy_zeroed_def min_def PGM_NODE_NAME_LEN_def split: if_splits)
qed (use assms in simp)

lemma first_index_Some: "first_index P n = Some i \<Longrightarrow> i < n \<and> P i \<and> (\<forall>k < i. \<not> P k)"
  unfolding first_index_def find_Some_iff by auto

lemma first_index_None: "first_index P n = None \<longleftrightarrow> (\<forall>i < n. \<not> P i)"
  unfolding first_index_def find_None_iff by auto

lemma pgm_init_graph_inv:
  assumes "state_inv s" and "pgm_init_graph self nm s = Some (ret, h, s')"
  shows "state_inv s'"
proof -
  have "state_inv (snd (snd (prepare_graph nm s)))"
    using assms(1) graph_inv_empty [where b = True] graph_inv_empty [where b = True and nm = "g_name zero_graph"]
    by (auto simp: prepare_graph_def Let_def zero_graph_def split: option.splits intro!: state_inv_set_graph)
  then show ?thesis
    using assms by (auto simp: pgm_init_graph_def Let_def split: if_splits option.splits prod.splits)
qed

text \<open>
  The ways \<open>init_edge\<close> can end: nothing changes, the edge is only counted, or it is linked and
  possibly initialised.
\<close>

definition fresh_edge :: "node_t \<Rightarrow> node_t \<Rightarrow> string \<Rightarrow> edge_attr \<Rightarrow> bool \<Rightarrow> size_t \<Rightarrow> pgm_edge" where
  "fresh_edge producer consumer nm a b sk =
     (new_edge (nat (nnode producer)) (nat (nnode consumer)) nm a b sk)\<lparr>e_ops := select_ops (etype a)\<rparr>"

lemma new_edge_fields [simp]:
  "e_name (new_edge p c nm a b sk) = take PGM_EDGE_NAME_LEN nm" "e_producer (new_edge p c nm a b sk) = p"
  "e_consumer (new_edge p c nm a b sk) = c" "e_attr (new_edge p c nm a b sk) = a"
  "e_is_backedge (new_edge p c nm a b sk) = b" "e_ops (new_edge p c nm a b sk) = None"
  "e_nr_skips (new_edge p c nm a b sk) = (if b then sk else 0)"
  by (simp_all add: new_edge_def zero_edge_def Let_def strncpy_zeroed_strnlen)

definition can_link :: "pid_t \<Rightarrow> node_t \<Rightarrow> node_t \<Rightarrow> string \<Rightarrow> edge_attr \<Rightarrow> 'w pgm_state \<Rightarrow> bool" where
  "can_link self producer consumer nm a s \<longleftrightarrow>
     (let g = graph_of s (ngraph producer) in
      live_graph s (ngraph producer) \<and> ngraph consumer = ngraph producer \<and> gIsGraphMaster s self \<and>
      nm \<noteq> [] \<and> edge_attr_ok a \<and> nr_edges g + 1 \<noteq> PGM_MAX_EDGES \<and>
      0 \<le> nnode producer \<and> nnode producer < int (nr_nodes g) \<and>
      0 \<le> nnode consumer \<and> nnode consumer < int (nr_nodes g) \<and>
      nr_out (nodes g (nat (nnode producer))) + 1 \<noteq> PGM_MAX_OUT_DEGREE \<and>
      nr_in (nodes g (nat (nnode consumer))) + 1 \<noteq> PGM_MAX_IN_DEGREE)"

lemma init_edge_link:
  fixes producer :: node_t
  defines "h \<equiv> ngraph producer"
  assumes "can_link self producer consumer nm a s" and "nr_nodes (graph_of s h) \<le> PGM_MAX_NODES"
  shows "init_edge os self True producer consumer nm a b sk s =
    (let g = graph_of s h; i = nr_edges g; e = fresh_edge producer consumer nm a b sk;
         l = link_edge i e (g\<lparr>nr_edges := nr_edges g + 1\<rparr>); hnd = Some \<lparr>egraph = h, eedge = int i\<rparr> in
     case select_ops (etype a) of
       None \<Rightarrow> Some (-1, hnd, set_graph h l s)
     | Some k \<Rightarrow> (case ops_init k os l e s of None \<Rightarrow> None
         | Some (ret, e, s) \<Rightarrow> Some (ret, hnd, set_graph h (upd_edge i (\<lambda>_. e) l) s)))"
proof -
  note c = assms(2) [unfolded can_link_def Let_def, folded h_def]
  have len: "strnlen nm PGM_EDGE_NAME_LEN \<noteq> 0" "\<not> PGM_EDGE_NAME_LEN < strnlen nm PGM_EDGE_NAME_LEN"
    using c by (simp_all add: strnlen_def PGM_EDGE_NAME_LEN_def)
  have idx: "in_nodes (nnode producer)" "in_nodes (nnode consumer)"
    "\<not> int (nr_nodes (graph_of s h)) \<le> nnode producer" "\<not> int (nr_nodes (graph_of s h)) \<le> nnode consumer"
  proof -
    have "0 \<le> nnode producer" "0 \<le> nnode consumer" "nnode producer < int (nr_nodes (graph_of s h))"
      "nnode consumer < int (nr_nodes (graph_of s h))"
      using c by blast+
    then show "in_nodes (nnode producer)" "in_nodes (nnode consumer)"
      "\<not> int (nr_nodes (graph_of s h)) \<le> nnode producer" "\<not> int (nr_nodes (graph_of s h)) \<le> nnode consumer"
      using assms(3) unfolding in_nodes_def by linarith+
  qed
  have none: "new_edge (nat (nnode producer)) (nat (nnode consumer)) nm a b sk =
      fresh_edge producer consumer nm a b sk" if "select_ops (etype a) = None"
    using that by (simp add: fresh_edge_def new_edge_def zero_edge_def Let_def)
  have some: "(new_edge (nat (nnode producer)) (nat (nnode consumer)) nm a b sk)\<lparr>e_ops := Some k\<rparr> =
      fresh_edge producer consumer nm a b sk" if "select_ops (etype a) = Some k" for k
    using that by (simp add: fresh_edge_def)
  have live: "live_graph s h" and eq: "ngraph consumer = h" using c by blast+
  show ?thesis
    unfolding init_edge_def h_def [symmetric] with_graph_live [OF live] eq
    using c len idx none some
    by (cases "select_ops (etype a)") (simp_all add: Let_def with_node_def split: option.splits)
qed

lemma init_edge_no_link:
  fixes producer :: node_t
  defines "h \<equiv> ngraph producer"
  assumes "\<not> can_link self producer consumer nm a s \<or> \<not> edge"
    and "init_edge os self edge producer consumer nm a b sk s = Some (ret, hnd, s')"
  shows "ret = -1 \<and> (s' = s \<or> live_graph s h \<and> nr_edges (graph_of s h) + 1 \<noteq> PGM_MAX_EDGES \<and>
    s' = set_graph h ((graph_of s h)\<lparr>nr_edges := nr_edges (graph_of s h) + 1\<rparr>) s)"
proof (cases "edge \<and> ngraph consumer = ngraph producer \<and> live_graph s h")
  case False
  then show ?thesis
    using assms(3) unfolding h_def init_edge_def with_graph_def live_graph_def
    by (auto split: if_splits option.splits)
next
  case True
  then have live: "live_graph s h" and eq: "ngraph consumer = h" and edge
    unfolding h_def by metis+
  show ?thesis
    using assms(2,3) live \<open>edge\<close>
    unfolding init_edge_def can_link_def Let_def h_def [symmetric] eq with_graph_live [OF live]
    by (simp add: with_node_def in_nodes_def strnlen_def split: if_splits)
qed

lemma fresh_edge_fields [simp]:
  "e_name (fresh_edge p c nm a b sk) = take PGM_EDGE_NAME_LEN nm" "e_attr (fresh_edge p c nm a b sk) = a"
  "e_producer (fresh_edge p c nm a b sk) = nat (nnode p)" "e_consumer (fresh_edge p c nm a b sk) = nat (nnode c)"
  "e_is_backedge (fresh_edge p c nm a b sk) = b" "e_ops (fresh_edge p c nm a b sk) = select_ops (etype a)"
  by (simp_all add: fresh_edge_def)

lemma can_link_inv:
  fixes s producer
  defines "g \<equiv> graph_of s (ngraph producer)"
  assumes "graph_inv g" and "can_link self producer consumer nm a s"
  shows "graph_inv (link_edge (nr_edges g) (fresh_edge producer consumer nm a b sk)
    (g\<lparr>nr_edges := nr_edges g + 1\<rparr>))"
proof -
  have "nat (nnode producer) < nr_nodes g" "nat (nnode consumer) < nr_nodes g" "nm \<noteq> []"
    using assms(3) by (auto simp: can_link_def Let_def g_def [symmetric])
  then show ?thesis
    using assms(3) by (intro link_edge_inv assms(2)) (simp_all add: can_link_def Let_def g_def
        PGM_EDGE_NAME_LEN_def)
qed

lemma init_edge_inv:
  assumes inv: "state_inv s" and run: "init_edge os self edge producer consumer nm a b sk s = Some (ret, h, s')"
  shows "state_inv s'"
proof (cases "can_link self producer consumer nm a s \<and> edge")
  case False
  then consider "s' = s" | "live_graph s (ngraph producer)"
    "nr_edges (graph_of s (ngraph producer)) + 1 \<noteq> PGM_MAX_EDGES"
    "s' = set_graph (ngraph producer) ((graph_of s (ngraph producer))
       \<lparr>nr_edges := nr_edges (graph_of s (ngraph producer)) + 1\<rparr>) s"
    using init_edge_no_link [OF _ run] by blast
  then show ?thesis
  proof cases
    case 2
    then show ?thesis
      unfolding 2(3)
      by (intro state_inv_set_graph graph_inv_count_edge inv live_graph_nonneg state_invD)
  qed (use inv in simp)
next
  case True
  let ?g = "graph_of s (ngraph producer)" and ?e = "fresh_edge producer consumer nm a b sk"
  let ?l = "link_edge (nr_edges ?g) ?e (?g\<lparr>nr_edges := nr_edges ?g + 1\<rparr>)"
  have live: "live_graph s (ngraph producer)" using True by (simp add: can_link_def Let_def)
  note g = state_invD [OF inv live]
  then have l: "graph_inv ?l" using True by (intro can_link_inv [where self = self]) simp_all
  have nodes: "nr_nodes ?g \<le> PGM_MAX_NODES" using g by (simp add: graph_inv_def)
  have "\<exists>s1 g1. gGraphs s1 = gGraphs s \<and> same_shape ?l g1 \<and> s' = set_graph (ngraph producer) g1 s1"
  proof (cases "select_ops (etype a)")
    case None
    then have "s' = set_graph (ngraph producer) ?l s"
      using run True init_edge_link [of self producer consumer nm a s os b sk] nodes
      by (auto simp: Let_def)
    moreover have "same_shape ?l ?l" by (simp add: same_shape_def)
    ultimately show ?thesis by blast
  next
    case (Some k)
    then obtain e' s1 where o: "ops_init k os ?l ?e s = Some (ret, e', s1)"
      and s': "s' = set_graph (ngraph producer) (upd_edge (nr_edges ?g) (\<lambda>_. e') ?l) s1"
      using run True init_edge_link [of self producer consumer nm a s os b sk] nodes
      by (auto simp: Let_def split: option.splits)
    have "same_shape ?l (upd_edge (nr_edges ?g) (\<lambda>_. e') ?l)"
      using ops_shape(1) [OF o] by (intro same_shape_upd_edge) simp
    with s' ops_shape(1) [OF o] show ?thesis by blast
  qed
  then obtain s1 g1 where "gGraphs s1 = gGraphs s" "same_shape ?l g1"
    "s' = set_graph (ngraph producer) g1 s1" by blast
  then show ?thesis
    using l graph_inv_same_shape inv state_inv_cong
    by (auto intro!: state_inv_set_graph live_graph_nonneg [OF live])
qed

text \<open>Destruction.\<close>

lemma ops_destroy_defined: "\<exists>ret e' s'. ops_destroy k os g e s = Some (ret, e', s') \<and> gGraphs s' = gGraphs s"
proof -
  have free: "gGraphs (fold (free_mem os) ps s) = gGraphs s" for ps s
    by (induction ps arbitrary: s) (simp_all add: free_mem_def)
  show ?thesis
    by (cases k) (auto simp: dummy_edge_op_def fifo_destroy_def mq_destroy_def ring_destroy_def
        sock_stream_destroy_def sys_def free Let_def split: prod.splits)
qed

lemma destroy_edges_keeps_ops:
  "destroy_edges os is g s = Some (g', s') \<Longrightarrow> same_shape g g' \<and> gGraphs s' = gGraphs s"
proof (induction "is" arbitrary: g s)
  case (Cons i "is")
  then obtain k ret e s1 where k: "e_ops (edges g i) = Some k"
    "ops_destroy k os g (edges g i) s = Some (ret, e, s1)"
    "destroy_edges os is (upd_edge i (\<lambda>_. e) g) s1 = Some (g', s')"
    by (auto split: option.splits)
  moreover have "gGraphs s1 = gGraphs s"
    using ops_destroy_defined [of k os g "edges g i" s] k(2) by auto
  moreover have "same_shape g (upd_edge i (\<lambda>_. e) g)"
    using ops_shape(2) [OF k(2)] by (rule same_shape_upd_edge)
  ultimately show ?case using Cons.IH [OF k(3)] same_shape_trans by metis
qed (simp add: same_shape_def)

lemma destroy_edges_defined:
  assumes "\<And>i. i \<in> set is \<Longrightarrow> e_ops (edges g i) \<noteq> None"
  shows "\<exists>g' s'. destroy_edges os is g s = Some (g', s')"
  using assms
proof (induction "is" arbitrary: g s)
  case (Cons i "is")
  obtain k where k: "e_ops (edges g i) = Some k" using Cons.prems [of i] by auto
  obtain ret e s1 where d: "ops_destroy k os g (edges g i) s = Some (ret, e, s1)"
    using ops_destroy_defined [of k os g "edges g i" s] by blast
  have "e_ops (edges (upd_edge i (\<lambda>_. e) g) j) = e_ops (edges g j)" for j
    using edge_shapeD(5) [OF ops_shape(2) [OF d]] by (simp add: upd_edge_def)
  then show ?case using Cons.IH [of "upd_edge i (\<lambda>_. e) g" s1] Cons.prems k d by auto
qed simp

lemma destroy_edges_null:
  assumes "i \<in> set is" and "e_ops (edges g i) = None"
  shows "destroy_edges os is g s = None"
  using assms
proof (induction "is" arbitrary: g s)
  case (Cons j "is")
  show ?case
  proof (cases "e_ops (edges g j)")
    case (Some k)
    then have "i \<noteq> j" using Cons.prems(2) by auto
    obtain ret e s1 where d: "ops_destroy k os g (edges g j) s = Some (ret, e, s1)"
      using ops_destroy_defined [of k os g "edges g j" s] by blast
    have "e_ops (edges (upd_edge j (\<lambda>_. e) g) i) = None"
      using \<open>i \<noteq> j\<close> Cons.prems(2) by (simp add: upd_edge_def)
    then show ?thesis
      using Cons.IH [of "upd_edge j (\<lambda>_. e) g" s1] Cons.prems(1) \<open>i \<noteq> j\<close> Some d by auto
  qed simp
qed simp

lemma pgm_destroy_graph_inv:
  assumes inv: "state_inv s" and run: "pgm_destroy_graph os self graph s = Some (ret, s')"
  shows "state_inv s'"
proof (cases "s' = s")
  case False
  then have live: "live_graph s graph"
    using run by (auto simp: pgm_destroy_graph_def with_graph_def live_graph_def split: if_splits option.splits)
  then obtain g1 s1 where "destroy_edges os [0..<nr_edges (graph_of s graph)] (graph_of s graph) s = Some (g1, s1)"
    and s': "s' = set_graph graph (g1\<lparr>in_use := False, nr_nodes := 0, g_name := [], nodes := (\<lambda>_. zero_node)\<rparr>) s1"
    using run False by (auto simp: pgm_destroy_graph_def destroy_graph_def split: if_splits option.splits)
  then have "state_inv s1" using inv destroy_edges_keeps_ops state_inv_cong by blast
  then show ?thesis unfolding s' by (intro state_inv_set_graph live_graph_nonneg [OF live]) simp_all
qed (use inv in simp)

section \<open>Properties\<close>


text \<open>A graph with two nodes and no edge, the start of the examples.\<close>

definition two_nodes :: "addr pgm_state" where
  "two_nodes = sample_state\<lparr>gGraphs := Some ((\<lambda>_. zero_graph)(0 := zero_graph\<lparr>in_use := True,
     g_name := ''g'', nr_nodes := 2, nodes := (\<lambda>_. zero_node)(
       0 := zero_node\<lparr>owner := UNCLAIMED_NODE, n_name := ''a'', sync_ready := True\<rparr>,
       1 := zero_node\<lparr>owner := UNCLAIMED_NODE, n_name := ''b'', sync_ready := True\<rparr>)\<rparr>))\<rparr>"

lemma two_nodes_live: "live_graph two_nodes h \<longleftrightarrow> h = 0"
  by (auto simp: live_graph_def is_valid_graph_def is_valid_handle_def two_nodes_def zero_graph_def
      PGM_MAX_GRAPHS_def split: if_splits)

lemma two_nodes_inv: "state_inv two_nodes"
proof -
  have l: "\<not> linked (graph_of two_nodes 0) i" for i
    by (simp add: linked_def graph_of_def two_nodes_def zero_graph_def zero_edge_def)
  have lists: "in_edges_of (graph_of two_nodes 0) j = []" "out_edges (graph_of two_nodes 0) j = []" for j
    by (simp_all add: in_edges_of_def out_edges_def l)
  have "graph_inv (graph_of two_nodes 0)"
    unfolding graph_inv_def lists edge_ok_def
    by (simp add: l)
      (auto simp: graph_of_def two_nodes_def zero_graph_def zero_edge_def zero_node_def node_ok_def
        in_list_def out_list_def pgm_limits less_2_cases_iff)
  then show ?thesis by (simp add: state_inv_def two_nodes_live)
qed

abbreviation node0 :: node_t where "node0 \<equiv> \<lparr>ngraph = 0, nnode = 0\<rparr>"
abbreviation node1 :: node_t where "node1 \<equiv> \<lparr>ngraph = 0, nnode = 1\<rparr>"

lemma two_nodes_edge:
  "\<exists>h s'. init_edge sample_os 1 True node0 node1 ''e'' default_edge False 0 two_nodes = Some (0, h, s')"
proof -
  have c: "can_link 1 node0 node1 ''e'' default_edge two_nodes"
    by (simp add: can_link_def two_nodes_live)
      (simp add: two_nodes_def graph_of_def sample_state_def zero_graph_def zero_node_def edge_attr_ok_def
        default_edge_def zero_attr_def edge_type_defs pgm_limits)
  have "nr_nodes (graph_of two_nodes 0) \<le> PGM_MAX_NODES"
    by (simp add: two_nodes_def graph_of_def pgm_limits)
  moreover have "select_ops (etype default_edge) = Some cv_edge_ops"
    by (simp add: select_ops_def default_edge_def edge_type_defs)
  ultimately show ?thesis
    using init_edge_link [OF c] by (simp add: Let_def cv_create_def)
qed


text \<open>
  C30: the creation of an edge that stops at the degree limit of a node has already counted the edge;
  destroying the graph afterwards calls through the null operation table of that slot, whatever the
  other edges are.
\<close>

theorem degree_limit_breaks_destroy:
  fixes s producer consumer
  defines "g \<equiv> graph_of s (ngraph producer)"
  assumes "state_inv s" and "init_edge os self True producer consumer nm a b sk s = Some (ret, Some h, s')"
    and "nr_out (nodes g (nat (nnode producer))) + 1 = PGM_MAX_OUT_DEGREE \<or>
      nr_in (nodes g (nat (nnode consumer))) + 1 = PGM_MAX_IN_DEGREE"
    and "gIsGraphMaster s self" and "\<And>j. j < nr_nodes g \<Longrightarrow> owner (nodes g j) = UNCLAIMED_NODE"
  shows "ret = -1 \<and> pgm_destroy_graph os self (ngraph producer) s' = None"
proof -
  have no: "\<not> can_link self producer consumer nm a s"
    using assms(4) by (auto simp: can_link_def g_def Let_def)
  have "s' \<noteq> s"
  proof
    assume eq: "s' = s"
    have "live_graph s (ngraph producer)"
      using assms(3) by (auto simp: init_edge_def with_graph_def live_graph_def split: if_splits option.splits)
    then have "graph_of s' (ngraph producer) \<noteq> g"
      using assms(3) no
      by (auto simp: init_edge_def g_def Let_def with_node_def can_link_def in_nodes_def strnlen_def
          dest!: arg_cong [of _ _ nr_edges] split: if_splits)
    then show False by (simp add: eq g_def)
  qed
  then have ret: "ret = -1" and live: "live_graph s (ngraph producer)"
    and s': "s' = set_graph (ngraph producer) (g\<lparr>nr_edges := nr_edges g + 1\<rparr>) s"
    using init_edge_no_link [OF _ assms(3)] no by (auto simp: g_def)
  let ?g = "g\<lparr>nr_edges := nr_edges g + 1\<rparr>"
  have inv: "graph_inv g" using state_invD [OF assms(2) live] by (simp add: g_def)
  have null: "e_ops (edges ?g (nr_edges g)) = None"
    using graph_inv_unlinked_tail [OF inv, of "nr_edges g"] inv by (simp add: graph_inv_def edge_ok_def)
  have "live_graph s' (ngraph producer)" "graph_of s' (ngraph producer) = ?g"
    using live by (simp_all add: s' g_def)
  moreover have "destroy_edges os [0..<nr_edges ?g] ?g t = None" for t
    by (rule destroy_edges_null [OF _ null]) simp
  moreover have "\<not> list_ex (\<lambda>i. owner (nodes ?g i) \<noteq> UNCLAIMED_NODE) [0..<nr_nodes ?g]"
    using assms(6) by (simp add: list_ex_iff)
  ultimately show ?thesis
    using ret assms(5) by (simp add: pgm_destroy_graph_def destroy_graph_def s')
qed

text \<open>Two nodes with 31 edges from the first to the second.\<close>

definition full_edge :: pgm_edge where
  "full_edge = (new_edge 0 1 ''e'' default_edge False 0)\<lparr>e_ops := Some cv_edge_ops\<rparr>"

definition full_graph :: pgm_graph where
  "full_graph = zero_graph\<lparr>in_use := True, g_name := ''g'', nr_nodes := 2, nr_edges := 31,
     nodes := (\<lambda>_. zero_node)(
       0 := zero_node\<lparr>owner := UNCLAIMED_NODE, n_name := ''a'', nr_out := 31, n_out := id\<rparr>,
       1 := zero_node\<lparr>owner := UNCLAIMED_NODE, n_name := ''b'', nr_in := 31, n_in := id,
              nr_in_signaled := 31, signal_edge_mask := mask 31\<rparr>),
     edges := (\<lambda>i. if i < 31 then full_edge else zero_edge)\<rparr>"

definition full_state :: "addr pgm_state" where
  "full_state = sample_state\<lparr>gGraphs := Some ((\<lambda>_. zero_graph)(0 := full_graph))\<rparr>"

lemma full_edge_fields: "e_name full_edge = ''e''" "e_producer full_edge = 0" "e_consumer full_edge = 1"
  "e_attr full_edge = default_edge" "e_is_backedge full_edge = False" "e_ops full_edge = Some cv_edge_ops"
  by (simp_all add: full_edge_def PGM_EDGE_NAME_LEN_def)

lemma full_graph_inv: "graph_inv full_graph"
proof -
  have l: "linked full_graph i \<longleftrightarrow> i < 31" for i
    by (simp add: linked_def full_graph_def full_edge_fields zero_edge_def)
  have lists: "in_edges_of full_graph j = (if j = 1 then [0..<31] else [])"
    "out_edges full_graph j = (if j = 0 then [0..<31] else [])" for j
    unfolding in_edges_of_def out_edges_def l
    by (auto simp: full_graph_def full_edge_fields filter_id_conv filter_empty_conv)
  have attr: "is_signal_driven default_edge" "\<not> is_data_passing default_edge" "edge_attr_ok default_edge"
    "select_ops (etype default_edge) = Some cv_edge_ops"
    by (simp_all add: is_signal_driven_def is_data_passing_def edge_attr_ok_def select_ops_def
        default_edge_def zero_attr_def edge_type_defs)
  have ed: "edges full_graph i = (if i < 31 then full_edge else zero_edge)" for i
    by (simp add: full_graph_def)
  have "edge_ok full_graph i" for i
    unfolding edge_ok_def l ed using attr by (simp add: full_edge_fields full_graph_def zero_edge_def)
  moreover have "node_ok (edges full_graph) [] [0..<31] (nodes full_graph 0)"
    by (simp add: full_graph_def node_ok_def in_list_def out_list_def zero_node_def pgm_limits)
  moreover have "node_ok (edges full_graph) [0..<31] [] (nodes full_graph 1)"
    unfolding node_ok_def ed
    by (auto simp: full_graph_def full_edge_fields attr in_list_def out_list_def zero_node_def
        pgm_limits bit_mask_iff filter_id_conv)
  ultimately show ?thesis
    unfolding graph_inv_def lists
    by (auto simp: full_graph_def less_2_cases_iff pgm_limits)
qed

lemma full_state_live: "live_graph full_state h \<longleftrightarrow> h = 0" "graph_of full_state 0 = full_graph"
  by (auto simp: live_graph_def is_valid_graph_def is_valid_handle_def full_state_def full_graph_def
      zero_graph_def PGM_MAX_GRAPHS_def graph_of_def split: if_splits)

theorem degree_limit_breaks_destroy_witness:
  "\<exists>ret h s'. init_edge sample_os 1 True node0 node1 ''f'' default_edge False 0 full_state = Some (ret, Some h, s') \<and>
    ret = -1 \<and> pgm_destroy_graph sample_os 1 0 s' = None"
proof -
  have inv: "state_inv full_state" by (simp add: state_inv_def full_state_live full_graph_inv)
  have master: "gIsGraphMaster full_state 1" by (simp add: full_state_def sample_state_def)
  have run: "\<exists>ret h s'. init_edge sample_os 1 True node0 node1 ''f'' default_edge False 0 full_state = Some (ret, Some h, s')"
    using full_state_live(1) [of 0] master
    by (simp add: init_edge_def full_state_live(2) with_node_def in_nodes_def Let_def)
      (simp add: full_graph_def edge_attr_ok_def default_edge_def zero_attr_def edge_type_defs pgm_limits
        strnlen_def)
  have "owner (nodes full_graph j) = UNCLAIMED_NODE" if "j < nr_nodes full_graph" for j
    using that by (auto simp: full_graph_def less_2_cases_iff)
  then show ?thesis
    using run degree_limit_breaks_destroy [OF inv, of sample_os 1 node0 node1 "''f''" default_edge False 0] master
    by (fastforce simp: full_state_live(2) full_graph_def pgm_limits)
qed

text \<open>
  C28: destroying a graph whose nodes are all unclaimed and whose counted edges all have an operation
  table succeeds, frees the slot, and leaves every other graph as it was.
\<close>

theorem destroy_graph_frees:
  assumes "live_graph s graph" and "gIsGraphMaster s self"
    and "\<And>j. j < nr_nodes (graph_of s graph) \<Longrightarrow> owner (nodes (graph_of s graph) j) = UNCLAIMED_NODE"
    and "\<And>i. i < nr_edges (graph_of s graph) \<Longrightarrow> e_ops (edges (graph_of s graph) i) \<noteq> None"
  shows "\<exists>s'. pgm_destroy_graph os self graph s = Some (0, s') \<and> \<not> live_graph s' graph \<and>
    (\<forall>h. 0 \<le> h \<longrightarrow> h \<noteq> graph \<longrightarrow> graph_of s' h = graph_of s h)"
proof -
  let ?g = "graph_of s graph"
  obtain g1 s1 where d: "destroy_edges os [0..<nr_edges ?g] ?g s = Some (g1, s1)"
    using destroy_edges_defined [of "[0..<nr_edges ?g]" ?g os s] assms(4) by auto
  define g2 where "g2 = g1\<lparr>in_use := False, nr_nodes := 0, g_name := [], nodes := (\<lambda>_. zero_node)\<rparr>"
  have "\<not> list_ex (\<lambda>i. owner (nodes ?g i) \<noteq> UNCLAIMED_NODE) [0..<nr_nodes ?g]"
    using assms(3) by (simp add: list_ex_iff)
  then have run: "pgm_destroy_graph os self graph s = Some (0, set_graph graph g2 s1)"
    using assms(1,2) d by (simp add: pgm_destroy_graph_def destroy_graph_def g2_def)
  have gg: "gGraphs s1 = gGraphs s" using destroy_edges_keeps_ops [OF d] by simp
  then have "live_graph s1 graph" using assms(1) live_graph_cong by metis
  then have "\<not> live_graph (set_graph graph g2 s1) graph" by (simp add: g2_def)
  moreover have "graph_of (set_graph graph g2 s1) h = graph_of s h" if "0 \<le> h" "h \<noteq> graph" for h
    using graph_of_set_graph_other [of graph h g2 s1] graph_of_cong [OF gg] that
      live_graph_nonneg [OF assms(1)] by (simp add: nat_eq_cases)
  ultimately show ?thesis using run by blast
qed

theorem destroy_graph_frees_witness:
  "\<exists>s'. pgm_destroy_graph sample_os 1 0 two_nodes = Some (0, s') \<and> \<not> live_graph s' 0 \<and>
    (\<forall>h. 0 \<le> h \<longrightarrow> h \<noteq> 0 \<longrightarrow> graph_of s' h = graph_of two_nodes h)"
  by (rule destroy_graph_frees)
    (auto simp: two_nodes_live, auto simp: two_nodes_def sample_state_def graph_of_def zero_graph_def
      less_2_cases_iff)

lemma prepare_graph_free:
  assumes "nm \<noteq> []" and "i < PGM_MAX_GRAPHS" and "\<not> in_use (graph_of s (int i))"
  obtains k where "k < PGM_MAX_GRAPHS" and "\<not> in_use (graph_of s (int k))"
    and "prepare_graph nm s = (0, int k, set_graph (int k)
      (zero_graph\<lparr>in_use := True, g_name := take PGM_GRAPH_NAME_LEN nm\<rparr>) s)"
proof -
  let ?P = "\<lambda>i. \<not> in_use (graph_of s (int i))"
  obtain k where k: "first_index ?P PGM_MAX_GRAPHS = Some k"
    using first_index_None [of ?P PGM_MAX_GRAPHS] assms(2,3) by fastforce
  show thesis
    using first_index_Some [OF k] k assms(1)
    by (intro that [of k])
      (simp_all add: prepare_graph_def strnlen_def strncpy_zeroed_def PGM_GRAPH_NAME_LEN_def Let_def)
qed
text \<open>
  Without shared memory the check for an existing graph of the same name never finds one: two
  graphs are created under the same name, with different handles.
\<close>

theorem private_graph_names_collide:
  assumes "\<not> gGraphSharedMem s" and "gGraphs s \<noteq> None" and "gIsGraphMaster s self" and "nm \<noteq> []"
    and "i < PGM_MAX_GRAPHS" and "j < PGM_MAX_GRAPHS" and "i \<noteq> j"
    and "\<not> in_use (graph_of s (int i))" and "\<not> in_use (graph_of s (int j))"
  shows "\<exists>h1 h2 s1 s2. pgm_init_graph self nm s = Some (0, Some h1, s1) \<and>
    pgm_init_graph self nm s1 = Some (0, Some h2, s2) \<and> h1 \<noteq> h2 \<and>
    g_name (graph_of s2 h1) = g_name (graph_of s2 h2)"
proof -
  let ?g = "zero_graph\<lparr>in_use := True, g_name := take PGM_GRAPH_NAME_LEN nm\<rparr>"
  have init: "pgm_init_graph self nm t = (let (ret, h, t) = prepare_graph nm t in Some (ret, Some h, t))"
    if "\<not> gGraphSharedMem t" "gGraphs t \<noteq> None" "gIsGraphMaster t self" for t :: "'a pgm_state"
    using that assms(4)
    by (auto simp: pgm_init_graph_def pgm_find_graph_def strnlen_def PGM_GRAPH_NAME_LEN_def Let_def min_def)
  obtain k where k: "k < PGM_MAX_GRAPHS" "\<not> in_use (graph_of s (int k))"
    and p1: "prepare_graph nm s = (0, int k, set_graph (int k) ?g s)"
    using prepare_graph_free [OF assms(4,5,8)] by blast
  let ?s1 = "set_graph (int k) ?g s"
  have at: "graph_of ?s1 (int l) = (if l = k then ?g else graph_of s (int l))" for l
    using assms(2) by (auto simp: graph_of_def set_graph_def)
  obtain l where l: "l < PGM_MAX_GRAPHS" "\<not> in_use (graph_of ?s1 (int l))"
    using that [of i] that [of j] at [of i] at [of j] assms(5-9) by (cases "k = i") simp_all
  obtain m where m: "\<not> in_use (graph_of ?s1 (int m))"
    and p2: "prepare_graph nm ?s1 = (0, int m, set_graph (int m) ?g ?s1)"
    using prepare_graph_free [OF assms(4) l] by blast
  have ne: "m \<noteq> k" using m by (auto simp: at)
  have "pgm_init_graph self nm s = Some (0, Some (int k), ?s1)"
    using init [OF assms(1,2,3)] p1 by simp
  moreover have "pgm_init_graph self nm ?s1 = Some (0, Some (int m), set_graph (int m) ?g ?s1)"
    using init [of ?s1] assms(1-3) p2 by (simp add: set_graph_def)
  moreover have "g_name (graph_of (set_graph (int m) ?g ?s1) (int k)) =
      g_name (graph_of (set_graph (int m) ?g ?s1) (int m))"
    using assms(2) ne by (auto simp: graph_of_def set_graph_def)
  ultimately show ?thesis using ne by (metis of_nat_eq_iff)
qed

theorem private_graph_names_collide_witness:
  "\<exists>h1 h2 s1 s2. pgm_init_graph 1 ''g'' sample_state = Some (0, Some h1, s1) \<and>
    pgm_init_graph 1 ''g'' s1 = Some (0, Some h2, s2) \<and> h1 \<noteq> h2 \<and>
    g_name (graph_of s2 h1) = g_name (graph_of s2 h2)"
  by (rule private_graph_names_collide [of _ _ _ 0 1])
    (simp_all add: sample_state_def graph_of_def zero_graph_def PGM_MAX_GRAPHS_def)

end
