(* ===== verification/Pgm_Query.thy ===== *)
theory Pgm_Query
  imports Pgm_Graph
begin

text \<open>
  The query routines of \<^verbatim>\<open>src/src/pgm.cpp\<close>: lookup of nodes and edges by name, user data, successors,
  predecessors and incident edges, attributes, degrees and the parent relation.  A pointer
  argument that the code tests for null is a \<open>bool\<close> (is it there?), an output array is the list of the
  entries written, and an output handle or attribute is \<open>Some\<close> value when it is written.

  Shown here: what a lookup by name returns is the first node whose name extends the requested
  one, so a lookup finds a node that was just created unless an older node hides it; the listing
  routines return exactly the edges of the graph incident to the node, and the degrees count them.
\<close>

section \<open>Lookup\<close>

definition pgm_find_node :: "bool \<Rightarrow> graph_t \<Rightarrow> string \<Rightarrow> 'w pgm_state \<Rightarrow> (int \<times> node_t option) option" where
  "pgm_find_node node graph nm s =
     (if \<not> node then Some (-1, None)
      else with_graph s graph (-1, None) (\<lambda>g.
        let len = strnlen nm PGM_NODE_NAME_LEN in
        if len \<le> 0 \<or> len > PGM_NODE_NAME_LEN then Some (-1, None)
        else (case first_index (\<lambda>i. strncmp_eq (n_name (nodes g i)) nm len) (nr_nodes g) of
            None \<Rightarrow> Some (-1, None)
          | Some i \<Rightarrow> Some (0, Some \<lparr>ngraph = graph, nnode = int i\<rparr>))))"

definition pgm_find_node_num :: "bool \<Rightarrow> graph_t \<Rightarrow> 32 word \<Rightarrow> 'w pgm_state \<Rightarrow> (int \<times> node_t option) option" where
  "pgm_find_node_num node graph n s = pgm_find_node node graph (numerical_name n PGM_NODE_NAME_LEN) s"

definition joins :: "pgm_edge \<Rightarrow> node_t \<Rightarrow> node_t \<Rightarrow> bool" where
  "joins e producer consumer \<longleftrightarrow> int (e_producer e) = nnode producer \<and> int (e_consumer e) = nnode consumer"

definition pgm_find_first_edge ::
  "bool \<Rightarrow> node_t \<Rightarrow> node_t \<Rightarrow> bool \<Rightarrow> 'w pgm_state \<Rightarrow> (int \<times> edge_t option \<times> edge_attr option) option"
where
  "pgm_find_first_edge edge producer consumer attr s =
     (if \<not> edge \<or> ngraph producer \<noteq> ngraph consumer then Some (-1, None, None)
      else with_graph s (ngraph producer) (-1, None, None) (\<lambda>g.
        (case first_index (\<lambda>i. joins (edges g i) producer consumer) (nr_edges g) of
            None \<Rightarrow> Some (-1, None, None)
          | Some i \<Rightarrow> Some (0, Some \<lparr>egraph = ngraph producer, eedge = int i\<rparr>,
                            if attr then Some (e_attr (edges g i)) else None))))"

text \<open>
  \<open>pgm_find_edge\<close>: with a null name it continues with \<open>pgm_find_first_edge\<close>, without the attribute
  pointer.  A match that is not in the lists of both its nodes ends the search.
\<close>

definition pgm_find_edge ::
  "bool \<Rightarrow> node_t \<Rightarrow> node_t \<Rightarrow> string option \<Rightarrow> bool \<Rightarrow> 'w pgm_state \<Rightarrow>
   (int \<times> edge_t option \<times> edge_attr option) option"
where
  "pgm_find_edge edge producer consumer name attr s =
     (case name of
        None \<Rightarrow> pgm_find_first_edge edge producer consumer False s
      | Some nm \<Rightarrow>
          if \<not> edge \<or> ngraph producer \<noteq> ngraph consumer then Some (-1, None, None)
          else with_graph s (ngraph producer) (-1, None, None) (\<lambda>g.
            let len = strnlen nm PGM_EDGE_NAME_LEN in
            if len \<le> 0 \<or> len > PGM_EDGE_NAME_LEN then Some (-1, None, None)
            else (case first_index (\<lambda>i. joins (edges g i) producer consumer \<and>
                         strncmp_eq (e_name (edges g i)) nm len) (nr_edges g) of
                None \<Rightarrow> Some (-1, None, None)
              | Some i \<Rightarrow>
                  if i \<in> set (out_list (nodes g (nat (nnode producer)))) \<and>
                     i \<in> set (in_list (nodes g (nat (nnode consumer))))
                  then Some (0, Some \<lparr>egraph = ngraph producer, eedge = int i\<rparr>,
                             if attr then Some (e_attr (edges g i)) else None)
                  else Some (-1, None, None))))"

definition pgm_find_edge_num ::
  "bool \<Rightarrow> node_t \<Rightarrow> node_t \<Rightarrow> 32 word \<Rightarrow> bool \<Rightarrow> 'w pgm_state \<Rightarrow>
   (int \<times> edge_t option \<times> edge_attr option) option"
where
  "pgm_find_edge_num edge producer consumer n attr s =
     pgm_find_edge edge producer consumer (Some (numerical_name n PGM_EDGE_NAME_LEN)) attr s"

section \<open>User data\<close>

definition pgm_set_user_data :: "node_t \<Rightarrow> addr \<Rightarrow> 'w pgm_state \<Rightarrow> (int \<times> 'w pgm_state) option" where
  "pgm_set_user_data node udata s =
     with_graph s (ngraph node) (-1, s) (\<lambda>g. with_node g (nnode node) (\<lambda>n.
       Some (0, set_graph (ngraph node) (upd_node (nat (nnode node)) (\<lambda>n. n\<lparr>userdata := udata\<rparr>) g) s)))"

definition pgm_get_user_data :: "'w pgm_state \<Rightarrow> node_t \<Rightarrow> addr option" where
  "pgm_get_user_data s node =
     with_graph s (ngraph node) 0 (\<lambda>g. with_node g (nnode node) (\<lambda>n. Some (userdata n)))"

section \<open>Incident edges and neighbours\<close>

text \<open>
  The loop of the four listing routines: \<open>num\<close> is decremented for a skipped backedge, the other
  entries are stored one after the other.
\<close>

fun collect :: "pgm_graph \<Rightarrow> bool \<Rightarrow> (nat \<Rightarrow> 'a) \<Rightarrow> nat list \<Rightarrow> int \<Rightarrow> 'a list \<Rightarrow> int \<times> 'a list" where
  "collect g ign entry [] num step = (num, step)"
| "collect g ign entry (i # is) num step =
     (if ign \<and> e_is_backedge (edges g i) then collect g ign entry is (num - 1) step
      else collect g ign entry is num (step @ [entry i]))"

definition pgm_get_successors ::
  "node_t \<Rightarrow> bool \<Rightarrow> int \<Rightarrow> bool \<Rightarrow> 'w pgm_state \<Rightarrow> (int \<times> node_t list) option"
where
  "pgm_get_successors node successors len ign s =
     (if \<not> successors then Some (-1, [])
      else with_graph s (ngraph node) (-1, []) (\<lambda>g. with_node g (nnode node) (\<lambda>n.
        if len < int (nr_out n) then Some (-1, [])
        else Some (collect g ign (\<lambda>i. \<lparr>ngraph = ngraph node, nnode = int (e_consumer (edges g i))\<rparr>)
                     (out_list n) (int (nr_out n)) []))))"

definition pgm_get_edges_out ::
  "node_t \<Rightarrow> bool \<Rightarrow> int \<Rightarrow> bool \<Rightarrow> 'w pgm_state \<Rightarrow> (int \<times> edge_t list) option"
where
  "pgm_get_edges_out node es len ign s =
     (if \<not> es then Some (-1, [])
      else with_graph s (ngraph node) (-1, []) (\<lambda>g. with_node g (nnode node) (\<lambda>n.
        if len < int (nr_out n) then Some (-1, [])
        else Some (collect g ign (\<lambda>i. \<lparr>egraph = ngraph node, eedge = int i\<rparr>)
                     (out_list n) (int (nr_out n)) []))))"

definition pgm_get_predecessors ::
  "node_t \<Rightarrow> bool \<Rightarrow> int \<Rightarrow> bool \<Rightarrow> 'w pgm_state \<Rightarrow> (int \<times> node_t list) option"
where
  "pgm_get_predecessors node predecessors len ign s =
     (if \<not> predecessors then Some (-1, [])
      else with_graph s (ngraph node) (-1, []) (\<lambda>g. with_node g (nnode node) (\<lambda>n.
        if len < int (nr_in n) then Some (-1, [])
        else Some (collect g ign (\<lambda>i. \<lparr>ngraph = ngraph node, nnode = int (e_producer (edges g i))\<rparr>)
                     (in_list n) (int (nr_in n)) []))))"

definition pgm_get_edges_in ::
  "node_t \<Rightarrow> bool \<Rightarrow> int \<Rightarrow> bool \<Rightarrow> 'w pgm_state \<Rightarrow> (int \<times> edge_t list) option"
where
  "pgm_get_edges_in node es len ign s =
     (if \<not> es then Some (-1, [])
      else with_graph s (ngraph node) (-1, []) (\<lambda>g. with_node g (nnode node) (\<lambda>n.
        if len < int (nr_in n) then Some (-1, [])
        else Some (collect g ign (\<lambda>i. \<lparr>egraph = ngraph node, eedge = int i\<rparr>)
                     (in_list n) (int (nr_in n)) []))))"

section \<open>Names and attributes\<close>

definition pgm_get_name :: "'w pgm_state \<Rightarrow> node_t \<Rightarrow> string option option" where
  "pgm_get_name s node =
     with_graph s (ngraph node) None (\<lambda>g. with_node g (nnode node) (\<lambda>n. Some (Some (n_name n))))"

definition pgm_get_producer :: "'w pgm_state \<Rightarrow> edge_t \<Rightarrow> node_t option" where
  "pgm_get_producer s edge =
     with_graph s (egraph edge) \<lparr>ngraph = egraph edge, nnode = -1\<rparr> (\<lambda>g. with_edge g (eedge edge)
       (\<lambda>e. Some \<lparr>ngraph = egraph edge, nnode = int (e_producer e)\<rparr>))"

definition pgm_get_consumer :: "'w pgm_state \<Rightarrow> edge_t \<Rightarrow> node_t option" where
  "pgm_get_consumer s edge =
     with_graph s (egraph edge) \<lparr>ngraph = egraph edge, nnode = -1\<rparr> (\<lambda>g. with_edge g (eedge edge)
       (\<lambda>e. Some \<lparr>ngraph = egraph edge, nnode = int (e_consumer e)\<rparr>))"

text \<open>\<open>pgm_get_edge_attrs\<close> stores the attributes but returns its initial result.\<close>

definition pgm_get_edge_attrs :: "'w pgm_state \<Rightarrow> edge_t \<Rightarrow> bool \<Rightarrow> (int \<times> edge_attr option) option" where
  "pgm_get_edge_attrs s edge attrs =
     with_graph s (egraph edge) (-1, None) (\<lambda>g.
       if \<not> attrs then Some (-1, None)
       else with_edge g (eedge edge) (\<lambda>e. Some (-1, Some (e_attr e))))"

definition pgm_is_backedge :: "'w pgm_state \<Rightarrow> edge_t \<Rightarrow> bool option" where
  "pgm_is_backedge s edge =
     with_graph s (egraph edge) False (\<lambda>g. with_edge g (eedge edge) (\<lambda>e. Some (e_is_backedge e)))"

definition pgn_get_nr_skips_remaining :: "'w pgm_state \<Rightarrow> edge_t \<Rightarrow> size_t option" where
  "pgn_get_nr_skips_remaining s edge =
     with_graph s (egraph edge) 0 (\<lambda>g. with_edge g (eedge edge)
       (\<lambda>e. Some (if e_is_backedge e then e_nr_skips e else 0)))"

text \<open>A \<open>size_t\<close> returned as an \<open>int\<close>.\<close>

definition to_int :: "size_t \<Rightarrow> int" where
  "to_int x = sint (ucast x :: 32 word)"

definition pgm_get_nr_produce :: "'w pgm_state \<Rightarrow> edge_t \<Rightarrow> int option" where
  "pgm_get_nr_produce s edge =
     with_graph s (egraph edge) (-1) (\<lambda>g. with_edge g (eedge edge) (\<lambda>e. Some (to_int (nr_produce (e_attr e)))))"

definition pgm_get_nr_consume :: "'w pgm_state \<Rightarrow> edge_t \<Rightarrow> int option" where
  "pgm_get_nr_consume s edge =
     with_graph s (egraph edge) (-1) (\<lambda>g. with_edge g (eedge edge) (\<lambda>e. Some (to_int (nr_consume (e_attr e)))))"

definition pgm_get_nr_threshold :: "'w pgm_state \<Rightarrow> edge_t \<Rightarrow> int option" where
  "pgm_get_nr_threshold s edge =
     with_graph s (egraph edge) (-1) (\<lambda>g. with_edge g (eedge edge) (\<lambda>e. Some (to_int (nr_threshold (e_attr e)))))"

section \<open>Degrees and the parent relation\<close>

definition count_forward :: "pgm_graph \<Rightarrow> nat list \<Rightarrow> int" where
  "count_forward g is = fold (\<lambda>i ret. if \<not> e_is_backedge (edges g i) then ret + 1 else ret) is 0"

definition pgm_get_degree :: "'w pgm_state \<Rightarrow> node_t \<Rightarrow> bool \<Rightarrow> int option" where
  "pgm_get_degree s node ign =
     with_graph s (ngraph node) (-1) (\<lambda>g. with_node g (nnode node) (\<lambda>n.
       Some (if \<not> ign then int (nr_in n) + int (nr_out n) else count_forward g (in_list n @ out_list n))))"

definition pgm_get_degree_in :: "'w pgm_state \<Rightarrow> node_t \<Rightarrow> bool \<Rightarrow> int option" where
  "pgm_get_degree_in s node ign =
     with_graph s (ngraph node) (-1) (\<lambda>g. with_node g (nnode node) (\<lambda>n.
       Some (if \<not> ign then int (nr_in n) else count_forward g (in_list n))))"

definition pgm_get_degree_out :: "'w pgm_state \<Rightarrow> node_t \<Rightarrow> bool \<Rightarrow> int option" where
  "pgm_get_degree_out s node ign =
     with_graph s (ngraph node) (-1) (\<lambda>g. with_node g (nnode node) (\<lambda>n.
       Some (if \<not> ign then int (nr_out n) else count_forward g (out_list n))))"

definition pgm_is_parent :: "'w pgm_state \<Rightarrow> node_t \<Rightarrow> node_t \<Rightarrow> int option" where
  "pgm_is_parent s node query =
     (if ngraph node \<noteq> ngraph query then Some (-1)
      else with_graph s (ngraph node) (-1) (\<lambda>g.
        if nnode node = nnode query then Some 0
        else with_node g (nnode node) (\<lambda>n. with_node g (nnode query) (\<lambda>q.
          Some (if list_ex (\<lambda>i. \<not> e_is_backedge (edges g i) \<and> nat (nnode query) = e_producer (edges g i))
                     (in_list n)
                then 1 else 0)))))"

definition pgm_is_child :: "'w pgm_state \<Rightarrow> node_t \<Rightarrow> node_t \<Rightarrow> int option" where
  "pgm_is_child s node query = pgm_is_parent s query node"

section \<open>Lemmas\<close>

lemma live_node_index:
  assumes "graph_inv g" and "0 \<le> i" and "i < int (nr_nodes g)"
  shows "with_node g i k = k (nodes g (nat i))"
  using assms by (simp add: with_node_def in_nodes_def graph_inv_def)

lemma collect_filter:
  "collect g ign entry is num step =
    (num - int (length is) + int (length (filter (\<lambda>i. \<not> (ign \<and> e_is_backedge (edges g i))) is)),
     step @ map entry (filter (\<lambda>i. \<not> (ign \<and> e_is_backedge (edges g i))) is))"
  by (induction "is" arbitrary: num step) auto

lemma count_forward_filter:
  "count_forward g is = int (length (filter (\<lambda>i. \<not> e_is_backedge (edges g i)) is))"
proof -
  have "fold (\<lambda>i ret. if \<not> e_is_backedge (edges g i) then ret + 1 else ret) is n =
      n + int (length (filter (\<lambda>i. \<not> e_is_backedge (edges g i)) is))" for n
    by (induction "is" arbitrary: n) auto
  then show ?thesis by (simp add: count_forward_def)
qed

text \<open>The edges of a graph out of and into a node, with or without the backedges.\<close>

definition fwd_out :: "pgm_graph \<Rightarrow> bool \<Rightarrow> nat \<Rightarrow> nat list" where
  "fwd_out g ign j = filter (\<lambda>i. \<not> (ign \<and> e_is_backedge (edges g i))) (out_edges g j)"

definition fwd_in :: "pgm_graph \<Rightarrow> bool \<Rightarrow> nat \<Rightarrow> nat list" where
  "fwd_in g ign j = filter (\<lambda>i. \<not> (ign \<and> e_is_backedge (edges g i))) (in_edges_of g j)"

lemma set_fwd:
  "i \<in> set (fwd_out g ign j) \<longleftrightarrow> i < nr_edges g \<and> linked g i \<and> e_producer (edges g i) = j \<and>
     \<not> (ign \<and> e_is_backedge (edges g i))"
  "i \<in> set (fwd_in g ign j) \<longleftrightarrow> i < nr_edges g \<and> linked g i \<and> e_consumer (edges g i) = j \<and>
     \<not> (ign \<and> e_is_backedge (edges g i))"
  by (auto simp: fwd_out_def fwd_in_def out_edges_def in_edges_of_def)

lemma graph_inv_lists:
  assumes "graph_inv g" and "j < nr_nodes g"
  shows "in_list (nodes g j) = in_edges_of g j" "out_list (nodes g j) = out_edges g j"
    "nr_in (nodes g j) = length (in_edges_of g j)" "nr_out (nodes g j) = length (out_edges g j)"
proof -
  have ok: "node_ok (edges g) (in_edges_of g j) (out_edges g j) (nodes g j)"
    using assms by (simp add: graph_inv_def)
  then show "in_list (nodes g j) = in_edges_of g j" "out_list (nodes g j) = out_edges g j"
    by (simp_all add: node_ok_def)
  then show "nr_in (nodes g j) = length (in_edges_of g j)" "nr_out (nodes g j) = length (out_edges g j)"
    using length_in_list [of "nodes g j"] by simp_all
qed

lemma listing_eqs:
  fixes s node
  defines "g \<equiv> graph_of s (ngraph node)" and "j \<equiv> nat (nnode node)"
  assumes "state_inv s" and "live_graph s (ngraph node)" and "0 \<le> nnode node" and "nnode node < int (nr_nodes g)"
  shows "len \<ge> int (nr_out (nodes g j)) \<Longrightarrow> pgm_get_successors node True len ign s =
      Some (int (length (fwd_out g ign j)),
        map (\<lambda>i. \<lparr>ngraph = ngraph node, nnode = int (e_consumer (edges g i))\<rparr>) (fwd_out g ign j))"
    and "len \<ge> int (nr_out (nodes g j)) \<Longrightarrow> pgm_get_edges_out node True len ign s =
      Some (int (length (fwd_out g ign j)), map (\<lambda>i. \<lparr>egraph = ngraph node, eedge = int i\<rparr>) (fwd_out g ign j))"
    and "len \<ge> int (nr_in (nodes g j)) \<Longrightarrow> pgm_get_predecessors node True len ign s =
      Some (int (length (fwd_in g ign j)),
        map (\<lambda>i. \<lparr>ngraph = ngraph node, nnode = int (e_producer (edges g i))\<rparr>) (fwd_in g ign j))"
    and "len \<ge> int (nr_in (nodes g j)) \<Longrightarrow> pgm_get_edges_in node True len ign s =
      Some (int (length (fwd_in g ign j)), map (\<lambda>i. \<lparr>egraph = ngraph node, eedge = int i\<rparr>) (fwd_in g ign j))"
    and "pgm_get_degree_in s node ign = Some (int (length (fwd_in g ign j)))"
    and "pgm_get_degree_out s node ign = Some (int (length (fwd_out g ign j)))"
    and "pgm_get_degree s node ign = Some (int (length (fwd_in g ign j)) + int (length (fwd_out g ign j)))"
proof -
  have inv: "graph_inv g" using state_invD [OF assms(3,4)] by (simp add: g_def)
  have j: "j < nr_nodes g" using assms(5,6) by (simp add: j_def nat_less_iff)
  note l = graph_inv_lists [OF inv j]
  note node = live_node_index [OF inv assms(5,6)]
  note defs = fwd_out_def fwd_in_def collect_filter count_forward_filter
  show "len \<ge> int (nr_out (nodes g j)) \<Longrightarrow> pgm_get_successors node True len ign s =
      Some (int (length (fwd_out g ign j)),
        map (\<lambda>i. \<lparr>ngraph = ngraph node, nnode = int (e_consumer (edges g i))\<rparr>) (fwd_out g ign j))"
    using assms(4) l by (simp add: node pgm_get_successors_def defs g_def [symmetric] j_def [symmetric])
  show "len \<ge> int (nr_out (nodes g j)) \<Longrightarrow> pgm_get_edges_out node True len ign s =
      Some (int (length (fwd_out g ign j)), map (\<lambda>i. \<lparr>egraph = ngraph node, eedge = int i\<rparr>) (fwd_out g ign j))"
    using assms(4) l by (simp add: node pgm_get_edges_out_def defs g_def [symmetric] j_def [symmetric])
  show "len \<ge> int (nr_in (nodes g j)) \<Longrightarrow> pgm_get_predecessors node True len ign s =
      Some (int (length (fwd_in g ign j)),
        map (\<lambda>i. \<lparr>ngraph = ngraph node, nnode = int (e_producer (edges g i))\<rparr>) (fwd_in g ign j))"
    using assms(4) l by (simp add: node pgm_get_predecessors_def defs g_def [symmetric] j_def [symmetric])
  show "len \<ge> int (nr_in (nodes g j)) \<Longrightarrow> pgm_get_edges_in node True len ign s =
      Some (int (length (fwd_in g ign j)), map (\<lambda>i. \<lparr>egraph = ngraph node, eedge = int i\<rparr>) (fwd_in g ign j))"
    using assms(4) l by (simp add: node pgm_get_edges_in_def defs g_def [symmetric] j_def [symmetric])
  show "pgm_get_degree_in s node ign = Some (int (length (fwd_in g ign j)))"
    "pgm_get_degree_out s node ign = Some (int (length (fwd_out g ign j)))"
    "pgm_get_degree s node ign = Some (int (length (fwd_in g ign j)) + int (length (fwd_out g ign j)))"
    using assms(4) l
    by (simp_all add: node pgm_get_degree_def pgm_get_degree_in_def pgm_get_degree_out_def defs
        g_def [symmetric] j_def [symmetric])
qed

section \<open>Properties\<close>

text \<open>
  C32: successors and predecessors are dual and complete: with buffers as large as the degrees, a node
  \<open>b\<close> is listed among the successors of \<open>a\<close> exactly when the graph has an edge from \<open>a\<close> to \<open>b\<close> (other
  than a backedge, if these are ignored), exactly when \<open>a\<close> is listed among the predecessors of \<open>b\<close>.  What both
  routines return is the number of the nodes listed, not the zero their documentation promises.
\<close>

theorem successors_predecessors_dual:
  fixes s a b
  defines "g \<equiv> graph_of s (ngraph a)"
  assumes "state_inv s" and "live_graph s (ngraph a)" and "ngraph b = ngraph a"
    and "0 \<le> nnode a" and "nnode a < int (nr_nodes g)" and "0 \<le> nnode b" and "nnode b < int (nr_nodes g)"
    and "len \<ge> int PGM_MAX_OUT_DEGREE"
  shows "\<exists>ns ps. pgm_get_successors a True len ign s = Some (int (length ns), ns) \<and>
    pgm_get_predecessors b True len ign s = Some (int (length ps), ps) \<and>
    (b \<in> set ns \<longleftrightarrow> (\<exists>i < nr_edges g. linked g i \<and> joins (edges g i) a b \<and>
       \<not> (ign \<and> e_is_backedge (edges g i)))) \<and>
    (a \<in> set ps \<longleftrightarrow> b \<in> set ns)"
proof -
  let ?i = "nat (nnode a)" and ?j = "nat (nnode b)"
  have inv: "graph_inv g" using state_invD [OF assms(2,3)] by (simp add: g_def)
  have lt: "?i < nr_nodes g" "?j < nr_nodes g" using assms(5-8) by (simp_all add: nat_less_iff)
  have "nr_out (nodes g ?i) < PGM_MAX_OUT_DEGREE" "nr_in (nodes g ?j) < PGM_MAX_OUT_DEGREE"
    using inv lt by (auto simp: graph_inv_def node_ok_def PGM_MAX_OUT_DEGREE_def)
  then have len: "len \<ge> int (nr_out (nodes g ?i))" "len \<ge> int (nr_in (nodes g ?j))"
    using assms(9) by linarith+
  have live: "live_graph s (ngraph b)" using assms(3,4) by simp
  have succ: "pgm_get_successors a True len ign s = Some (int (length (fwd_out g ign ?i)),
      map (\<lambda>i. \<lparr>ngraph = ngraph a, nnode = int (e_consumer (edges g i))\<rparr>) (fwd_out g ign ?i))"
    using listing_eqs(1) [OF assms(2,3,5)] assms(6) len(1) by (simp add: g_def)
  have pred: "pgm_get_predecessors b True len ign s = Some (int (length (fwd_in g ign ?j)),
      map (\<lambda>i. \<lparr>ngraph = ngraph a, nnode = int (e_producer (edges g i))\<rparr>) (fwd_in g ign ?j))"
    using listing_eqs(3) [OF assms(2) live assms(7)] assms(4,8) len(2) by (simp add: g_def)
  have hb: "b = \<lparr>ngraph = ngraph a, nnode = int k\<rparr> \<longleftrightarrow> k = ?j" for k
    using assms(4,7) by (cases b) auto
  have ha: "a = \<lparr>ngraph = ngraph a, nnode = int k\<rparr> \<longleftrightarrow> k = ?i" for k
    using assms(5) by (cases a) auto
  have jn: "joins (edges g i) a b \<longleftrightarrow> e_producer (edges g i) = ?i \<and> e_consumer (edges g i) = ?j" for i
    using assms(5,7) by (auto simp: joins_def)
  have "b \<in> set (map (\<lambda>i. \<lparr>ngraph = ngraph a, nnode = int (e_consumer (edges g i))\<rparr>) (fwd_out g ign ?i)) \<longleftrightarrow>
      (\<exists>i < nr_edges g. linked g i \<and> joins (edges g i) a b \<and> \<not> (ign \<and> e_is_backedge (edges g i)))"
    unfolding set_map image_iff hb jn set_fwd by (auto simp: set_fwd)
  moreover have "a \<in> set (map (\<lambda>i. \<lparr>ngraph = ngraph a, nnode = int (e_producer (edges g i))\<rparr>) (fwd_in g ign ?j)) \<longleftrightarrow>
      (\<exists>i < nr_edges g. linked g i \<and> joins (edges g i) a b \<and> \<not> (ign \<and> e_is_backedge (edges g i)))"
    unfolding set_map image_iff ha jn set_fwd by (auto simp: set_fwd)
  ultimately show ?thesis
    using succ pred by (intro exI conjI) (auto simp only: length_map)
qed

lemma full_state_inv: "state_inv full_state"
  by (simp add: state_inv_def full_state_live full_graph_inv)

theorem successors_predecessors_dual_witness:
  "\<exists>ns ps. pgm_get_successors node0 True 32 False full_state = Some (int (length ns), ns) \<and>
    pgm_get_predecessors node1 True 32 False full_state = Some (int (length ps), ps) \<and>
    node1 \<in> set ns \<and> node0 \<in> set ps"
proof -
  have "\<exists>i < nr_edges full_graph. linked full_graph i \<and> joins (edges full_graph i) node0 node1 \<and>
      \<not> (False \<and> e_is_backedge (edges full_graph i))"
    by (rule exI [of _ 0]) (simp add: full_graph_def linked_def joins_def full_edge_fields)
  moreover have "nr_nodes full_graph = 2" by (simp add: full_graph_def)
  ultimately show ?thesis
    using successors_predecessors_dual [OF full_state_inv, of node0 node1 32 False]
    by (simp add: full_state_live pgm_limits) metis
qed

lemma sum_length_filter:
  fixes n :: nat
  assumes "\<And>i. i \<in> set is \<Longrightarrow> P i \<Longrightarrow> f i < n"
  shows "(\<Sum>j<n. int (length (filter (\<lambda>i. P i \<and> f i = j) is))) = int (length (filter P is))"
  using assms
proof (induction "is")
  case (Cons i "is")
  have "(\<Sum>j<n. int (length (filter (\<lambda>i. P i \<and> f i = j) (i # is)))) =
      (\<Sum>j<n. (if P i \<and> f i = j then 1 else 0) + int (length (filter (\<lambda>i. P i \<and> f i = j) is)))"
    by (rule sum.cong) auto
  also have "\<dots> = (\<Sum>j<n. if P i \<and> f i = j then 1 else 0) + int (length (filter P is))"
    using Cons by (simp add: sum.distrib)
  also have "(\<Sum>j<n. if P i \<and> f i = j then 1 else 0) = (if P i then 1 else 0 :: int)"
    using Cons.prems [of i] sum.delta' [of "{..<n}" "f i" "\<lambda>_. 1 :: int"] by (cases "P i") simp_all
  finally show ?case by simp
qed simp

text \<open>
  The handshake lemma: the in-degrees of all nodes add up to the number of linked edges, and so
  do the out-degrees; the total degree of a node is the sum of its in-degree and out-degree.
\<close>

theorem degree_handshake:
  fixes s h
  defines "g \<equiv> graph_of s h"
  assumes "state_inv s" and "live_graph s h"
  shows "(\<Sum>j<nr_nodes g. the (pgm_get_degree_in s \<lparr>ngraph = h, nnode = int j\<rparr> False)) =
      int (length (filter (linked g) [0..<nr_edges g])) \<and>
    (\<Sum>j<nr_nodes g. the (pgm_get_degree_out s \<lparr>ngraph = h, nnode = int j\<rparr> False)) =
      int (length (filter (linked g) [0..<nr_edges g])) \<and>
    (\<forall>ign. \<forall>j<nr_nodes g. pgm_get_degree s \<lparr>ngraph = h, nnode = int j\<rparr> ign =
      Some (the (pgm_get_degree_in s \<lparr>ngraph = h, nnode = int j\<rparr> ign) +
            the (pgm_get_degree_out s \<lparr>ngraph = h, nnode = int j\<rparr> ign)))"
proof -
  have inv: "graph_inv g" using state_invD [OF assms(2,3)] by (simp add: g_def)
  have eqs: "pgm_get_degree_in s \<lparr>ngraph = h, nnode = int j\<rparr> ign = Some (int (length (fwd_in g ign j)))"
    "pgm_get_degree_out s \<lparr>ngraph = h, nnode = int j\<rparr> ign = Some (int (length (fwd_out g ign j)))"
    "pgm_get_degree s \<lparr>ngraph = h, nnode = int j\<rparr> ign =
       Some (int (length (fwd_in g ign j)) + int (length (fwd_out g ign j)))"
    if "j < nr_nodes g" for j ign
    using listing_eqs(5-7) [of s "\<lparr>ngraph = h, nnode = int j\<rparr>" ign] assms that by (simp_all add: g_def)
  have "(\<Sum>j<nr_nodes g. int (length (in_edges_of g j))) = int (length (filter (linked g) [0..<nr_edges g]))"
    "(\<Sum>j<nr_nodes g. int (length (out_edges g j))) = int (length (filter (linked g) [0..<nr_edges g]))"
    unfolding in_edges_of_def out_edges_def
    by (rule sum_length_filter, use linkedD(2,3) [OF inv] in simp)+
  then show ?thesis
    using eqs by (simp add: fwd_in_def fwd_out_def)
qed

theorem degree_handshake_witness:
  "(\<Sum>j<2. the (pgm_get_degree_in full_state \<lparr>ngraph = 0, nnode = int j\<rparr> False)) = 31 \<and>
    (\<Sum>j<2. the (pgm_get_degree_out full_state \<lparr>ngraph = 0, nnode = int j\<rparr> False)) = 31"
proof -
  have l: "linked full_graph i \<longleftrightarrow> i < 31" for i
    by (simp add: linked_def full_graph_def full_edge_fields zero_edge_def)
  have "nr_nodes full_graph = 2" "nr_edges full_graph = 31" by (simp_all add: full_graph_def)
  moreover have "length (filter (linked full_graph) [0..<31]) = 31"
    by (simp add: l filter_id_conv)
  ultimately show ?thesis
    using degree_handshake [OF full_state_inv, of 0] by (simp add: full_state_live)
qed

text \<open>
  Whether a stored name matches a requested one: the lookup compares only as many characters as the requested
  name has, and of these at most \<open>PGM_NODE_NAME_LEN\<close>.
\<close>

definition begins_with :: "string \<Rightarrow> string \<Rightarrow> bool" where
  "begins_with stored q \<longleftrightarrow> take (length (take PGM_NODE_NAME_LEN q)) stored = take PGM_NODE_NAME_LEN q"

lemma strncmp_eq_begins_with: "strncmp_eq stored q (strnlen q PGM_NODE_NAME_LEN) = begins_with stored q"
  by (simp add: strncmp_eq_def begins_with_def strnlen_def min_def)

lemma find_node_eq:
  assumes "live_graph s graph"
  shows "pgm_find_node True graph q s =
    (if q = [] then Some (-1, None)
     else case first_index (\<lambda>i. begins_with (n_name (nodes (graph_of s graph) i)) q) (nr_nodes (graph_of s graph)) of
         None \<Rightarrow> Some (-1, None)
       | Some i \<Rightarrow> Some (0, Some \<lparr>ngraph = graph, nnode = int i\<rparr>))"
proof -
  have "strnlen q PGM_NODE_NAME_LEN = 0 \<longleftrightarrow> q = []" "\<not> PGM_NODE_NAME_LEN < strnlen q PGM_NODE_NAME_LEN"
    using strnlen_pos [of PGM_NODE_NAME_LEN q] strnlen_le [of q PGM_NODE_NAME_LEN] by (auto simp: pgm_limits)
  then show ?thesis
    using assms by (simp add: pgm_find_node_def Let_def strncmp_eq_begins_with del: neq0_conv)
qed

lemma find_append: "find P (xs @ ys) = (case find P xs of None \<Rightarrow> find P ys | Some x \<Rightarrow> Some x)"
  by (induction xs) auto

lemma first_index_Suc:
  "first_index P (Suc n) = (case first_index P n of None \<Rightarrow> if P n then Some n else None | Some i \<Rightarrow> Some i)"
  unfolding first_index_def by (simp add: find_append split: option.split)

lemma first_index_cong: "(\<And>i. i < n \<Longrightarrow> P i = Q i) \<Longrightarrow> first_index P n = first_index Q n"
  unfolding first_index_def by (rule find_cong) simp_all

text \<open>
  C33: what every lookup by name answers once a node was created, whatever name it asks for.  It answers the new
  node exactly when the stored name begins with the requested one and no older node's name does; in every other
  case it answers what it answered before.  So a node is found by each prefix of its name, and a node just created
  is not found by its own name when an older node's name begins with it.
\<close>

theorem find_new_node_iff:
  fixes s graph
  defines "g \<equiv> graph_of s graph"
  assumes "pgm_init_node self True graph nm s = Some (0, Some h, s')"
  shows "pgm_find_node True graph q s' =
      (if q \<noteq> [] \<and> begins_with (take PGM_NODE_NAME_LEN nm) q \<and> (\<forall>i < nr_nodes g. \<not> begins_with (n_name (nodes g i)) q)
       then Some (0, Some h) else pgm_find_node True graph q s) \<and>
    pgm_find_node True graph q s \<noteq> Some (0, Some h)"
proof -
  have live: "live_graph s graph"
    using assms(2) by (auto simp: pgm_init_node_def with_graph_def live_graph_def split: if_splits option.splits)
  let ?n = "zero_node\<lparr>owner := UNCLAIMED_NODE, n_name := take PGM_NODE_NAME_LEN nm, sync_ready := True\<rparr>"
  let ?g' = "g\<lparr>nr_nodes := Suc (nr_nodes g), nodes := (nodes g)(nr_nodes g := ?n)\<rparr>"
  have s': "s' = set_graph graph ?g' s" and h: "h = \<lparr>ngraph = graph, nnode = int (nr_nodes g)\<rparr>"
    using assms(2) live by (auto simp: pgm_init_node_def g_def Let_def strncpy_zeroed_strnlen split: if_splits)
  have live': "live_graph s' graph" "graph_of s' graph = ?g'"
    using live by (simp_all add: s' g_def)
  let ?P = "\<lambda>g i. begins_with (n_name (nodes g i)) q"
  have "first_index (?P ?g') (nr_nodes g) = first_index (?P g) (nr_nodes g)"
    by (rule first_index_cong) simp
  then have "first_index (?P ?g') (nr_nodes ?g') = (case first_index (?P g) (nr_nodes g) of
      None \<Rightarrow> if begins_with (take PGM_NODE_NAME_LEN nm) q then Some (nr_nodes g) else None | Some i \<Rightarrow> Some i)"
    by (simp add: first_index_Suc)
  note find = find_node_eq [OF live, of q, folded g_def]
    find_node_eq [OF live'(1), of q, unfolded live'(2), unfolded this]
  show ?thesis
  proof (cases "first_index (?P g) (nr_nodes g)")
    case None
    then show ?thesis
      using first_index_None [of "?P g" "nr_nodes g"] unfolding find h by simp
  next
    case (Some i)
    from first_index_Some [OF this] have "i < nr_nodes g" "\<not> (\<forall>i < nr_nodes g. \<not> ?P g i)"
      by blast+
    with Some show ?thesis
      unfolding find h by simp
  qed
qed

text \<open>In a graph with the nodes \<open>a\<close> and \<open>b\<close> a node \<open>cd\<close> is created; a lookup for \<open>c\<close> then finds it.\<close>

theorem find_new_node_iff_witness:
  "\<exists>h s'. pgm_init_node 1 True 0 ''cd'' two_nodes = Some (0, Some h, s') \<and>
    pgm_find_node True 0 ''c'' s' = Some (0, Some h) \<and> pgm_find_node True 0 ''x'' s' = pgm_find_node True 0 ''x'' two_nodes"
proof -
  have live: "live_graph two_nodes 0" by (simp add: two_nodes_live)
  have "gIsGraphMaster two_nodes 1" "nr_nodes (graph_of two_nodes 0) = 2"
    by (simp_all add: two_nodes_def sample_state_def graph_of_def)
  then have "\<exists>h s'. pgm_init_node 1 True 0 ''cd'' two_nodes = Some (0, Some h, s')"
    using live by (simp add: pgm_init_node_def strnlen_def pgm_limits Let_def)
  then obtain h s' where run: "pgm_init_node 1 True 0 ''cd'' two_nodes = Some (0, Some h, s')" by blast
  have "\<forall>i < nr_nodes (graph_of two_nodes 0). \<not> begins_with (n_name (nodes (graph_of two_nodes 0) i)) ''c''"
    by (auto simp: two_nodes_def graph_of_def less_2_cases_iff begins_with_def pgm_limits)
  then show ?thesis
    using run find_new_node_iff [OF run, of "''c''"] find_new_node_iff [OF run, of "''x''"]
    by (auto simp: pgm_limits begins_with_def)
qed

text \<open>
  \<open>pgm_get_edge_attrs\<close> reports failure in every case, also when it stores the attributes.
\<close>

theorem get_edge_attrs_reports_failure:
  assumes "pgm_get_edge_attrs s edge attrs = Some (ret, a)"
  shows "ret = -1 \<and> (live_graph s (egraph edge) \<and> attrs \<longrightarrow>
    a = Some (e_attr (edges (graph_of s (egraph edge)) (nat (eedge edge)))))"
  using assms
  by (auto simp: pgm_get_edge_attrs_def with_graph_def with_edge_def live_graph_def
      split: option.splits if_splits)

theorem get_edge_attrs_reports_failure_witness:
  "\<exists>ret a. pgm_get_edge_attrs full_state \<lparr>egraph = 0, eedge = 0\<rparr> True = Some (ret, a) \<and> ret = -1 \<and>
    a = Some default_edge"
proof -
  obtain ret a where run: "pgm_get_edge_attrs full_state \<lparr>egraph = 0, eedge = 0\<rparr> True = Some (ret, a)"
    using full_state_live(1) [of 0]
    by (simp add: pgm_get_edge_attrs_def with_edge_def in_edges_def PGM_MAX_EDGES_def)
  have "e_attr (edges full_graph 0) = default_edge" by (simp add: full_graph_def full_edge_fields)
  then show ?thesis
    using run get_edge_attrs_reports_failure [OF run] full_state_live by auto
qed

end
