(* ===== verification/Pgm_Dag.thy ===== *)
theory Pgm_Dag
  imports Pgm_Query
begin

text \<open>
  The two graph searches of \<^verbatim>\<open>src/src/pgm.cpp\<close>: \<open>pgm_is_ancestor\<close>, a depth-first search along the
  incoming edges with a set of visited node indices, and \<open>pgm_is_dag\<close>, a depth-first search along the
  outgoing edges with sets of visited names and of names on the current path.  Both terminate
  because the visited set grows with every call and is bounded by the array of nodes; \<open>None\<close> is an
  index outside that array, or a node name that fills its array and has no terminating NUL.

  Shown here: the first decides reachability, and the second decides acyclicity when the names of
  the nodes are distinct; with equal names its answer can be wrong.
\<close>

section \<open>Ancestors\<close>

text \<open>
  The loop over the incoming edges in \<open>is_ancestor\<close>; the recursive call on the parent is unfolded
  (\<open>is_ancestor\<close> below).  The result carries the visited set, which the code passes by reference.
\<close>

function ancestor_loop :: "pgm_graph \<Rightarrow> nat \<Rightarrow> nat list \<Rightarrow> nat set \<Rightarrow> (bool \<times> nat set) option" where
  "ancestor_loop g q [] visited = Some (False, visited)"
| "ancestor_loop g q (i # is) visited =
     (if e_is_backedge (edges g i) then ancestor_loop g q is visited
      else let parent = e_producer (edges g i) in
        if parent \<in> visited then ancestor_loop g q is visited
        else if \<not> parent < PGM_MAX_NODES then None
        else if parent = q then Some (True, insert parent visited)
        else (case ancestor_loop g q (in_list (nodes g parent)) (insert parent visited) of
            None \<Rightarrow> None
          | Some (found, visited') \<Rightarrow>
              if found then Some (True, visited') else ancestor_loop g q is visited'))"
  by pat_completeness auto

lemma card_unvisited:
  "p < n \<Longrightarrow> p \<notin> V \<Longrightarrow> card ({..<n} - insert p V) < card ({..<n} - V)" for p n :: nat
  by (rule psubset_card_mono) auto

lemma card_unvisited_mono: "V \<subseteq> W \<Longrightarrow> card ({..<n} - W) \<le> card ({..<n} - V)" for n :: nat
  by (rule card_mono) auto

lemma ancestor_loop_grows:
  "ancestor_loop_dom (g, q, is, V) \<Longrightarrow> ancestor_loop g q is V = Some (b, V') \<Longrightarrow> V \<subseteq> V'"
proof (induction g q "is" V arbitrary: b V' rule: ancestor_loop.pinduct)
  case (2 g q i "is" visited)
  let ?p = "e_producer (edges g i)"
  note eq = ancestor_loop.psimps(2) [OF "2.hyps"]
  show ?case
  proof (cases "e_is_backedge (edges g i) \<or> ?p \<in> visited")
    case True
    then have "ancestor_loop g q is visited = Some (b, V')" using "2.prems" eq
      by (auto simp: Let_def split: if_splits)
    then show ?thesis using True "2.IH"(1) "2.IH"(2) [OF _ refl] by blast
  next
    case False
    then have p: "?p < PGM_MAX_NODES" using "2.prems" eq by (auto simp: Let_def split: if_splits)
    show ?thesis
    proof (cases "?p = q")
      case True
      then show ?thesis using False p "2.prems" eq by auto
    next
      case ne: False
      then obtain f W where r: "ancestor_loop g q (in_list (nodes g ?p)) (insert ?p visited) = Some (f, W)"
        using False p "2.prems" eq by (auto simp: Let_def split: option.splits)
      then have W: "insert ?p visited \<subseteq> W" using "2.IH"(3) False p ne by blast
      show ?thesis
      proof (cases f)
        case True
        then show ?thesis using W r False p ne "2.prems" eq by auto
      next
        case nf: False
        then have "ancestor_loop g q is W = Some (b, V')" using r False p ne "2.prems" eq by simp
        then have "W \<subseteq> V'" using "2.IH"(4) r nf False p ne by blast
        with W show ?thesis by blast
      qed
    qed
  qed
qed (simp add: ancestor_loop.psimps)

termination ancestor_loop
proof (relation "measures [\<lambda>(g, q, is, V). card ({..<PGM_MAX_NODES} - V), \<lambda>(g, q, is, V). length is]", goal_cases)
  case (4 g q i "is" visited parent)
  then show ?case using card_unvisited [of parent PGM_MAX_NODES visited] by simp
next
  case (5 g q i "is" visited parent r found visited')
  then have "insert parent visited \<subseteq> visited'" using ancestor_loop_grows by blast
  then have "card ({..<PGM_MAX_NODES} - visited') \<le> card ({..<PGM_MAX_NODES} - insert parent visited)"
    by (rule card_unvisited_mono)
  then show ?case using 5 card_unvisited [of parent PGM_MAX_NODES visited] by simp
qed auto

definition is_ancestor :: "pgm_graph \<Rightarrow> nat \<Rightarrow> nat \<Rightarrow> nat set \<Rightarrow> (bool \<times> nat set) option" where
  "is_ancestor g n q visited =
     (if n = q then Some (True, visited) else ancestor_loop g q (in_list (nodes g n)) visited)"

definition pgm_is_ancestor :: "'w pgm_state \<Rightarrow> node_t \<Rightarrow> node_t \<Rightarrow> int option" where
  "pgm_is_ancestor s node query =
     (if ngraph node \<noteq> ngraph query then Some (-1)
      else with_graph s (ngraph node) (-1) (\<lambda>g.
        if nnode node = nnode query then Some 0
        else with_node g (nnode node) (\<lambda>n. with_node g (nnode query) (\<lambda>q.
          map_option (\<lambda>(found, _). if found then 1 else 0)
            (is_ancestor g (nat (nnode node)) (nat (nnode query)) {})))))"

definition pgm_is_descendant :: "'w pgm_state \<Rightarrow> node_t \<Rightarrow> node_t \<Rightarrow> int option" where
  "pgm_is_descendant s node query = pgm_is_ancestor s query node"

text \<open>The relation the search follows: from a node to its parents by edges that are not backedges.\<close>

definition parent_rel :: "pgm_graph \<Rightarrow> nat rel" where
  "parent_rel g = {(c, p). \<exists>i \<in> set (in_list (nodes g c)). \<not> e_is_backedge (edges g i) \<and> e_producer (edges g i) = p}"

lemma ancestor_loop_defined:
  assumes "graph_inv g" and "\<And>i. i \<in> set is \<Longrightarrow> linked g i"
  shows "\<exists>b V'. ancestor_loop g q is V = Some (b, V')"
  using assms
proof (induction g q "is" V rule: ancestor_loop.induct)
  case (2 g q i "is" visited)
  let ?p = "e_producer (edges g i)"
  have lp: "?p < nr_nodes g" "?p < PGM_MAX_NODES"
    using linkedD(2) [OF "2.prems"(1), of i] "2.prems" by (auto simp: graph_inv_def)
  have ins: "linked g j" if "j \<in> set (in_list (nodes g ?p))" for j
    using that graph_inv_lists(1) [OF "2.prems"(1) lp(1)] by (simp add: in_edges_of_def)
  have rest: "\<And>j. j \<in> set is \<Longrightarrow> linked g j" using "2.prems"(2) by simp
  show ?case
  proof (cases "e_is_backedge (edges g i) \<or> ?p \<in> visited")
    case True
    then have "\<exists>b V'. ancestor_loop g q is visited = Some (b, V')"
      using "2.IH"(1) "2.IH"(2) [OF _ refl] "2.prems"(1) rest by blast
    then show ?thesis using True by (auto simp: Let_def)
  next
    case False
    show ?thesis
    proof (cases "?p = q")
      case True
      then show ?thesis using False lp by auto
    next
      case ne: False
      obtain f W where r: "ancestor_loop g q (in_list (nodes g ?p)) (insert ?p visited) = Some (f, W)"
        using "2.IH"(3) [OF _ refl] "2.prems"(1) ins False lp ne by blast
      have "\<exists>b V'. ancestor_loop g q is W = Some (b, V')" if "\<not> f"
        using "2.IH"(4) [OF _ refl _ _ _ r refl that] "2.prems"(1) rest False lp ne by blast
      then show ?thesis using False lp ne r by auto
    qed
  qed
qed auto

lemma ancestor_loop_sound:
  "ancestor_loop g q is V = Some (True, V') \<Longrightarrow>
    \<exists>i \<in> set is. \<not> e_is_backedge (edges g i) \<and> (e_producer (edges g i), q) \<in> (parent_rel g)\<^sup>*"
proof (induction g q "is" V arbitrary: V' rule: ancestor_loop.induct)
  case (2 g q i "is" visited)
  let ?p = "e_producer (edges g i)"
  show ?case
  proof (cases "e_is_backedge (edges g i) \<or> ?p \<in> visited")
    case True
    then have "ancestor_loop g q is visited = Some (True, V')" using "2.prems"
      by (auto simp: Let_def split: if_splits)
    then show ?thesis using True "2.IH"(1) "2.IH"(2) [OF _ refl] by fastforce
  next
    case False
    then have p: "?p < PGM_MAX_NODES" using "2.prems" by (auto simp: Let_def split: if_splits)
    show ?thesis
    proof (cases "?p = q")
      case True
      then show ?thesis using False by auto
    next
      case ne: False
      obtain f W where r: "ancestor_loop g q (in_list (nodes g ?p)) (insert ?p visited) = Some (f, W)"
        using "2.prems" False p ne by (auto simp: Let_def split: option.splits)
      show ?thesis
      proof (cases f)
        case True
        then obtain j where "j \<in> set (in_list (nodes g ?p))" "\<not> e_is_backedge (edges g j)"
          "(e_producer (edges g j), q) \<in> (parent_rel g)\<^sup>*"
          using "2.IH"(3) [OF _ refl _ _ _ r [unfolded eqTrueI [OF True]]] False p ne by blast
        then have "(?p, q) \<in> (parent_rel g)\<^sup>*"
          by (intro converse_rtrancl_into_rtrancl [of ?p "e_producer (edges g j)"]) (auto simp: parent_rel_def)
        then show ?thesis using False by auto
      next
        case nf: False
        then have "ancestor_loop g q is W = Some (True, V')" using r False p ne "2.prems" by simp
        then show ?thesis using "2.IH"(4) [OF _ refl _ _ _ r refl nf] False p ne by fastforce
      qed
    qed
  qed
qed simp

text \<open>What a search that found nothing leaves: it kept what was visited, it visited the producers of the edges
it was given, and no node it added is the queried one or has an unvisited parent.\<close>

definition explored :: "pgm_graph \<Rightarrow> nat \<Rightarrow> nat list \<Rightarrow> nat set \<Rightarrow> nat set \<Rightarrow> bool" where
  "explored g q is V V' \<longleftrightarrow> V \<subseteq> V' \<and>
     (\<forall>i \<in> set is. \<not> e_is_backedge (edges g i) \<longrightarrow> e_producer (edges g i) \<in> V') \<and>
     (\<forall>x \<in> V' - V. x \<noteq> q \<and> parent_rel g `` {x} \<subseteq> V')"

lemma explored_skip:
  "e_is_backedge (edges g i) \<or> e_producer (edges g i) \<in> V \<Longrightarrow> explored g q is V V' \<Longrightarrow> explored g q (i # is) V V'"
  unfolding explored_def by auto

lemma explored_parent:
  assumes first: "explored g q (in_list (nodes g p)) (insert p V) W" and rest: "explored g q is W V'"
    and p: "p = e_producer (edges g i)" "p \<noteq> q"
  shows "explored g q (i # is) V V'"
proof -
  have pW: "parent_rel g `` {p} \<subseteq> W" using first by (auto simp: explored_def parent_rel_def)
  have WV: "insert p V \<subseteq> W" "W \<subseteq> V'" using first rest by (auto simp: explored_def)
  have "x \<noteq> q \<and> parent_rel g `` {x} \<subseteq> V'" if x: "x \<in> V' - V" for x
  proof (cases "x \<in> W")
    case True
    then have "x \<noteq> q \<and> parent_rel g `` {x} \<subseteq> W"
      using first pW p(2) x by (cases "x = p") (auto simp: explored_def)
    then show ?thesis using WV(2) by blast
  next
    case False
    then show ?thesis using rest x by (auto simp: explored_def)
  qed
  moreover have "\<forall>j \<in> set is. \<not> e_is_backedge (edges g j) \<longrightarrow> e_producer (edges g j) \<in> V'"
    using rest by (simp add: explored_def)
  ultimately show ?thesis using WV p(1) by (auto simp: explored_def)
qed

lemma ancestor_loop_complete: "ancestor_loop g q is V = Some (False, V') \<Longrightarrow> explored g q is V V'"
proof (induction g q "is" V arbitrary: V' rule: ancestor_loop.induct)
  case (2 g q i "is" visited)
  let ?p = "e_producer (edges g i)"
  show ?case
  proof (cases "e_is_backedge (edges g i) \<or> ?p \<in> visited")
    case True
    then have "ancestor_loop g q is visited = Some (False, V')" using "2.prems"
      by (auto simp: Let_def split: if_splits)
    then have "explored g q is visited V'" using True "2.IH"(1) "2.IH"(2) [OF _ refl] by blast
    with True show ?thesis by (rule explored_skip)
  next
    case False
    then have p: "?p < PGM_MAX_NODES" "?p \<noteq> q" using "2.prems" by (auto simp: Let_def split: if_splits)
    obtain W where r: "ancestor_loop g q (in_list (nodes g ?p)) (insert ?p visited) = Some (False, W)"
      using "2.prems" False p by (auto simp: Let_def split: option.splits if_splits)
    then have "ancestor_loop g q is W = Some (False, V')" using False p "2.prems" by simp
    then have "explored g q is W V'" using "2.IH"(4) [OF _ refl _ _ _ r refl] False p by blast
    moreover have "explored g q (in_list (nodes g ?p)) (insert ?p visited) W"
      using "2.IH"(3) [OF _ refl _ _ _ r] False p by blast
    ultimately show ?thesis using explored_parent p(2) by blast
  qed
qed (simp add: explored_def)

text \<open>Reachability by forward edges read from the edge array: the specification of ancestry.\<close>

definition forward_rel :: "pgm_graph \<Rightarrow> nat rel" where
  "forward_rel g = {(p, c). \<exists>i. linked g i \<and> \<not> e_is_backedge (edges g i) \<and>
     e_producer (edges g i) = p \<and> e_consumer (edges g i) = c}"

lemma parent_rel_forward:
  assumes "graph_inv g" and "c < nr_nodes g"
  shows "(c, p) \<in> parent_rel g \<longleftrightarrow> (p, c) \<in> forward_rel g"
  using graph_inv_lists(1) [OF assms] linkedD(1) [OF assms(1)]
  by (auto simp: parent_rel_def forward_rel_def in_edges_of_def)

lemma forward_rel_nodes:
  assumes "graph_inv g" and "(p, c) \<in> forward_rel g"
  shows "p < nr_nodes g" and "c < nr_nodes g"
  using linkedD(2,3) [OF assms(1)] assms(2) by (auto simp: forward_rel_def)

lemma parent_rtrancl_forward:
  assumes "graph_inv g" and "c < nr_nodes g"
  shows "(c, p) \<in> (parent_rel g)\<^sup>* \<longleftrightarrow> (p, c) \<in> (forward_rel g)\<^sup>*"
proof
  assume "(c, p) \<in> (parent_rel g)\<^sup>*"
  then have "(p, c) \<in> (forward_rel g)\<^sup>* \<and> p < nr_nodes g"
  proof (induction rule: rtrancl_induct)
    case (step y z)
    then have "(z, y) \<in> forward_rel g" using parent_rel_forward [OF assms(1)] by blast
    with step show ?case using forward_rel_nodes [OF assms(1)] converse_rtrancl_into_rtrancl by metis
  qed (use assms in simp)
  then show "(p, c) \<in> (forward_rel g)\<^sup>*" ..
next
  assume "(p, c) \<in> (forward_rel g)\<^sup>*"
  then show "(c, p) \<in> (parent_rel g)\<^sup>*"
  proof (induction rule: converse_rtrancl_induct)
    case (step y z)
    then have "(z, y) \<in> parent_rel g"
      using parent_rel_forward [OF assms(1)] forward_rel_nodes [OF assms(1)] by blast
    with step show ?case by (meson rtrancl.rtrancl_into_rtrancl)
  qed simp
qed

lemma ancestor_search_correct:
  assumes "graph_inv g" and "n < nr_nodes g"
  shows "\<exists>V. ancestor_loop g q (in_list (nodes g n)) {} = Some ((q, n) \<in> (forward_rel g)\<^sup>+, V)"
proof -
  have lk: "linked g i" if "i \<in> set (in_list (nodes g n))" for i
    using that graph_inv_lists(1) [OF assms] by (simp add: in_edges_of_def)
  obtain b V where r: "ancestor_loop g q (in_list (nodes g n)) {} = Some (b, V)"
    using ancestor_loop_defined [OF assms(1) lk] by blast
  have iff: "(q, n) \<in> (forward_rel g)\<^sup>+ \<longleftrightarrow> (\<exists>p. (n, p) \<in> parent_rel g \<and> (p, q) \<in> (parent_rel g)\<^sup>*)"
    unfolding trancl_unfold_right relcomp_unfold mem_Collect_eq case_prod_conv parent_rel_forward [OF assms]
    using forward_rel_nodes(1) [OF assms(1)] parent_rtrancl_forward [OF assms(1)] by blast
  have "(q, n) \<in> (forward_rel g)\<^sup>+" if b
    using ancestor_loop_sound [OF r [unfolded eqTrueI [OF that]]] iff by (auto simp: parent_rel_def)
  moreover have "(q, n) \<notin> (forward_rel g)\<^sup>+" if nb: "\<not> b"
  proof
    assume "(q, n) \<in> (forward_rel g)\<^sup>+"
    then obtain p where p: "(n, p) \<in> parent_rel g" "(p, q) \<in> (parent_rel g)\<^sup>*" using iff by blast
    note c = ancestor_loop_complete [OF r [unfolded iffD2 [OF eq_False nb]], unfolded explored_def]
    have "p \<in> V" using c p(1) by (auto simp: parent_rel_def)
    with p(2) have "q \<in> V" using c by (induction rule: rtrancl_induct) auto
    then show False using c by blast
  qed
  ultimately show ?thesis using r by (cases b) auto
qed

text \<open>
  C11: on a graph kept by the API, \<open>pgm_is_ancestor\<close> returns (the search ends on every graph, backedges
  and cycles included) and answers 1 exactly when a path of forward edges leads from the queried node
  to the node; a node is not reported as its own ancestor.
\<close>

theorem is_ancestor_iff_path:
  fixes s node query
  defines "g \<equiv> graph_of s (ngraph node)"
  assumes "state_inv s" and "live_graph s (ngraph node)" and "ngraph query = ngraph node"
    and "0 \<le> nnode node" and "nnode node < int (nr_nodes g)"
    and "0 \<le> nnode query" and "nnode query < int (nr_nodes g)"
  shows "pgm_is_ancestor s node query =
    Some (if node \<noteq> query \<and> (nat (nnode query), nat (nnode node)) \<in> (forward_rel g)\<^sup>+ then 1 else 0)"
proof -
  have inv: "graph_inv g" using state_invD [OF assms(2,3)] by (simp add: g_def)
  have lt: "nat (nnode node) < nr_nodes g" using assms(5,6) by (simp add: nat_less_iff)
  have eq: "node = query \<longleftrightarrow> nnode node = nnode query" using assms(4) by (cases node; cases query) auto
  have "with_graph s (ngraph node) (-1) k = k g" for k :: "pgm_graph \<Rightarrow> int option"
    using assms(3) by (simp add: with_graph_def live_graph_def g_def)
  note run = this live_node_index [OF inv assms(5,6)] live_node_index [OF inv assms(7,8)]
  show ?thesis
  proof (cases "nnode node = nnode query")
    case True
    then show ?thesis using eq assms(4) by (simp add: pgm_is_ancestor_def run(1))
  next
    case False
    then have ne: "nat (nnode node) \<noteq> nat (nnode query)" using assms(5,7) by simp
    obtain V where "ancestor_loop g (nat (nnode query)) (in_list (nodes g (nat (nnode node)))) {} =
        Some ((nat (nnode query), nat (nnode node)) \<in> (forward_rel g)\<^sup>+, V)"
      using ancestor_search_correct [OF inv lt] by blast
    then show ?thesis using False ne eq assms(4) by (simp add: pgm_is_ancestor_def is_ancestor_def run)
  qed
qed

theorem is_ancestor_iff_path_witness:
  "pgm_is_ancestor full_state node1 node0 = Some 1 \<and> pgm_is_ancestor full_state node0 node0 = Some 0"
proof -
  have "(0, 1) \<in> forward_rel full_graph"
    unfolding forward_rel_def mem_Collect_eq case_prod_conv
    by (rule exI [of _ 0]) (simp add: full_graph_def linked_def full_edge_fields)
  moreover have "nr_nodes full_graph = 2" by (simp add: full_graph_def)
  ultimately show ?thesis
    using is_ancestor_iff_path [OF full_state_inv, of node1 node0] is_ancestor_iff_path [OF full_state_inv, of node0 node0]
    by (auto simp: full_state_live)
qed

section \<open>The cycle test\<close>

text \<open>
  \<open>dag_visit\<close> keys its two sets by the node's name, read as a C string: a name that fills its array has
  no terminator, and constructing the string runs past it. The body of the visit of a successor stands in
  the loop over the edges of its predecessor, as in the ancestor search. A successor found on the path ends
  the search with the path left as it is.
\<close>

definition std_string :: "string \<Rightarrow> nat \<Rightarrow> string option" where
  "std_string nm len = (if length nm < len then Some nm else None)"

definition node_names :: "pgm_graph \<Rightarrow> string set" where
  "node_names g = (\<lambda>j. n_name (nodes g j)) ` {..<PGM_MAX_NODES}"

function dag_loop :: "pgm_graph \<Rightarrow> bool \<Rightarrow> nat list \<Rightarrow> string set \<Rightarrow> string set \<Rightarrow>
    (int \<times> string set \<times> string set) option" where
  "dag_loop g ign [] visited path = Some (1, visited, path)"
| "dag_loop g ign (i # is) visited path =
     (if ign \<and> e_is_backedge (edges g i) then dag_loop g ign is visited path
      else if \<not> e_consumer (edges g i) < PGM_MAX_NODES then None
      else let successor = nodes g (e_consumer (edges g i)) in
        (case std_string (n_name successor) PGM_NODE_NAME_LEN of
           None \<Rightarrow> None
         | Some successor_name \<Rightarrow>
             if successor_name \<in> path then Some (0, visited, path)
             else if successor_name \<in> visited then dag_loop g ign is visited path
             else (case dag_loop g ign (out_list successor) (insert successor_name visited)
                          (insert successor_name path) of
                 None \<Rightarrow> None
               | Some (ret, visited', path') \<Rightarrow>
                   if ret = 0 then Some (0, visited', path')
                   else dag_loop g ign is visited' (path' - {successor_name}))))"
  by pat_completeness auto

lemma finite_node_names [simp]: "finite (node_names g)"
  by (simp add: node_names_def)

lemma card_unnamed: "nm \<in> N \<Longrightarrow> finite N \<Longrightarrow> nm \<notin> V \<Longrightarrow> card (N - insert nm V) < card (N - V)"
  by (rule psubset_card_mono) auto

lemma dag_loop_grows:
  "dag_loop_dom (g, ign, is, V, P) \<Longrightarrow> dag_loop g ign is V P = Some (r, V', P') \<Longrightarrow> V \<subseteq> V'"
proof (induction g ign "is" V P arbitrary: r V' P' rule: dag_loop.pinduct)
  case (2 g ign i "is" V P)
  let ?c = "nodes g (e_consumer (edges g i))"
  note eq = dag_loop.psimps(2) [OF "2.hyps"]
  show ?case
  proof (cases "ign \<and> e_is_backedge (edges g i)")
    case True
    then have "dag_loop g ign is V P = Some (r, V', P')" using "2.prems" eq by simp
    then show ?thesis using "2.IH"(1) [OF True] by blast
  next
    case False
    then obtain nm where c: "e_consumer (edges g i) < PGM_MAX_NODES"
      "std_string (n_name ?c) PGM_NODE_NAME_LEN = Some nm"
      using "2.prems" eq by (auto simp: Let_def split: if_splits option.splits)
    then have eq': "dag_loop g ign (i # is) V P = (if nm \<in> P then Some (0, V, P)
             else if nm \<in> V then dag_loop g ign is V P
             else (case dag_loop g ign (out_list ?c) (insert nm V) (insert nm P) of
                 None \<Rightarrow> None
               | Some (ret, visited', path') \<Rightarrow>
                   if ret = 0 then Some (0, visited', path') else dag_loop g ign is visited' (path' - {nm})))"
      using eq False by (simp add: Let_def)
    have c': "\<not> \<not> e_consumer (edges g i) < PGM_MAX_NODES" using c(1) by simp
    note IH = "2.IH"(2-) [OF False c' refl c(2)]
    consider "nm \<in> P" | "nm \<notin> P" "nm \<in> V" | "nm \<notin> P" "nm \<notin> V" by blast
    then show ?thesis
    proof cases
      case 1
      then show ?thesis using eq' "2.prems" by simp
    next
      case 2
      then have "dag_loop g ign is V P = Some (r, V', P')" using eq' "2.prems" by simp
      then show ?thesis using IH(1) [OF 2] by blast
    next
      case 3
      then obtain ret W Q where rec: "dag_loop g ign (out_list ?c) (insert nm V) (insert nm P) = Some (ret, W, Q)"
        using eq' "2.prems" by (auto split: option.splits)
      then have W: "insert nm V \<subseteq> W" using IH(2) [OF 3] by blast
      have "W \<subseteq> V'"
      proof (cases "ret = 0")
        case True
        then show ?thesis using eq' rec "2.prems" 3 by simp
      next
        case False
        then have "dag_loop g ign is W (Q - {nm}) = Some (r, V', P')" using eq' rec "2.prems" 3 by simp
        then show ?thesis using IH(3) [OF 3 rec refl refl False] by blast
      qed
      with W show ?thesis by blast
    qed
  qed
qed (simp add: dag_loop.psimps)

termination dag_loop
proof (relation "measures [\<lambda>(g, ign, is, V, P). card (node_names g - V), \<lambda>(g, ign, is, V, P). length is]", goal_cases)
  case (4 g ign i "is" visited path successor nm)
  then have "nm \<in> node_names g" by (auto simp: node_names_def std_string_def split: if_splits)
  then show ?case using 4 card_unnamed [of nm "node_names g" visited] by simp
next
  case (5 g ign i "is" visited path successor nm r ret y visited' path')
  then have "insert nm visited \<subseteq> visited'" using dag_loop_grows by blast
  then have "card (node_names g - visited') \<le> card (node_names g - insert nm visited)"
    by (intro card_mono) auto
  moreover have "nm \<in> node_names g" using 5 by (auto simp: node_names_def std_string_def split: if_splits)
  ultimately show ?case using 5 card_unnamed [of nm "node_names g" visited] by simp
qed auto

definition dag_visit :: "pgm_graph \<Rightarrow> nat \<Rightarrow> string set \<Rightarrow> string set \<Rightarrow> bool \<Rightarrow>
    (int \<times> string set \<times> string set) option" where
  "dag_visit g n visited path ign =
     (case std_string (n_name (nodes g n)) PGM_NODE_NAME_LEN of
        None \<Rightarrow> None
      | Some nm \<Rightarrow>
          if nm \<in> visited then Some (1, visited, path)
          else (case dag_loop g ign (out_list (nodes g n)) (insert nm visited) (insert nm path) of
              None \<Rightarrow> None
            | Some (ret, visited', path') \<Rightarrow>
                Some (if ret = 0 then (0, visited', path') else (1, visited', path' - {nm}))))"

fun is_dag_loop :: "pgm_graph \<Rightarrow> bool \<Rightarrow> nat list \<Rightarrow> string set \<Rightarrow> int option" where
  "is_dag_loop g ign [] visited = Some 1"
| "is_dag_loop g ign (i # is) visited =
     (case std_string (n_name (nodes g i)) PGM_NODE_NAME_LEN of
        None \<Rightarrow> None
      | Some nm \<Rightarrow>
          if nm \<in> visited then is_dag_loop g ign is visited
          else (case dag_visit g i visited {} ign of
              None \<Rightarrow> None
            | Some (isDag, visited', path) \<Rightarrow>
                if isDag = 1 then is_dag_loop g ign is visited' else Some isDag))"

definition pgm_is_dag :: "'w pgm_state \<Rightarrow> graph_t \<Rightarrow> bool \<Rightarrow> int option" where
  "pgm_is_dag s graph ign = with_graph s graph 0 (\<lambda>g. is_dag_loop g ign [0..<nr_nodes g] {})"

text \<open>
  The correctness of the test on graphs whose nodes have distinct terminated names. \<open>succ_rel\<close> is what the
  search follows; \<open>finished\<close> are the nodes visited and no longer on the path, and the search keeps them closed
  under successors and free of cycles.
\<close>

definition succ_rel :: "pgm_graph \<Rightarrow> bool \<Rightarrow> nat rel" where
  "succ_rel g ign = {(p, c). \<exists>i. linked g i \<and> \<not> (ign \<and> e_is_backedge (edges g i)) \<and>
     e_producer (edges g i) = p \<and> e_consumer (edges g i) = c}"

definition well_named :: "pgm_graph \<Rightarrow> bool" where
  "well_named g \<longleftrightarrow> inj_on (\<lambda>j. n_name (nodes g j)) {..<nr_nodes g} \<and>
     (\<forall>j < nr_nodes g. length (n_name (nodes g j)) < PGM_NODE_NAME_LEN)"

definition finished :: "pgm_graph \<Rightarrow> string set \<Rightarrow> string set \<Rightarrow> nat set" where
  "finished g V P = {j. j < nr_nodes g \<and> n_name (nodes g j) \<in> V - P}"

definition settled :: "pgm_graph \<Rightarrow> bool \<Rightarrow> nat set \<Rightarrow> bool" where
  "settled g ign F \<longleftrightarrow> succ_rel g ign `` F \<subseteq> F \<and> acyclic (succ_rel g ign \<inter> F \<times> F)"

lemma settled_insert:
  assumes "settled g ign F" and "succ_rel g ign `` {x} \<subseteq> F" and "x \<notin> F"
  shows "settled g ign (insert x F)"
proof -
  let ?R = "succ_rel g ign"
  have split: "?R \<inter> insert x F \<times> insert x F = (?R \<inter> F \<times> F) \<union> ({x} \<times> ?R `` {x})"
    using assms by (auto simp: settled_def)
  have "(a, b) \<in> (?R \<inter> F \<times> F)\<^sup>+" if "(a, b) \<in> (?R \<inter> insert x F \<times> insert x F)\<^sup>+" "a \<in> F" for a b
    using that
  proof (induction rule: trancl_induct)
    case (base y)
    then show ?case using assms by (auto simp: settled_def)
  next
    case (step y z)
    then have "y \<in> F" by (auto dest: tranclD2)
    then have "(y, z) \<in> ?R \<inter> F \<times> F" using step(2) assms(1) by (auto simp: settled_def)
    with step show ?case by (meson trancl_into_trancl)
  qed
  moreover have "(x, x) \<notin> (?R \<inter> insert x F \<times> insert x F)\<^sup>+"
  proof
    assume "(x, x) \<in> (?R \<inter> insert x F \<times> insert x F)\<^sup>+"
    then obtain y where y: "(x, y) \<in> ?R" "(y, x) \<in> (?R \<inter> insert x F \<times> insert x F)\<^sup>*"
      by (auto dest: tranclD)
    then have "y \<in> F" using assms(2) by blast
    with y(2) have "x \<in> F"
      using assms(1) by (induction rule: rtrancl_induct) (auto simp: settled_def)
    with assms(3) show False ..
  qed
  ultimately have "acyclic (?R \<inter> insert x F \<times> insert x F)"
    using assms(1) unfolding settled_def acyclic_def by (metis IntD2 SigmaD1 insertE tranclD)
  then show ?thesis using assms by (auto simp: settled_def)
qed

lemma set_out_list:
  assumes "graph_inv g" and "j < nr_nodes g"
  shows "i \<in> set (out_list (nodes g j)) \<longleftrightarrow> linked g i \<and> e_producer (edges g i) = j"
  using graph_inv_lists(2) [OF assms] linkedD(1) [OF assms(1)] by (auto simp: out_edges_def)

lemma dag_loop_step:
  assumes "graph_inv g" and "well_named g" and "linked g i" and "\<not> (ign \<and> e_is_backedge (edges g i))"
    and "c = e_consumer (edges g i)" and "nm = n_name (nodes g c)"
  shows "dag_loop g ign (i # is) V P =
    (if nm \<in> P then Some (0, V, P) else if nm \<in> V then dag_loop g ign is V P
     else (case dag_loop g ign (out_list (nodes g c)) (insert nm V) (insert nm P) of
         None \<Rightarrow> None
       | Some (ret, V', P') \<Rightarrow> if ret = 0 then Some (0, V', P') else dag_loop g ign is V' (P' - {nm})))"
proof -
  have "c < nr_nodes g" using linkedD(3) [OF assms(1,3)] assms(5) by simp
  then have "\<not> \<not> e_consumer (edges g i) < PGM_MAX_NODES" and
    "std_string (n_name (nodes g (e_consumer (edges g i)))) PGM_NODE_NAME_LEN = Some nm"
    using assms(1,2,5,6) by (auto simp: graph_inv_def well_named_def std_string_def)
  then show ?thesis
    by (simp only: dag_loop.simps(2) if_not_P [OF assms(4)] if_not_P if_False Let_def option.case assms(5))
qed

lemma dag_loop_defined:
  assumes "graph_inv g" and "well_named g" and "\<And>i. i \<in> set is \<Longrightarrow> linked g i"
  shows "\<exists>r V' P'. dag_loop g ign is V P = Some (r, V', P') \<and> (r = 0 \<or> r = 1)"
  using assms
proof (induction g ign "is" V P rule: dag_loop.induct)
  case (2 g ign i "is" V P)
  define c where "c = e_consumer (edges g i)"
  define nm where "nm = n_name (nodes g c)"
  have rest: "\<And>j. j \<in> set is \<Longrightarrow> linked g j" and lk: "linked g i" using "2.prems"(3) by simp_all
  have cn: "c < nr_nodes g" using linkedD(3) [OF "2.prems"(1) lk] by (simp add: c_def)
  then have cm: "\<not> \<not> c < PGM_MAX_NODES" "std_string (n_name (nodes g c)) PGM_NODE_NAME_LEN = Some nm"
    using "2.prems"(1,2) by (auto simp: graph_inv_def well_named_def std_string_def nm_def)
  note step = dag_loop_step [OF "2.prems"(1,2) lk _ c_def nm_def]
  show ?case
  proof (cases "ign \<and> e_is_backedge (edges g i)")
    case True
    then show ?thesis using "2.IH"(1) [OF True "2.prems"(1,2) rest] by simp
  next
    case False
    note IH = "2.IH"(2-) [OF False cm(1) [unfolded c_def] refl cm(2) [unfolded c_def]]
    consider "nm \<in> P" | "nm \<notin> P" "nm \<in> V" | "nm \<notin> P" "nm \<notin> V" by blast
    then show ?thesis
    proof cases
      case 1
      then show ?thesis unfolding step [OF False] by simp
    next
      case 2
      then show ?thesis unfolding step [OF False] using IH(1) [OF 2 "2.prems"(1,2) rest] by simp
    next
      case 3
      have "\<And>j. j \<in> set (out_list (nodes g c)) \<Longrightarrow> linked g j" using set_out_list [OF "2.prems"(1) cn] by simp
      then obtain r W Q where r: "dag_loop g ign (out_list (nodes g c)) (insert nm V) (insert nm P) = Some (r, W, Q)"
        using IH(2) [OF 3 "2.prems"(1,2)] unfolding c_def by blast
      have "\<exists>r V' P'. dag_loop g ign is W (Q - {nm}) = Some (r, V', P') \<and> (r = 0 \<or> r = 1)" if "r \<noteq> 0"
        using IH(3) [OF 3 r [unfolded c_def] refl refl that "2.prems"(1,2) rest] .
      then show ?thesis unfolding step [OF False] using 3 r by auto
    qed
  qed
qed auto

text \<open>What a loop that met no node of the path leaves.\<close>

definition dag_post :: "pgm_graph \<Rightarrow> bool \<Rightarrow> nat list \<Rightarrow> string set \<Rightarrow> string set \<Rightarrow> string set \<Rightarrow> string set \<Rightarrow> bool" where
  "dag_post g ign is V P V' P' \<longleftrightarrow> P' = P \<and> V \<subseteq> V' \<and> settled g ign (finished g V' P) \<and>
     (\<forall>i \<in> set is. \<not> (ign \<and> e_is_backedge (edges g i)) \<longrightarrow> e_consumer (edges g i) \<in> finished g V' P)"

lemma finished_mono: "V \<subseteq> V' \<Longrightarrow> finished g V P \<subseteq> finished g V' P"
  by (auto simp: finished_def)

lemma finished_enter: "nm \<notin> V \<Longrightarrow> finished g (insert nm V) (insert nm P) = finished g V P"
  by (auto simp: finished_def)

lemma finished_leave:
  assumes "well_named g" and "c < nr_nodes g" and "n_name (nodes g c) \<in> V" and "n_name (nodes g c) \<notin> P"
  shows "finished g V P = insert c (finished g V (insert (n_name (nodes g c)) P))"
    and "c \<notin> finished g V (insert (n_name (nodes g c)) P)"
  using assms inj_onD [of "\<lambda>j. n_name (nodes g j)" "{..<nr_nodes g}"]
  by (auto simp: finished_def well_named_def)

lemma settled_leave:
  assumes "graph_inv g" and "well_named g" and "c < nr_nodes g" and "n_name (nodes g c) \<notin> P"
    and post: "dag_post g ign (out_list (nodes g c)) (insert (n_name (nodes g c)) V) (insert (n_name (nodes g c)) P) W Q"
  shows "settled g ign (finished g W P)" and "c \<in> finished g W P"
proof -
  have c: "n_name (nodes g c) \<in> W" using post by (auto simp: dag_post_def)
  have "succ_rel g ign `` {c} \<subseteq> finished g W (insert (n_name (nodes g c)) P)"
    using post set_out_list [OF assms(1,3)] by (auto simp: dag_post_def succ_rel_def)
  moreover have "settled g ign (finished g W (insert (n_name (nodes g c)) P))"
    using post by (simp add: dag_post_def)
  ultimately show "settled g ign (finished g W P)"
    using finished_leave [OF assms(2,3) c assms(4)] settled_insert by metis
  show "c \<in> finished g W P" using c assms(3,4) by (simp add: finished_def)
qed

lemma dag_post_Cons:
  assumes "dag_post g ign is W P V' P'" and "V \<subseteq> W"
    and "\<not> (ign \<and> e_is_backedge (edges g i)) \<Longrightarrow> e_consumer (edges g i) \<in> finished g W P"
  shows "dag_post g ign (i # is) V P V' P'"
proof -
  have "finished g W P \<subseteq> finished g V' P" using assms(1) by (simp add: dag_post_def finished_mono)
  then show ?thesis using assms by (auto simp: dag_post_def)
qed

lemma dag_loop_true:
  assumes "graph_inv g" and "well_named g" and "\<And>i. i \<in> set is \<Longrightarrow> linked g i"
    and "settled g ign (finished g V P)" and "P \<subseteq> V" and "dag_loop g ign is V P = Some (1, V', P')"
  shows "dag_post g ign is V P V' P'"
  using assms
proof (induction g ign "is" V P arbitrary: V' P' rule: dag_loop.induct)
  case (1 g ign V P)
  then show ?case by (simp add: dag_post_def)
next
  case (2 g ign i "is" V P)
  define c where "c = e_consumer (edges g i)"
  define nm where "nm = n_name (nodes g c)"
  note inv = "2.prems"(1,2) and run = "2.prems"(6)
  have rest: "\<And>j. j \<in> set is \<Longrightarrow> linked g j" and lk: "linked g i" using "2.prems"(3) by simp_all
  have cn: "c < nr_nodes g" using linkedD(3) [OF inv(1) lk] by (simp add: c_def)
  then have cm: "\<not> \<not> c < PGM_MAX_NODES" "std_string (n_name (nodes g c)) PGM_NODE_NAME_LEN = Some nm"
    using inv by (auto simp: graph_inv_def well_named_def std_string_def nm_def)
  note step = dag_loop_step [OF inv lk _ c_def nm_def]
  show ?case
  proof (cases "ign \<and> e_is_backedge (edges g i)")
    case True
    then have "dag_loop g ign is V P = Some (1, V', P')" using run by simp
    then have "dag_post g ign is V P V' P'" using "2.IH"(1) [OF True inv rest "2.prems"(4,5)] by simp
    then show ?thesis using True by (auto intro: dag_post_Cons)
  next
    case False
    note IH = "2.IH"(2-) [OF False cm(1) [unfolded c_def] refl cm(2) [unfolded c_def], folded c_def]
    have nP: "nm \<notin> P" using run step [OF False] by (auto split: if_splits)
    show ?thesis
    proof (cases "nm \<in> V")
      case True
      then have "dag_loop g ign is V P = Some (1, V', P')" using run nP step [OF False] by simp
      then have "dag_post g ign is V P V' P'" using IH(1) [OF nP True inv rest "2.prems"(4,5)] by simp
      then show ?thesis using True nP cn by (auto intro!: dag_post_Cons simp: finished_def c_def nm_def)
    next
      case nV: False
      have lo: "\<And>j. j \<in> set (out_list (nodes g c)) \<Longrightarrow> linked g j" using set_out_list [OF inv(1) cn] by simp
      obtain r W Q where r: "dag_loop g ign (out_list (nodes g c)) (insert nm V) (insert nm P) = Some (r, W, Q)"
        and r01: "r = 0 \<or> r = 1" using dag_loop_defined [OF inv lo] by meson
      then have r1: "r = 1" using run nP nV step [OF False] by auto
      have post: "dag_post g ign (out_list (nodes g c)) (insert nm V) (insert nm P) W Q"
        using IH(2) [OF nP nV inv lo] r r1 "2.prems"(4,5) finished_enter [OF nV] by (simp add: subset_insertI2 insert_mono)
      then have Q: "Q - {nm} = P" "insert nm V \<subseteq> W" using nP by (auto simp: dag_post_def)
      have "dag_loop g ign is W P = Some (1, V', P')" using run nP nV step [OF False] r r1 Q by simp
      moreover note sl = settled_leave [OF inv cn nP [unfolded nm_def] post [unfolded nm_def]]
      moreover have "P \<subseteq> W" using "2.prems"(5) Q by blast
      ultimately have "dag_post g ign is W P V' P'"
        using IH(3) [OF nP nV r refl refl _ inv rest] r1 Q by simp
      then show ?thesis using sl(2) Q by (intro dag_post_Cons) (auto simp: c_def)
    qed
  qed
qed

lemma dag_loop_false:
  assumes "graph_inv g" and "well_named g" and "x < nr_nodes g" and "set is \<subseteq> set (out_list (nodes g x))"
    and "settled g ign (finished g V P)" and "P \<subseteq> V"
    and "\<And>j. j < nr_nodes g \<Longrightarrow> n_name (nodes g j) \<in> P \<Longrightarrow> (j, x) \<in> (succ_rel g ign)\<^sup>*"
    and "dag_loop g ign is V P = Some (0, V', P')"
  shows "\<not> acyclic (succ_rel g ign)"
  using assms
proof (induction g ign "is" V P arbitrary: x V' P' rule: dag_loop.induct)
  case (2 g ign i "is" V P)
  define c where "c = e_consumer (edges g i)"
  define nm where "nm = n_name (nodes g c)"
  note inv = "2.prems"(1,2) and run = "2.prems"(8)
  have lx: "\<And>j. j \<in> set (i # is) \<Longrightarrow> linked g j \<and> e_producer (edges g j) = x"
    using "2.prems"(4) set_out_list [OF inv(1) "2.prems"(3)] by blast
  have sub: "set is \<subseteq> set (out_list (nodes g x))" and lk: "linked g i" using "2.prems"(4) lx by simp_all
  have cn: "c < nr_nodes g" using linkedD(3) [OF inv(1) lk] by (simp add: c_def)
  then have cm: "\<not> \<not> c < PGM_MAX_NODES" "std_string (n_name (nodes g c)) PGM_NODE_NAME_LEN = Some nm"
    using inv by (auto simp: graph_inv_def well_named_def std_string_def nm_def)
  note step = dag_loop_step [OF inv lk _ c_def nm_def]
  show ?case
  proof (cases "ign \<and> e_is_backedge (edges g i)")
    case True
    then have "dag_loop g ign is V P = Some (0, V', P')" using run by simp
    then show ?thesis using "2.IH"(1) [OF True inv "2.prems"(3) sub "2.prems"(5-7)] by simp
  next
    case False
    note IH = "2.IH"(2-) [OF False cm(1) [unfolded c_def] refl cm(2) [unfolded c_def], folded c_def]
    have xc: "(x, c) \<in> succ_rel g ign" using lk lx False by (auto simp: succ_rel_def c_def)
    consider "nm \<in> P" | "nm \<notin> P" "nm \<in> V" | "nm \<notin> P" "nm \<notin> V" by blast
    then show ?thesis
    proof cases
      case 1
      then have "(c, x) \<in> (succ_rel g ign)\<^sup>*" using "2.prems"(7) cn by (simp add: nm_def)
      with xc show ?thesis unfolding acyclic_def by (meson rtrancl_into_trancl2)
    next
      case 2
      then have "dag_loop g ign is V P = Some (0, V', P')" using run step [OF False] by simp
      then show ?thesis using IH(1) [OF 2 inv "2.prems"(3) sub "2.prems"(5-7)] by simp
    next
      case 3
      have lo: "\<And>j. j \<in> set (out_list (nodes g c)) \<Longrightarrow> linked g j" using set_out_list [OF inv(1) cn] by simp
      obtain r W Q where r: "dag_loop g ign (out_list (nodes g c)) (insert nm V) (insert nm P) = Some (r, W, Q)"
        "r = 0 \<or> r = 1"
        using dag_loop_defined [OF inv lo] by meson
      have enter: "settled g ign (finished g (insert nm V) (insert nm P))" "insert nm P \<subseteq> insert nm V"
        using finished_enter [OF 3(2)] "2.prems"(5,6) by auto
      show ?thesis
      proof (cases "r = 0")
        case True
        have "(j, c) \<in> (succ_rel g ign)\<^sup>*" if "j < nr_nodes g" "n_name (nodes g j) \<in> insert nm P" for j
        proof (cases "j = c")
          case ne: False
          then have "n_name (nodes g j) \<in> P"
            using that cn inv(2) by (auto simp: well_named_def nm_def inj_on_def)
          then show ?thesis using "2.prems"(7) [OF that(1)] xc by (meson rtrancl.rtrancl_into_rtrancl)
        qed simp
        then show ?thesis using IH(2) [OF 3 inv cn subset_refl enter _ r(1) [unfolded True]] by blast
      next
        case rn: False
        then have post: "dag_post g ign (out_list (nodes g c)) (insert nm V) (insert nm P) W Q"
          using dag_loop_true [OF inv lo enter] r by simp
        then have Q: "Q - {nm} = P" "P \<subseteq> W" using 3 "2.prems"(6) by (auto simp: dag_post_def)
        have "settled g ign (finished g W P)"
          using settled_leave(1) [OF inv cn 3(1) [unfolded nm_def] post [unfolded nm_def]] .
        moreover have "dag_loop g ign is W P = Some (0, V', P')" using run 3 step [OF False] r rn Q by simp
        ultimately show ?thesis
          using IH(3) [OF 3 r(1) refl refl rn inv "2.prems"(3) sub] Q "2.prems"(7) by simp
      qed
    qed
  qed
qed simp

text \<open>The visit of one root, and the loop over all nodes.\<close>

lemma dag_visit_correct:
  assumes "graph_inv g" and "well_named g" and "x < nr_nodes g" and "n_name (nodes g x) \<notin> V"
    and "settled g ign (finished g V {})"
  shows "(\<exists>V' P'. dag_visit g x V {} ign = Some (0, V', P') \<and> \<not> acyclic (succ_rel g ign)) \<or>
    (\<exists>V'. dag_visit g x V {} ign = Some (1, V', {}) \<and> V \<subseteq> V' \<and> n_name (nodes g x) \<in> V' \<and>
       settled g ign (finished g V' {}))"
proof -
  let ?nm = "n_name (nodes g x)"
  have nm: "std_string ?nm PGM_NODE_NAME_LEN = Some ?nm"
    using assms(2,3) by (simp add: well_named_def std_string_def)
  have lo: "\<And>j. j \<in> set (out_list (nodes g x)) \<Longrightarrow> linked g j" using set_out_list [OF assms(1,3)] by simp
  obtain r W Q where r: "dag_loop g ign (out_list (nodes g x)) (insert ?nm V) {?nm} = Some (r, W, Q)" "r = 0 \<or> r = 1"
    using dag_loop_defined [OF assms(1,2) lo] by meson
  have enter: "settled g ign (finished g (insert ?nm V) {?nm})" "{?nm} \<subseteq> insert ?nm V"
    using finished_enter [OF assms(4), of g "{}"] assms(5) by auto
  have path: "(j, x) \<in> (succ_rel g ign)\<^sup>*" if "j < nr_nodes g" "n_name (nodes g j) \<in> {?nm}" for j
    using that assms(2,3) by (auto simp: well_named_def inj_on_def)
  show ?thesis
  proof (cases "r = 0")
    case True
    then have "\<not> acyclic (succ_rel g ign)"
      using dag_loop_false [OF assms(1-3) subset_refl enter path] r(1) by simp
    then show ?thesis using r True assms(4) by (simp add: dag_visit_def nm)
  next
    case False
    then have post: "dag_post g ign (out_list (nodes g x)) (insert ?nm V) {?nm} W Q"
      using dag_loop_true [OF assms(1,2) lo enter] r by simp
    then have "settled g ign (finished g W {})" "Q = {?nm}" "insert ?nm V \<subseteq> W"
      using settled_leave(1) [OF assms(1-3), of "{}"] by (auto simp: dag_post_def)
    then show ?thesis using r False assms(4) by (simp add: dag_visit_def nm)
  qed
qed

lemma is_dag_loop_correct:
  assumes "graph_inv g" and "well_named g" and "set is \<subseteq> {..<nr_nodes g}"
    and "settled g ign (finished g V {})" and "{..<nr_nodes g} \<subseteq> finished g V {} \<union> set is"
  shows "is_dag_loop g ign is V = Some (if acyclic (succ_rel g ign) then 1 else 0)"
  using assms(3-)
proof (induction "is" arbitrary: V)
  case Nil
  then have "{..<nr_nodes g} = finished g V {}" by (auto simp: finished_def)
  moreover have "succ_rel g ign \<subseteq> {..<nr_nodes g} \<times> {..<nr_nodes g}"
    using linkedD(2,3) [OF assms(1)] by (auto simp: succ_rel_def)
  ultimately have "acyclic (succ_rel g ign)" using Nil(2) by (metis settled_def inf.absorb1)
  then show ?case by simp
next
  case (Cons x "is")
  let ?nm = "n_name (nodes g x)"
  have x: "x < nr_nodes g" using Cons.prems by simp
  have nm: "std_string ?nm PGM_NODE_NAME_LEN = Some ?nm"
    using assms(2) x by (simp add: well_named_def std_string_def)
  show ?case
  proof (cases "?nm \<in> V")
    case True
    then have "{..<nr_nodes g} \<subseteq> finished g V {} \<union> set is" using Cons.prems(3) x by (auto simp: finished_def)
    then show ?thesis using Cons True nm by simp
  next
    case False
    note visit = dag_visit_correct [OF assms(1,2) x False Cons.prems(2)]
    show ?thesis
    proof (cases "acyclic (succ_rel g ign)")
      case True
      then obtain V' where V': "dag_visit g x V {} ign = Some (1, V', {})" "V \<subseteq> V'" "?nm \<in> V'"
        "settled g ign (finished g V' {})" using visit by blast
      have "{..<nr_nodes g} \<subseteq> finished g V' {} \<union> set is"
        using Cons.prems(3) V'(2,3) x by (auto simp: finished_def)
      then show ?thesis using Cons V' nm False by simp
    next
      case cyc: False
      show ?thesis
      proof (cases "\<exists>V' P'. dag_visit g x V {} ign = Some (0, V', P')")
        case True
        then show ?thesis using nm False cyc by auto
      next
        case tr: False
        then obtain V' where V': "dag_visit g x V {} ign = Some (1, V', {})" "V \<subseteq> V'" "?nm \<in> V'"
          "settled g ign (finished g V' {})" using visit by blast
        have "{..<nr_nodes g} \<subseteq> finished g V' {} \<union> set is"
          using Cons.prems(3) V'(2,3) x by (auto simp: finished_def)
        then show ?thesis using Cons V' nm False by simp
      qed
    qed
  qed
qed

text \<open>Three nodes, an edge from the second to the third and a backedge the other way.\<close>

definition cycle_edge :: "nat \<Rightarrow> pgm_edge" where
  "cycle_edge i =
     (if i = 0 then full_edge\<lparr>e_producer := 1, e_consumer := 2\<rparr>
      else if i = 1 then full_edge\<lparr>e_producer := 2, e_consumer := 1, e_is_backedge := True, e_nr_skips := 1\<rparr>
      else zero_edge)"

definition cycle_graph :: "string list \<Rightarrow> pgm_graph" where
  "cycle_graph ns = zero_graph\<lparr>in_use := True, g_name := ''g'', nr_nodes := 3, nr_edges := 2,
     nodes := (\<lambda>_. zero_node)(
       0 := zero_node\<lparr>owner := UNCLAIMED_NODE, n_name := ns ! 0\<rparr>,
       1 := zero_node\<lparr>owner := UNCLAIMED_NODE, n_name := ns ! 1, nr_out := 1, nr_in := 1, n_in := (\<lambda>_. 1),
              nr_in_signaled := 1, nr_in_signaled_backedges := 1, signal_edge_mask := 1\<rparr>,
       2 := zero_node\<lparr>owner := UNCLAIMED_NODE, n_name := ns ! 2, nr_out := 1, n_out := (\<lambda>_. 1), nr_in := 1,
              nr_in_signaled := 1, signal_edge_mask := 1\<rparr>),
     edges := cycle_edge\<rparr>"

definition cycle_state :: "string list \<Rightarrow> addr pgm_state" where
  "cycle_state ns = sample_state\<lparr>gGraphs := Some ((\<lambda>_. zero_graph)(0 := cycle_graph ns))\<rparr>"

lemma cycle_state_live: "live_graph (cycle_state ns) h \<longleftrightarrow> h = 0" "graph_of (cycle_state ns) 0 = cycle_graph ns"
  by (auto simp: live_graph_def is_valid_graph_def is_valid_handle_def cycle_state_def cycle_graph_def
      zero_graph_def PGM_MAX_GRAPHS_def graph_of_def split: if_splits)

lemma cycle_edges: "edges (cycle_graph ns) = cycle_edge" "nr_edges (cycle_graph ns) = 2" "nr_nodes (cycle_graph ns) = 3"
  by (simp_all add: cycle_graph_def)

lemma cycle_linked: "linked (cycle_graph ns) i \<longleftrightarrow> i = 0 \<or> i = 1"
  by (simp add: linked_def cycle_edges cycle_edge_def full_edge_fields zero_edge_def)

lemma cycle_succ: "succ_rel (cycle_graph ns) ign = (if ign then {(1, 2)} else {(1, 2), (2, 1)})"
  by (auto simp: succ_rel_def cycle_linked cycle_edges cycle_edge_def full_edge_fields)

lemma cycle_acyclic: "acyclic (succ_rel (cycle_graph ns) ign) \<longleftrightarrow> ign"
proof (cases ign)
  case True
  have "(1 :: nat, 2 :: nat) \<in> {(x, y). x < y}" by simp
  then have "acyclic {(1 :: nat, 2 :: nat)}" by (auto intro!: acyclicI dest: trancl_mono)
  then show ?thesis using True by (simp add: cycle_succ)
next
  case False
  have "(1 :: nat, 1) \<in> {(1, 2), (2, 1)}\<^sup>+" by (rule trancl_trans [OF r_into_trancl r_into_trancl]) auto
  then show ?thesis using False by (auto simp: cycle_succ acyclic_def)
qed

lemma cycle_state_inv:
  assumes "ns ! 0 \<noteq> []" and "ns ! 1 \<noteq> []" and "ns ! 2 \<noteq> []"
  shows "state_inv (cycle_state ns)"
proof -
  have lists: "in_edges_of (cycle_graph ns) j = (if j = 1 then [1] else if j = 2 then [0] else [])"
    "out_edges (cycle_graph ns) j = (if j = 1 then [0] else if j = 2 then [1] else [])" for j
    unfolding in_edges_of_def out_edges_def cycle_linked
    by (simp_all add: cycle_edges cycle_edge_def full_edge_fields upt_rec numeral_2_eq_2)
  have attr: "is_signal_driven default_edge" "\<not> is_data_passing default_edge" "edge_attr_ok default_edge"
    "select_ops (etype default_edge) = Some cv_edge_ops"
    by (simp_all add: is_signal_driven_def is_data_passing_def edge_attr_ok_def select_ops_def
        default_edge_def zero_attr_def edge_type_defs)
  have "edge_ok (cycle_graph ns) i" for i
    unfolding edge_ok_def cycle_linked cycle_edges
    using attr by (auto simp: cycle_edge_def full_edge_fields zero_edge_def)
  moreover have "n_name (nodes (cycle_graph ns) j) \<noteq> [] \<and>
      node_ok cycle_edge (in_edges_of (cycle_graph ns) j) (out_edges (cycle_graph ns) j) (nodes (cycle_graph ns) j)"
    if "j < 3" for j
  proof -
    from that consider "j = 0" | "j = 1" | "j = 2" by linarith
    then show ?thesis
      unfolding lists using assms attr
      by cases (auto simp: cycle_graph_def node_ok_def in_list_def out_list_def zero_node_def pgm_limits
          cycle_edge_def full_edge_fields bit_1_iff)
  qed
  ultimately have "graph_inv (cycle_graph ns)"
    by (simp add: graph_inv_def cycle_edges pgm_limits)
  then show ?thesis by (simp add: state_inv_def cycle_state_live)
qed

abbreviation abc_state :: "addr pgm_state" where
  "abc_state \<equiv> cycle_state [''a'', ''b'', ''c'']"

lemma abc_well_named: "well_named (cycle_graph [''a'', ''b'', ''c''])"
  by (auto simp: well_named_def cycle_graph_def inj_on_def pgm_limits PGM_NODE_NAME_LEN_def less_Suc_eq
      numeral_3_eq_3 numeral_2_eq_2)

lemma pgm_is_dag_acyclic:
  assumes "state_inv s" and "live_graph s graph" and "well_named (graph_of s graph)"
  shows "pgm_is_dag s graph ign = Some (if acyclic (succ_rel (graph_of s graph) ign) then 1 else 0)"
proof -
  let ?g = "graph_of s graph"
  have inv: "graph_inv ?g" using state_invD [OF assms(1,2)] .
  have "settled ?g ign (finished ?g {} {})" by (simp add: settled_def finished_def acyclic_def)
  then have "is_dag_loop ?g ign [0..<nr_nodes ?g] {} = Some (if acyclic (succ_rel ?g ign) then 1 else 0)"
    by (intro is_dag_loop_correct [OF inv assms(3)]) auto
  then show ?thesis using assms(2) by (simp add: pgm_is_dag_def with_graph_def live_graph_def)
qed

text \<open>
  C10: on a live graph whose nodes have distinct names shorter than their array, \<open>pgm_is_dag\<close> returns, and
  answers 1 exactly when the edges (without the explicit backedges, if these are ignored) form no cycle.
\<close>

theorem is_dag_iff_acyclic:
  assumes "state_inv s" and "live_graph s graph" and "well_named (graph_of s graph)"
  shows "pgm_is_dag s graph ign = Some (if acyclic (succ_rel (graph_of s graph) ign) then 1 else 0)"
  using pgm_is_dag_acyclic [OF assms] .

theorem is_dag_iff_acyclic_witness:
  "pgm_is_dag (cycle_state [''a'', ''b'', ''c'']) 0 False = Some 0 \<and>
   pgm_is_dag (cycle_state [''a'', ''b'', ''c'']) 0 True = Some 1"
proof -
  let ?ns = "[''a'', ''b'', ''c'']"
  have "state_inv (cycle_state ?ns)" by (rule cycle_state_inv) simp_all
  then show ?thesis
    using abc_well_named is_dag_iff_acyclic [of "cycle_state ?ns" 0] by (simp add: cycle_state_live cycle_acyclic)
qed

text \<open>
  The names must be distinct: \<open>pgm_init_node\<close> accepts a name twice, the search takes the second node
  of that name for the first, and a graph with a cycle through it is reported to be a dag.
\<close>

theorem is_dag_misses_cycle_of_namesake:
  "let s = cycle_state [''a'', ''a'', ''b''] in
   state_inv s \<and> live_graph s 0 \<and> \<not> acyclic (succ_rel (graph_of s 0) False) \<and> pgm_is_dag s 0 False = Some 1"
proof -
  let ?s = "cycle_state [''a'', ''a'', ''b'']"
  have "state_inv ?s" by (rule cycle_state_inv) simp_all
  moreover have "pgm_is_dag ?s 0 False = Some 1"
  proof -
    have "is_valid_graph ?s 0 = Some True" using cycle_state_live(1) [of _ 0] by (simp add: live_graph_def)
    then show ?thesis
      by (simp add: pgm_is_dag_def with_graph_def cycle_state_live(2))
        (simp add: cycle_graph_def upt_rec dag_visit_def std_string_def PGM_NODE_NAME_LEN_def out_list_def
          zero_node_def cycle_edge_def full_edge_fields pgm_limits)
  qed
  ultimately show ?thesis by (simp add: cycle_state_live cycle_acyclic)
qed

end
