(* ===== verification/Pgm_Ownership.thy ===== *)
theory Pgm_Ownership
  imports Pgm_Dag
begin

text \<open>
  Node ownership: claiming a node opens its ends of all its edges, releasing it closes them
  (\<open>src/src/pgm.cpp\<close>, node ownership routines). The owner field is tested and set under the graph mutex;
  the edges are opened after the mutex is released, by the thread that has just become the owner.
\<close>

section \<open>Operations\<close>

text \<open>
  The four loops over the edges of a node: call an operation of each edge through its table, store the
  edge and remember whether a call failed. A null table is dereferenced.
\<close>

type_synonym 'w edge_action = "edge_ops \<Rightarrow> nat \<Rightarrow> pgm_graph \<Rightarrow> pgm_edge \<Rightarrow> 'w pgm_state \<Rightarrow> 'w edge_result"

fun for_edges :: "'w edge_action \<Rightarrow> nat list \<Rightarrow> bool \<Rightarrow> pgm_graph \<Rightarrow> 'w pgm_state \<Rightarrow>
    (bool \<times> pgm_graph \<times> 'w pgm_state) option" where
  "for_edges f [] was_error g s = Some (was_error, g, s)"
| "for_edges f (i # is) was_error g s =
     (case e_ops (edges g i) of
        None \<Rightarrow> None
      | Some k \<Rightarrow>
          (case f k i g (edges g i) s of
             None \<Rightarrow> None
           | Some (ret, e, s) \<Rightarrow> for_edges f is (was_error \<or> ret \<noteq> 0) (upd_edge i (\<lambda>_. e) g) s))"

definition open_in :: "'w os \<Rightarrow> graph_t \<Rightarrow> 'w edge_action" where
  "open_in os graph k i g e s = ops_open_consumer k os graph i g e s"

definition open_out :: "'w os \<Rightarrow> graph_t \<Rightarrow> 'w edge_action" where
  "open_out os graph k i g e s = ops_open_producer k os graph i g e s"

definition close_out :: "'w os \<Rightarrow> 'w edge_action" where
  "close_out os k i g e s = ops_close_producer k os e s"

definition close_in :: "'w os \<Rightarrow> 'w edge_action" where
  "close_in os k i g e s = ops_close_consumer k os e s"

definition claim_node :: "'w os \<Rightarrow> graph_t \<Rightarrow> nat \<Rightarrow> pgm_graph \<Rightarrow> 'w pgm_state \<Rightarrow>
    (int \<times> pgm_graph \<times> 'w pgm_state) option" where
  "claim_node os graph j g s =
     (case for_edges (open_in os graph) (in_list (nodes g j)) False g s of
        None \<Rightarrow> None
      | Some (was_error, g, s) \<Rightarrow>
          (case for_edges (open_out os graph) (out_list (nodes g j)) was_error g s of
             None \<Rightarrow> None
           | Some (was_error, g, s) \<Rightarrow> Some (if was_error then -1 else 0, g, s)))"

definition claimant :: "pid_t \<Rightarrow> pid_t \<Rightarrow> pid_t" where
  "claimant self tid = (if tid = 0 then self else tid)"

definition pgm_claim_node :: "'w os \<Rightarrow> pid_t \<Rightarrow> node_t \<Rightarrow> pid_t \<Rightarrow> 'w pgm_state \<Rightarrow> (int \<times> 'w pgm_state) option" where
  "pgm_claim_node os self node tid s =
     with_graph s (ngraph node) (-1, s) (\<lambda>g.
       if nnode node < 0 \<or> nnode node \<ge> int (nr_nodes g) then Some (-1, s)
       else let j = nat (nnode node) in
         if owner (nodes g j) \<noteq> UNCLAIMED_NODE then Some (-1, s)
         else map_option (\<lambda>(ret, g, s). (ret, set_graph (ngraph node) g s))
           (claim_node os (ngraph node) j (upd_node j (owner_update (\<lambda>_. claimant self tid)) g) s))"

definition pgm_claim_any_node ::
  "'w os \<Rightarrow> pid_t \<Rightarrow> graph_t \<Rightarrow> bool \<Rightarrow> pid_t \<Rightarrow> 'w pgm_state \<Rightarrow> (int \<times> node_t option \<times> 'w pgm_state) option"
where
  "pgm_claim_any_node os self graph node tid s =
     with_graph s graph (-1, None, s) (\<lambda>g.
       if \<not> node then Some (-1, None, s)
       else (case first_index (\<lambda>i. owner (nodes g i) = UNCLAIMED_NODE) (nr_nodes g) of
           None \<Rightarrow> Some (-1, None, s)
         | Some node_id \<Rightarrow>
             map_option (\<lambda>(ret, g, s). (ret, if ret = 0 then Some \<lparr>ngraph = graph, nnode = int node_id\<rparr> else None,
                 set_graph graph g s))
               (claim_node os graph node_id (upd_node node_id (owner_update (\<lambda>_. claimant self tid)) g) s)))"

definition release_node :: "'w os \<Rightarrow> nat \<Rightarrow> pgm_graph \<Rightarrow> 'w pgm_state \<Rightarrow>
    (int \<times> pgm_graph \<times> 'w pgm_state) option" where
  "release_node os j g s =
     (case for_edges (close_out os) (out_list (nodes g j)) False g s of
        None \<Rightarrow> None
      | Some (was_error, g, s) \<Rightarrow>
          (case for_edges (close_in os) (in_list (nodes g j)) was_error g s of
             None \<Rightarrow> None
           | Some (was_error, g, s) \<Rightarrow>
               Some (if was_error then -1 else 0, upd_node j (owner_update (\<lambda>_. UNCLAIMED_NODE)) g, s)))"

definition pgm_release_node :: "'w os \<Rightarrow> pid_t \<Rightarrow> node_t \<Rightarrow> pid_t \<Rightarrow> 'w pgm_state \<Rightarrow> (int \<times> 'w pgm_state) option" where
  "pgm_release_node os self node tid s =
     with_graph s (ngraph node) (-1, s) (\<lambda>g.
       if nnode node < 0 \<or> nnode node \<ge> int (nr_nodes g) \<or>
          owner (nodes g (nat (nnode node))) \<noteq> claimant self tid \<or>
          owner (nodes g (nat (nnode node))) = UNCLAIMED_NODE then Some (-1, s)
       else map_option (\<lambda>(ret, g, s). (ret, set_graph (ngraph node) g s)) (release_node os (nat (nnode node)) g s))"

section \<open>The edge operations keep the shape of the graph\<close>

lemma for_edges_error: "for_edges f is True g s \<noteq> Some (False, g', s')"
  by (induction "is" arbitrary: g s) (auto split: option.splits)

text \<open>
  What the loops rely on: an operation of the table changes neither the shape of the edge nor the graphs
  in the state. Inside the locale the loops are proved to touch only the edges they were given.
\<close>

locale shape_keeping =
  fixes f :: "'w edge_action"
  assumes keeps_shape: "f k i g e s = Some (ret, e', s') \<Longrightarrow> edge_shape e' = edge_shape e"
    and keeps_graphs: "f k i g e s = Some (ret, e', s') \<Longrightarrow> gGraphs s' = gGraphs s"
    and keeps_masters: "f k i g e s = Some (ret, e', s') \<Longrightarrow> gIsGraphMaster s' = gIsGraphMaster s"
begin

lemma for_edges_frame:
  "for_edges f is b g s = Some (b', g', s') \<Longrightarrow>
    same_shape g g' \<and> nodes g' = nodes g \<and> in_use g' = in_use g \<and> g_name g' = g_name g \<and> gGraphs s' = gGraphs s \<and>
    gIsGraphMaster s' = gIsGraphMaster s \<and> (\<forall>i. i \<notin> set is \<longrightarrow> edges g' i = edges g i)"
proof (induction "is" arbitrary: b g s)
  case Nil
  then show ?case by (simp add: same_shape_def)
next
  case (Cons i "is")
  then obtain k ret e t where k: "e_ops (edges g i) = Some k" and r: "f k i g (edges g i) s = Some (ret, e, t)"
    and rest: "for_edges f is (b \<or> ret \<noteq> 0) (upd_edge i (\<lambda>_. e) g) t = Some (b', g', s')"
    by (auto split: option.splits)
  have "same_shape g (upd_edge i (\<lambda>_. e) g)" using keeps_shape [OF r] by (rule same_shape_upd_edge)
  then show ?case
    using Cons.IH [OF rest] keeps_graphs [OF r] keeps_masters [OF r] same_shape_trans
    by (auto simp: upd_edge_def)
qed

lemma for_edges_pointwise:
  assumes "distinct is" and "for_edges f is b g s = Some (False, g', s')" and "i \<in> set is"
  shows "\<exists>k ga sa sb. e_ops (edges g i) = Some k \<and> f k i ga (edges g i) sa = Some (0, edges g' i, sb)"
  using assms
proof (induction "is" arbitrary: b g s)
  case (Cons j "is")
  then obtain k ret e t where k: "e_ops (edges g j) = Some k" and r: "f k j g (edges g j) s = Some (ret, e, t)"
    and rest: "for_edges f is (b \<or> ret \<noteq> 0) (upd_edge j (\<lambda>_. e) g) t = Some (False, g', s')"
    by (auto split: option.splits)
  have ret: "ret = 0" using rest for_edges_error [of f "is"] by (cases "ret = 0") auto
  show ?case
  proof (cases "i = j")
    case True
    then have "edges g' i = e" using for_edges_frame [OF rest] Cons.prems(1) by (auto simp: upd_edge_def)
    then show ?thesis using k r ret True by auto
  next
    case False
    then show ?thesis using Cons.IH [OF _ rest] Cons.prems(1,3) by (auto simp: upd_edge_def)
  qed
qed simp

end

lemmas malloc_defs = malloc_edge_buf_def pgm_malloc_def upd_hdr_def sys_def free_mem_def

interpretation open_in: shape_keeping "open_in os graph"
  apply unfold_locales
  subgoal for k i g e s ret e' s'
    by (cases k) (auto simp: open_in_def open_close_defs edge_shape_def Let_def split: prod.splits if_splits option.splits)
  subgoal for k i g e s ret e' s'
    by (cases k) (auto simp: open_in_def open_close_defs malloc_defs Let_def split: prod.splits if_splits option.splits)
  subgoal for k i g e s ret e' s'
    by (cases k) (auto simp: open_in_def open_close_defs malloc_defs Let_def split: prod.splits if_splits option.splits)
  done

interpretation open_out: shape_keeping "open_out os graph"
  apply unfold_locales
  subgoal for k i g e s ret e' s'
    by (cases k) (auto simp: open_out_def open_close_defs edge_shape_def Let_def split: prod.splits if_splits option.splits)
  subgoal for k i g e s ret e' s'
    by (cases k) (auto simp: open_out_def open_close_defs malloc_defs Let_def split: prod.splits if_splits option.splits)
  subgoal for k i g e s ret e' s'
    by (cases k) (auto simp: open_out_def open_close_defs malloc_defs Let_def split: prod.splits if_splits option.splits)
  done

interpretation close_out: shape_keeping "close_out os"
  apply unfold_locales
  subgoal for k i g e s ret e' s'
    by (cases k) (auto simp: close_out_def open_close_defs edge_shape_def Let_def split: prod.splits if_splits option.splits)
  subgoal for k i g e s ret e' s'
    by (cases k) (auto simp: close_out_def open_close_defs malloc_defs Let_def split: prod.splits if_splits option.splits)
  subgoal for k i g e s ret e' s'
    by (cases k) (auto simp: close_out_def open_close_defs malloc_defs Let_def split: prod.splits if_splits option.splits)
  done

interpretation close_in: shape_keeping "close_in os"
  apply unfold_locales
  subgoal for k i g e s ret e' s'
    by (cases k) (auto simp: close_in_def open_close_defs edge_shape_def Let_def split: prod.splits if_splits option.splits)
  subgoal for k i g e s ret e' s'
    by (cases k) (auto simp: close_in_def open_close_defs malloc_defs Let_def split: prod.splits if_splits option.splits)
  subgoal for k i g e s ret e' s'
    by (cases k) (auto simp: close_in_def open_close_defs malloc_defs Let_def split: prod.splits if_splits option.splits)
  done

section \<open>Claiming and releasing\<close>

definition valid_node :: "'w pgm_state \<Rightarrow> node_t \<Rightarrow> bool" where
  "valid_node s node \<longleftrightarrow> live_graph s (ngraph node) \<and> 0 \<le> nnode node \<and>
     nnode node < int (nr_nodes (graph_of s (ngraph node)))"

definition owner_of :: "'w pgm_state \<Rightarrow> node_t \<Rightarrow> pid_t" where
  "owner_of s node = owner (nodes (graph_of s (ngraph node)) (nat (nnode node)))"

lemma claim_node_frame:
  assumes "claim_node os graph j g s = Some (ret, g', s')"
  shows "same_shape g g' \<and> nodes g' = nodes g \<and> in_use g' = in_use g \<and> g_name g' = g_name g \<and> gGraphs s' = gGraphs s \<and>
    gIsGraphMaster s' = gIsGraphMaster s"
  using assms same_shape_trans
  by (fastforce simp: claim_node_def split: option.splits dest!: open_in.for_edges_frame open_out.for_edges_frame)

lemma release_node_frame:
  assumes "release_node os j g s = Some (ret, g', s')"
  shows "same_shape g g' \<and> nodes g' = (nodes g)(j := (nodes g j)\<lparr>owner := UNCLAIMED_NODE\<rparr>) \<and> in_use g' = in_use g \<and>
    g_name g' = g_name g \<and> gGraphs s' = gGraphs s \<and> gIsGraphMaster s' = gIsGraphMaster s"
proof -
  obtain b g1 s1 b2 g2 where a: "for_edges (close_out os) (out_list (nodes g j)) False g s = Some (b, g1, s1)"
    "for_edges (close_in os) (in_list (nodes g1 j)) b g1 s1 = Some (b2, g2, s')"
    "g' = upd_node j (owner_update (\<lambda>_. UNCLAIMED_NODE)) g2"
    using assms by (auto simp: release_node_def split: option.splits)
  note f = close_out.for_edges_frame [OF a(1)] close_in.for_edges_frame [OF a(2)]
  have "same_shape g g2" using f same_shape_trans by blast
  moreover have "same_shape g2 g'" by (simp add: a(3) same_shape_def upd_node_def node_shape_def)
  ultimately have "same_shape g g'" by (rule same_shape_trans)
  then show ?thesis using f by (simp add: a(3) upd_node_def)
qed

lemma same_shape_owner: "same_shape g (upd_node j (owner_update (\<lambda>_. w)) g)"
  by (simp add: same_shape_def upd_node_def node_shape_def)

lemma graph_of_nat: "nat h = nat h' \<Longrightarrow> graph_of s h = graph_of s h'"
  unfolding graph_of_def by metis

text \<open>What an operation that keeps the shape of its graph does to the state.\<close>

lemma set_graph_shape:
  assumes "state_inv s" and "live_graph s h" and "same_shape (graph_of s h) g" and "in_use g"
    and "gGraphs t = gGraphs s"
  shows "state_inv (set_graph h g t)" and "live_graph (set_graph h g t) h' = live_graph s h'"
    and "graph_of (set_graph h g t) h' = (if nat h' = nat h then g else graph_of s h')"
proof -
  have t: "live_graph t = live_graph s" "graph_of t = graph_of s" "state_inv t = state_inv s"
    using assms(5) live_graph_cong graph_of_cong state_inv_cong by blast+
  have "graph_inv g" using graph_inv_same_shape [OF assms(3)] state_invD [OF assms(1,2)] by simp
  then show "state_inv (set_graph h g t)"
    using state_inv_set_graph [of t h g] assms(1) live_graph_nonneg [OF assms(2)] t by simp
  show "graph_of (set_graph h g t) h' = (if nat h' = nat h then g else graph_of s h')"
  proof (cases "nat h' = nat h")
    case True
    then have "graph_of (set_graph h g t) h' = graph_of (set_graph h g t) h" by (rule graph_of_nat)
    then show ?thesis using True assms(2) t by simp
  next
    case False
    then show ?thesis using graph_of_set_graph_other [of h h' g t] t by auto
  qed
  show "live_graph (set_graph h g t) h' = live_graph s h'"
    using assms(2,4) unfolding t(1) [symmetric]
    by (auto elim!: live_graphD simp: live_graph_def is_valid_graph_def set_graph_def split: option.splits if_splits)
qed

lemma claim_cases:
  assumes "state_inv s" and "pgm_claim_node os self node tid s = Some (ret, s')"
  obtains (refused) "ret = -1" "s' = s" "\<not> valid_node s node \<or> owner_of s node \<noteq> UNCLAIMED_NODE"
  | (taken) g' t where "valid_node s node" "owner_of s node = UNCLAIMED_NODE"
      "claim_node os (ngraph node) (nat (nnode node)) (upd_node (nat (nnode node)) (owner_update (\<lambda>_. claimant self tid))
         (graph_of s (ngraph node))) s = Some (ret, g', t)"
      "s' = set_graph (ngraph node) g' t" "same_shape (graph_of s (ngraph node)) g'" "in_use g'" "gGraphs t = gGraphs s"
      "gIsGraphMaster t = gIsGraphMaster s"
      "nodes g' = (nodes (graph_of s (ngraph node)))(nat (nnode node) :=
         (nodes (graph_of s (ngraph node)) (nat (nnode node)))\<lparr>owner := claimant self tid\<rparr>)"
proof (cases "valid_node s node \<and> owner_of s node = UNCLAIMED_NODE")
  case True
  let ?g = "graph_of s (ngraph node)" and ?j = "nat (nnode node)"
  let ?claimed = "upd_node ?j (owner_update (\<lambda>_. claimant self tid)) ?g"
  have live: "live_graph s (ngraph node)" using True by (simp add: valid_node_def)
  then have use: "in_use ?g" by (auto elim!: live_graphD)
  obtain g' t where r: "claim_node os (ngraph node) ?j ?claimed s = Some (ret, g', t)" and s': "s' = set_graph (ngraph node) g' t"
    using assms(2) True live by (auto simp: pgm_claim_node_def valid_node_def owner_of_def Let_def)
  note f = claim_node_frame [OF r]
  show thesis
  proof (rule taken [OF _ _ r s'])
    show "same_shape ?g g'" using same_shape_trans [OF same_shape_owner] f by blast
    show "in_use g'" using f use by (simp add: upd_node_def)
    show "nodes g' = (nodes ?g)(?j := (nodes ?g ?j)\<lparr>owner := claimant self tid\<rparr>)" using f by (simp add: upd_node_def)
  qed (use True f in auto)
next
  case False
  then have "ret = -1 \<and> s' = s" using assms(2)
    by (auto simp: pgm_claim_node_def with_graph_def valid_node_def owner_of_def live_graph_def Let_def
        split: option.splits if_splits)
  then show thesis using refused False by blast
qed


lemma valid_node_index:
  assumes "valid_node s m" and "valid_node s node" and "nat (ngraph m) = nat (ngraph node)"
    and "nat (nnode m) = nat (nnode node)"
  shows "m = node"
proof -
  have "0 \<le> ngraph m" "0 \<le> ngraph node" using assms(1,2) by (auto simp: valid_node_def dest: live_graph_nonneg)
  then show ?thesis using assms by (cases m; cases node) (auto simp: valid_node_def)
qed

text \<open>
  C18: claiming a free node, whether its edges can be opened or not, makes the claimant its owner and
  changes the owner of no other node; from then on every further claim of the node is refused
  without effect, and so is a release by any other thread.
\<close>

theorem claim_excludes_others:
  assumes "state_inv s" and "valid_node s node" and "owner_of s node = UNCLAIMED_NODE"
    and "claimant self tid \<noteq> UNCLAIMED_NODE" and "pgm_claim_node os self node tid s = Some (ret, s')"
  shows "owner_of s' node = claimant self tid \<and>
    (\<forall>m. valid_node s m \<and> m \<noteq> node \<longrightarrow> owner_of s' m = owner_of s m) \<and>
    (\<forall>os2 self2 tid2. pgm_claim_node os2 self2 node tid2 s' = Some (-1, s')) \<and>
    (\<forall>os2 self2 tid2. claimant self2 tid2 \<noteq> claimant self tid \<longrightarrow>
       pgm_release_node os2 self2 node tid2 s' = Some (-1, s'))"
proof -
  have nonneg: "0 \<le> ngraph m" if "valid_node s m" for m
    using that by (auto simp: valid_node_def dest: live_graph_nonneg)
  have "owner_of s' node = claimant self tid \<and> live_graph s' (ngraph node) \<and>
      (\<forall>m. valid_node s m \<and> m \<noteq> node \<longrightarrow> owner_of s' m = owner_of s m)"
    using assms(1,5)
  proof (cases rule: claim_cases)
    case refused
    then show ?thesis using assms(2,3) by simp
  next
    case (taken g' t)
    have live: "live_graph s (ngraph node)" using assms(2) by (simp add: valid_node_def)
    note sg = set_graph_shape [OF assms(1) live taken(5-7)]
    show ?thesis
      using taken(9) sg(2,3) live valid_node_index [OF _ assms(2)] nonneg [OF assms(2)] nonneg
      by (auto simp: taken(4) owner_of_def eq_nat_nat_iff)
  qed
  then show ?thesis
    using assms(4) by (auto simp: pgm_claim_node_def pgm_release_node_def owner_of_def Let_def)
qed

lemma claim_node_ok:
  assumes "claim_node os h j g s = Some (0, g', s')"
  shows "\<exists>g1 s1. for_edges (open_in os h) (in_list (nodes g j)) False g s = Some (False, g1, s1) \<and>
    for_edges (open_out os h) (out_list (nodes g j)) False g1 s1 = Some (False, g', s')"
proof -
  obtain b g1 s1 where "for_edges (open_in os h) (in_list (nodes g j)) False g s = Some (b, g1, s1)"
    "for_edges (open_out os h) (out_list (nodes g1 j)) b g1 s1 = Some (False, g', s')"
    using assms by (auto simp: claim_node_def split: option.splits if_splits)
  then show ?thesis using for_edges_error open_in.for_edges_frame by (cases b) fastforce+
qed

lemma release_node_ok:
  assumes "release_node os j g s = Some (0, g', s')"
  shows "\<exists>g1 s1 g2. for_edges (close_out os) (out_list (nodes g j)) False g s = Some (False, g1, s1) \<and>
    for_edges (close_in os) (in_list (nodes g j)) False g1 s1 = Some (False, g2, s') \<and>
    g' = upd_node j (owner_update (\<lambda>_. UNCLAIMED_NODE)) g2"
proof -
  obtain b g1 s1 g2 where "for_edges (close_out os) (out_list (nodes g j)) False g s = Some (b, g1, s1)"
    "for_edges (close_in os) (in_list (nodes g1 j)) b g1 s1 = Some (False, g2, s')"
    "g' = upd_node j (owner_update (\<lambda>_. UNCLAIMED_NODE)) g2"
    using assms by (auto simp: release_node_def split: option.splits if_splits)
  then show ?thesis using for_edges_error close_out.for_edges_frame by (cases b) fastforce+
qed

text \<open>An edge, after its ends were opened and closed by the loops over the lists \<open>ins\<close> and \<open>outs\<close>.\<close>

lemma reopened_edge:
  assumes "if i \<in> ins then \<exists>k ga sa sb. e_ops e0 = Some k \<and> open_in os h k i ga e0 sa = Some (0, e1, sb) else e1 = e0"
    and "if i \<in> outs then \<exists>k ga sa sb. e_ops e1 = Some k \<and> open_out os h k i ga e1 sa = Some (0, e2, sb) else e2 = e1"
    and "if i \<in> outs then \<exists>k ga sa sb. e_ops e2 = Some k \<and> close_out os k i ga e2 sa = Some (0, e3, sb) else e3 = e2"
    and "if i \<in> ins then \<exists>k ga sa sb. e_ops e3 = Some k \<and> close_in os k i ga e3 sa = Some (0, e4, sb) else e4 = e3"
    and "i \<in> ins \<Longrightarrow> e_fd_in e0 = 0 \<and> e_buf_in e0 = 0"
    and "i \<in> outs \<Longrightarrow> e_fd_out e0 = 0 \<and> e_buf_out e0 = 0 \<and> fd_prod_socket (e_attr e0) = 0"
  shows "e4 = e0"
proof -
  have mid: "e3 = e1" if "i \<in> outs \<Longrightarrow> e_fd_out e1 = 0 \<and> e_buf_out e1 = 0 \<and> fd_prod_socket (e_attr e1) = 0"
  proof (cases "i \<in> outs")
    case True
    then obtain k ga sa sb where o: "e_ops e1 = Some k" "open_out os h k i ga e1 sa = Some (0, e2, sb)"
      using assms(2) by auto
    note e2 = open_producer_edge [OF o(2) [unfolded open_out_def]]
    then have "e_ops e2 = Some k" using o(1) by (auto split: if_splits)
    then obtain sc sd where "ops_close_producer k os e2 sc = Some (0, e3, sd)"
      using assms(3) True by (auto simp: close_out_def)
    from close_producer_edge [OF this] e2 that [OF True] show ?thesis by (auto split: if_splits)
  qed (use assms(2,3) in simp)
  show ?thesis
  proof (cases "i \<in> ins")
    case True
    then obtain k ga sa sb where o: "e_ops e0 = Some k" "open_in os h k i ga e0 sa = Some (0, e1, sb)"
      using assms(1) by auto
    note e1 = open_consumer_edge [OF o(2) [unfolded open_in_def]]
    have "e3 = e1" using mid e1 assms(6) by (auto split: if_splits)
    moreover from this have "e_ops e3 = Some k" using o(1) e1 by (auto split: if_splits)
    ultimately obtain sc sd where "ops_close_consumer k os e1 sc = Some (0, e4, sd)"
      using assms(4) True by (auto simp: close_in_def)
    from close_consumer_edge [OF this] e1 assms(5) [OF True] show ?thesis by (auto split: if_splits)
  next
    case False
    then show ?thesis using assms(1,4,6) mid by simp
  qed
qed

lemma loops_reopen:
  assumes "distinct ins" and "distinct outs"
    and "for_edges (open_in os h) ins False g0 s0 = Some (False, g1, s1)"
    and "for_edges (open_out os h) outs False g1 s1 = Some (False, g2, s2)"
    and "for_edges (close_out os) outs False g2 s2' = Some (False, g3, s3)"
    and "for_edges (close_in os) ins False g3 s3 = Some (False, g4, s4)"
    and "\<forall>i \<in> set ins. e_fd_in (edges g0 i) = 0 \<and> e_buf_in (edges g0 i) = 0"
    and "\<forall>i \<in> set outs. e_fd_out (edges g0 i) = 0 \<and> e_buf_out (edges g0 i) = 0 \<and> fd_prod_socket (e_attr (edges g0 i)) = 0"
  shows "edges g4 i = edges g0 i"
proof (rule reopened_edge [where ins = "set ins" and outs = "set outs" and i = i and os = os and h = h])
  show "if i \<in> set ins then \<exists>k ga sa sb. e_ops (edges g0 i) = Some k \<and>
      open_in os h k i ga (edges g0 i) sa = Some (0, edges g1 i, sb) else edges g1 i = edges g0 i"
    using open_in.for_edges_pointwise [OF assms(1,3), of i] open_in.for_edges_frame [OF assms(3)] by simp
qed (use open_out.for_edges_pointwise [OF assms(2,4), of i] open_out.for_edges_frame [OF assms(4)]
    close_out.for_edges_pointwise [OF assms(2,5), of i] close_out.for_edges_frame [OF assms(5)]
    close_in.for_edges_pointwise [OF assms(1,6), of i] close_in.for_edges_frame [OF assms(6)]
    assms(7,8) in auto)

lemma owner_restored:
  assumes "nodes g' = (nodes g)(j := (nodes g j)\<lparr>owner := p\<rparr>)" and "nodes g'' = (nodes g')(j := (nodes g' j)\<lparr>owner := UNCLAIMED_NODE\<rparr>)"
    and "owner (nodes g j) = UNCLAIMED_NODE"
  shows "nodes g'' = nodes g"
proof -
  have "(nodes g j)\<lparr>owner := UNCLAIMED_NODE\<rparr> = nodes g j"
    using assms(3) by (cases "nodes g j") simp
  then show ?thesis using assms(1,2) by simp
qed

text \<open>
  C17: a thread that claims a node whose ends are closed and releases it again, both without an error,
  leaves every graph as it was: the owner, and the descriptors and buffers of all edges.
\<close>

theorem claim_release_restores:
  fixes s node
  defines "g \<equiv> graph_of s (ngraph node)"
  assumes "state_inv s" and "valid_node s node" and "owner_of s node = UNCLAIMED_NODE"
    and "claimant self tid \<noteq> UNCLAIMED_NODE"
    and "\<forall>i \<in> set (in_list (nodes g (nat (nnode node)))). e_fd_in (edges g i) = 0 \<and> e_buf_in (edges g i) = 0"
    and "\<forall>i \<in> set (out_list (nodes g (nat (nnode node)))). e_fd_out (edges g i) = 0 \<and> e_buf_out (edges g i) = 0 \<and>
      fd_prod_socket (e_attr (edges g i)) = 0"
    and "pgm_claim_node os self node tid s = Some (0, s')"
    and "pgm_release_node os self node tid s' = Some (0, s'')"
  shows "graph_of s'' h = graph_of s h"
  using assms(2,8)
proof (cases rule: claim_cases)
  case (taken g2 t)
  let ?h = "ngraph node" and ?j = "nat (nnode node)"
  let ?ins = "in_list (nodes g ?j)" and ?outs = "out_list (nodes g ?j)"
  let ?claimed = "upd_node ?j (owner_update (\<lambda>_. claimant self tid)) g"
  have live: "live_graph s ?h" and lt: "?j < nr_nodes g" using assms(3) by (auto simp: valid_node_def g_def)
  have inv: "graph_inv g" using state_invD [OF assms(2) live] by (simp add: g_def)
  have dist: "distinct ?ins" "distinct ?outs"
    using graph_inv_lists [OF inv lt] by (simp_all add: in_edges_of_def out_edges_def)
  have lists: "in_list (nodes ?claimed ?j) = ?ins" "out_list (nodes ?claimed ?j) = ?outs"
    "in_list (nodes g2 ?j) = ?ins" "out_list (nodes g2 ?j) = ?outs"
    using taken(9) by (simp_all add: upd_node_def in_list_def out_list_def g_def)
  note sg = set_graph_shape [OF assms(2) live taken(5-7)]
  have "owner (nodes g2 ?j) = claimant self tid" using taken(9) by simp
  then obtain g4 u where rel: "release_node os ?j g2 s' = Some (0, g4, u)" "s'' = set_graph ?h g4 u"
    using assms(5,9) sg(2,3) live assms(3) taken(5)
    by (auto simp: pgm_release_node_def taken(4) valid_node_def same_shape_def)
  note fr = release_node_frame [OF rel(1)]
  obtain g1 s1 where o: "for_edges (open_in os ?h) ?ins False ?claimed s = Some (False, g1, s1)"
    "for_edges (open_out os ?h) ?outs False g1 s1 = Some (False, g2, t)"
    using claim_node_ok [OF taken(3)] lists by (auto simp: g_def)
  obtain g3 s3 g5 where c: "for_edges (close_out os) ?outs False g2 s' = Some (False, g3, s3)"
    "for_edges (close_in os) ?ins False g3 s3 = Some (False, g5, u)"
    "g4 = upd_node ?j (owner_update (\<lambda>_. UNCLAIMED_NODE)) g5"
    using release_node_ok [OF rel(1)] lists by auto
  have "edges g5 i = edges ?claimed i" for i
    using assms(6,7) by (intro loops_reopen [OF dist o c(1,2)]) (simp_all add: upd_node_def)
  then have "edges g5 = edges g" by (simp add: upd_node_def fun_eq_iff)
  moreover have "nodes g4 = nodes g"
    using owner_restored [OF taken(9), of g4] fr assms(4) by (simp add: owner_of_def g_def)
  moreover have "nr_nodes g4 = nr_nodes g" "nr_edges g4 = nr_edges g" "in_use g4 = in_use g" "g_name g4 = g_name g"
    using fr taken(5,6) claim_node_frame [OF taken(3)] live
    by (auto simp: same_shape_def g_def upd_node_def elim: live_graphD)
  moreover have "edges g4 = edges g5" by (simp add: c(3) upd_node_def)
  ultimately have "g4 = g" by simp
  have "live_graph s' ?h" "graph_of s' ?h = g2" "state_inv s'" using sg live by (simp_all add: taken(4))
  then have "graph_of s'' h = (if nat h = nat ?h then g4 else graph_of s' h)"
    using set_graph_shape(3) [of s' ?h g4 u] fr taken(6) by (simp add: rel(2))
  then show ?thesis using sg(3) \<open>g4 = g\<close> graph_of_nat [of h ?h s] by (simp add: taken(4) g_def)
next
  case refused
  then show ?thesis using assms(3,4) by simp
qed

text \<open>The example: 31 condition-variable edges lead into the second node; their operations do nothing.\<close>

lemma upd_edge_id: "upd_edge i (\<lambda>_. edges g i) g = g"
  by (cases g) (simp add: upd_edge_def)

lemma full_graph_loops:
  fixes s :: "addr pgm_state"
  assumes "edges g = edges full_graph" and "set is \<subseteq> {..<31}"
  shows "for_edges (open_in sample_os 0) is False g s = Some (False, g, s)"
    and "for_edges (close_in sample_os) is False g s = Some (False, g, s)"
proof -
  have "edges g i = full_edge" if "i \<in> set is" for i using assms that by (auto simp: full_graph_def)
  then have "for_edges (open_in sample_os 0) is False g s = Some (False, g, s) \<and>
      for_edges (close_in sample_os) is False g s = Some (False, g, s)"
  proof (induction "is")
    case (Cons i "is")
    then have "upd_edge i (\<lambda>_. full_edge) g = g" using upd_edge_id [of i g] by simp
    then show ?case
      using Cons by (simp add: full_edge_fields open_in_def close_in_def dummy_edge_op_def dummy_edge_close_def)
  qed simp
  then show "for_edges (open_in sample_os 0) is False g s = Some (False, g, s)"
    and "for_edges (close_in sample_os) is False g s = Some (False, g, s)" by blast+
qed

definition claimed_graph :: pgm_graph where
  "claimed_graph = upd_node 1 (owner_update (\<lambda>_. 1)) full_graph"

lemma claimed_graph_fields:
  "in_list (nodes claimed_graph 1) = [0..<31]" "out_list (nodes claimed_graph 1) = []"
  "edges claimed_graph = edges full_graph" "nr_nodes claimed_graph = 2" "owner (nodes claimed_graph 1) = 1"
  "in_use claimed_graph" "same_shape full_graph claimed_graph"
  using same_shape_owner [of full_graph 1 1]
  by (simp_all add: claimed_graph_def upd_node_def full_graph_def in_list_def out_list_def zero_node_def)

lemma full_state_claim:
  "pgm_claim_node sample_os 1 node1 0 full_state = Some (0, set_graph 0 claimed_graph full_state)"
proof -
  have "claim_node sample_os 0 1 claimed_graph full_state = Some (0, claimed_graph, full_state)"
    by (simp add: claim_node_def claimed_graph_fields full_graph_loops subset_iff del: One_nat_def)
  moreover have "owner (nodes full_graph 1) = UNCLAIMED_NODE" "nr_nodes full_graph = 2" by (simp_all add: full_graph_def)
  moreover have "live_graph full_state 0" by (simp add: full_state_live)
  ultimately show ?thesis
    by (simp add: pgm_claim_node_def full_state_live claimant_def claimed_graph_def)
qed

lemma full_state_free: "valid_node full_state node1" "owner_of full_state node1 = UNCLAIMED_NODE"
  "claimant 1 0 \<noteq> UNCLAIMED_NODE" "valid_node full_state node0"
  "owner_of full_state node0 = UNCLAIMED_NODE"
  by (simp_all add: valid_node_def owner_of_def full_state_live full_graph_def claimant_def UNCLAIMED_NODE_def)

theorem claim_excludes_others_witness:
  "\<exists>s'. pgm_claim_node sample_os 1 node1 0 full_state = Some (0, s') \<and> owner_of s' node1 = 1 \<and>
    owner_of s' node0 = UNCLAIMED_NODE \<and> pgm_claim_node sample_os 2 node1 0 s' = Some (-1, s') \<and>
    pgm_release_node sample_os 2 node1 0 s' = Some (-1, s')"
  using full_state_claim claim_excludes_others [OF full_state_inv full_state_free(1-3) full_state_claim] full_state_free(4,5)
  by (auto simp: claimant_def)

lemma pgm_claim_node_inv:
  assumes "state_inv s" and "pgm_claim_node os self node tid s = Some (ret, s')"
  shows "state_inv s'"
  using assms
proof (cases rule: claim_cases)
  case (taken g' t)
  have live: "live_graph s (ngraph node)" using taken(1) by (simp add: valid_node_def)
  show ?thesis using set_graph_shape(1) [OF assms(1) live taken(5-7)] by (simp add: taken(4))
qed (use assms in simp)

lemma pgm_release_node_inv:
  assumes "state_inv s" and "pgm_release_node os self node tid s = Some (ret, s')"
  shows "state_inv s'"
proof -
  consider "s' = s" | g' t where "live_graph s (ngraph node)" "s' = set_graph (ngraph node) g' t"
    "release_node os (nat (nnode node)) (graph_of s (ngraph node)) s = Some (ret, g', t)"
    using assms(2) by (auto simp: pgm_release_node_def with_graph_def live_graph_def split: option.splits if_splits)
  then show ?thesis
  proof cases
    case (2 g' t)
    have "in_use (graph_of s (ngraph node))" using 2(1) by (auto elim: live_graphD)
    then show ?thesis
      using set_graph_shape(1) [OF assms(1) 2(1), of g' t] release_node_frame [OF 2(3)] by (simp add: 2(2))
  qed (use assms in simp)
qed

text \<open>
  C31: \<open>pgm_claim_any_node\<close> fails without effect when every node has an owner; otherwise it makes the
  claimant the owner of the first free node and of no other, also when it then fails to open an edge
  and returns no handle, after which the caller cannot release the node it owns.
\<close>

theorem claim_any_takes_first_free:
  fixes s graph
  defines "g \<equiv> graph_of s graph"
  assumes "state_inv s" and "live_graph s graph" and "pgm_claim_any_node os self graph True tid s = Some (ret, hnd, s')"
  shows "if \<forall>i < nr_nodes g. owner (nodes g i) \<noteq> UNCLAIMED_NODE then ret = -1 \<and> hnd = None \<and> s' = s
    else \<exists>j < nr_nodes g. owner (nodes g j) = UNCLAIMED_NODE \<and> (\<forall>i < j. owner (nodes g i) \<noteq> UNCLAIMED_NODE) \<and>
      nodes (graph_of s' graph) = (nodes g)(j := (nodes g j)\<lparr>owner := claimant self tid\<rparr>) \<and>
      hnd = (if ret = 0 then Some \<lparr>ngraph = graph, nnode = int j\<rparr> else None) \<and> (ret = 0 \<or> ret = -1)"
proof (cases "first_index (\<lambda>i. owner (nodes g i) = UNCLAIMED_NODE) (nr_nodes g)")
  case None
  then show ?thesis
    using assms(3,4) None [unfolded first_index_None] by (auto simp: pgm_claim_any_node_def g_def)
next
  case (Some j)
  note j = first_index_Some [OF Some]
  let ?claimed = "upd_node j (owner_update (\<lambda>_. claimant self tid)) g"
  obtain g' t where r: "claim_node os graph j ?claimed s = Some (ret, g', t)" and s': "s' = set_graph graph g' t"
    and h: "hnd = (if ret = 0 then Some \<lparr>ngraph = graph, nnode = int j\<rparr> else None)"
    using assms(3,4) Some by (auto simp: pgm_claim_any_node_def g_def)
  note f = claim_node_frame [OF r]
  have "same_shape g g'" using same_shape_trans [OF same_shape_owner] f by blast
  moreover have "in_use g'" using f assms(3) by (auto simp: upd_node_def g_def elim: live_graphD)
  ultimately have "graph_of s' graph = g'"
    using set_graph_shape(3) [OF assms(2,3), of g' t] f by (simp add: s' g_def)
  then have "nodes (graph_of s' graph) = (nodes g)(j := (nodes g j)\<lparr>owner := claimant self tid\<rparr>)"
    using f by (simp add: upd_node_def)
  moreover have "ret = 0 \<or> ret = -1" using r by (auto simp: claim_node_def split: option.splits if_splits)
  ultimately show ?thesis using j h by auto
qed

theorem claim_any_takes_first_free_witness:
  "\<exists>s'. pgm_claim_any_node sample_os 1 0 True 0 two_nodes = Some (0, Some node0, s') \<and>
    owner (nodes (graph_of s' 0) 0) = 1 \<and> owner (nodes (graph_of s' 0) 1) = UNCLAIMED_NODE"
proof -
  have live: "live_graph two_nodes 0" by (simp add: two_nodes_live)
  have g: "nr_nodes (graph_of two_nodes 0) = 2" "owner (nodes (graph_of two_nodes 0) 0) = UNCLAIMED_NODE"
    "owner (nodes (graph_of two_nodes 0) 1) = UNCLAIMED_NODE"
    "in_list (nodes (graph_of two_nodes 0) 0) = []" "out_list (nodes (graph_of two_nodes 0) 0) = []"
    by (simp_all add: two_nodes_def graph_of_def zero_graph_def zero_node_def in_list_def out_list_def)
  have "first_index (\<lambda>i. owner (nodes (graph_of two_nodes 0) i) = UNCLAIMED_NODE) 2 = Some 0"
    using g by (simp add: first_index_def upt_rec)
  then have run: "\<exists>s'. pgm_claim_any_node sample_os 1 0 True 0 two_nodes = Some (0, Some node0, s')"
    using live g by (simp add: pgm_claim_any_node_def claim_node_def upd_node_def in_list_def out_list_def)
  then obtain s' where r: "pgm_claim_any_node sample_os 1 0 True 0 two_nodes = Some (0, Some node0, s')" by blast
  have "nodes (graph_of s' 0) = (nodes (graph_of two_nodes 0))(0 := (nodes (graph_of two_nodes 0) 0)\<lparr>owner := claimant 1 0\<rparr>)"
    using claim_any_takes_first_free [OF two_nodes_inv live r] g by (auto split: if_splits)
  then show ?thesis using r g by (simp add: claimant_def)
qed

theorem claim_release_restores_witness:
  "\<exists>s' s''. pgm_claim_node sample_os 1 node1 0 full_state = Some (0, s') \<and>
    pgm_release_node sample_os 1 node1 0 s' = Some (0, s'') \<and> graph_of s'' 0 = full_graph"
proof -
  let ?s = "set_graph 0 claimed_graph full_state"
  have live: "live_graph ?s 0" "graph_of ?s 0 = claimed_graph"
    using set_graph_shape(2,3) [OF full_state_inv, of 0 claimed_graph full_state] claimed_graph_fields
    by (simp_all add: full_state_live)
  have "\<exists>r. release_node sample_os 1 claimed_graph ?s = Some (0, r)"
    by (simp add: release_node_def claimed_graph_fields full_graph_loops subset_iff del: One_nat_def)
  moreover have "nat 1 = (1 :: nat)" by simp
  ultimately obtain s'' where r: "pgm_release_node sample_os 1 node1 0 ?s = Some (0, s'')"
    using live by (auto simp: pgm_release_node_def claimed_graph_fields claimant_def UNCLAIMED_NODE_def
        simp del: One_nat_def nat_1)
  have closed: "e_fd_in full_edge = 0" "e_buf_in full_edge = 0"
    by (simp_all add: full_edge_def new_edge_def zero_edge_def Let_def)
  have l: "in_list (nodes full_graph 1) = [0..<31]" "out_list (nodes full_graph 1) = []"
    by (simp_all add: full_graph_def in_list_def out_list_def zero_node_def)
  have ed: "edges full_graph i = full_edge" if "i < 31" for i using that by (simp add: full_graph_def)
  have "graph_of s'' 0 = graph_of full_state 0"
    by (rule claim_release_restores [OF full_state_inv full_state_free(1-3) _ _ full_state_claim r])
      (simp_all add: full_state_live l [simplified] ed closed)
  then show ?thesis using full_state_claim r by (simp add: full_state_live)
qed
end
