(* ===== verification/Pgm_Tokens.thy ===== *)
theory Pgm_Tokens
  imports Pgm_Ownership
begin

text \<open>
  The token counters of signal-driven edges and the waiting and waking of their consumer
  (\<open>src/src/pgm.cpp\<close>, token transmission routines).
\<close>

section \<open>Operations\<close>

datatype eWaitStatus = WaitSuccess | WaitTimeout | WaitExhaustedAndTerminate | WaitError

definition edge_ready :: "pgm_edge \<Rightarrow> bool" where
  "edge_ready e \<longleftrightarrow> is_signal_driven (e_attr e) \<and> (e_nr_pending e \<ge> nr_threshold (e_attr e) \<or> e_nr_skips e > 0)"

definition nr_ready_edges :: "pgm_graph \<Rightarrow> pgm_node \<Rightarrow> nat" where
  "nr_ready_edges g n = length (filter (\<lambda>i. edge_ready (edges g i)) (in_list n))"

definition nr_ready_normal :: "pgm_graph \<Rightarrow> pgm_node \<Rightarrow> nat" where
  "nr_ready_normal g n = length (filter (\<lambda>i. edge_ready (edges g i) \<and> \<not> e_is_backedge (edges g i)) (in_list n))"

text \<open>The condition a consumer waits for, tested without the lock first and then under it: \<open>None\<close> is to wait.\<close>

definition all_terminated :: "pgm_node \<Rightarrow> bool" where
  "all_terminated n \<longleftrightarrow> nr_terminate_signals n \<noteq> 0 \<and>
     int (nr_terminate_signals n) = int (nr_in_signaled n) - int (nr_in_signaled_backedges n)"

definition token_status :: "pgm_graph \<Rightarrow> pgm_node \<Rightarrow> eWaitStatus option" where
  "token_status g n =
     (if nr_ready_edges g n = nr_in_signaled n then Some WaitSuccess
      else if nr_ready_normal g n = 0 \<and> all_terminated n then Some WaitExhaustedAndTerminate
      else None)"

text \<open>
  \<open>pgm_wait_for_tokens\<close> on node \<open>j\<close> of graph \<open>h\<close>. \<open>sleep\<close> is the blocking call: the state in which
  \<open>pgm_cv_wait\<close> returns, after other threads have run. A loop that never ends is \<open>None\<close>.
\<close>

partial_function (option) wait_for_tokens ::
  "('w pgm_state \<Rightarrow> 'w pgm_state) \<Rightarrow> graph_t \<Rightarrow> nat \<Rightarrow> 'w pgm_state \<Rightarrow> (eWaitStatus \<times> 'w pgm_state) option"
where
  "wait_for_tokens sleep h j s =
     (case token_status (graph_of s h) (nodes (graph_of s h) j) of
        Some wait_status \<Rightarrow> Some (wait_status, s)
      | None \<Rightarrow> wait_for_tokens sleep h j (sleep s))"

definition consume_skip :: "pgm_edge \<Rightarrow> pgm_edge" where
  "consume_skip e = (if e_nr_skips e > 0 then e\<lparr>e_nr_skips := e_nr_skips e - 1\<rparr> else e)"

definition consume_skips :: "pgm_graph \<Rightarrow> pgm_node \<Rightarrow> pgm_graph" where
  "consume_skips g n = fold (\<lambda>i. upd_edge i consume_skip) (in_list n) g"

definition consume_token :: "pgm_edge \<Rightarrow> pgm_edge" where
  "consume_token e =
     (if is_signal_driven (e_attr e) \<and> e_nr_skips e = 0
      then e\<lparr>e_nr_pending := e_nr_pending e - nr_consume (e_attr e)\<rparr> else e)"

definition consume_tokens :: "pgm_graph \<Rightarrow> pgm_node \<Rightarrow> pgm_graph" where
  "consume_tokens g n = fold (\<lambda>i. upd_edge i consume_token) (in_list n) g"

definition send_tokens :: "pgm_edge \<Rightarrow> bool \<times> pgm_edge" where
  "send_tokens e =
     (let old_nr_tokens = e_nr_pending e; a = e_attr e;
          e = e\<lparr>e_nr_pending := old_nr_tokens + nr_produce a\<rparr>
      in (old_nr_tokens < nr_threshold a \<and> old_nr_tokens + nr_produce a \<ge> nr_threshold a, e))"

section \<open>Lemmas\<close>

lemma unat_add_no_wrap: "unat a + unat b < 2 ^ 64 \<Longrightarrow> unat (a + b) = unat a + unat b" for a b :: size_t
  by (simp add: unat_word_ariths)

lemma length_filter_mono:
  "(\<And>x. x \<in> set xs \<Longrightarrow> P x \<Longrightarrow> Q x) \<Longrightarrow> length (filter P xs) \<le> length (filter Q xs)"
  by (induction xs) (auto simp: le_SucI)

lemma fold_upd_edge:
  assumes "distinct is"
  shows "edges (fold (\<lambda>i. upd_edge i f) is g) i = (if i \<in> set is then f (edges g i) else edges g i)"
    and "nodes (fold (\<lambda>i. upd_edge i f) is g) = nodes g" and "nr_nodes (fold (\<lambda>i. upd_edge i f) is g) = nr_nodes g"
    and "nr_edges (fold (\<lambda>i. upd_edge i f) is g) = nr_edges g" and "in_use (fold (\<lambda>i. upd_edge i f) is g) = in_use g"
  using assms by (induction "is" arbitrary: g) (auto simp: upd_edge_def)

lemma same_shape_fold:
  assumes "\<And>e. edge_shape (f e) = edge_shape e"
  shows "same_shape g (fold (\<lambda>i. upd_edge i f) is g)"
proof (induction "is" arbitrary: g)
  case (Cons i "is")
  have "same_shape g (upd_edge i f g)"
    using same_shape_upd_edge [of "f (edges g i)" g i] assms by (simp add: upd_edge_def)
  then show ?case using Cons same_shape_trans by fastforce
qed (simp add: same_shape_def)

lemma consume_shape [simp]: "edge_shape (consume_skip e) = edge_shape e" "edge_shape (consume_token e) = edge_shape e"
  "edge_shape (snd (send_tokens e)) = edge_shape e"
  by (simp_all add: consume_skip_def consume_token_def send_tokens_def edge_shape_def Let_def)

lemma edge_ready_eq: "nr_ready_edges g n = nr_ready_edges g' n"
  if "\<And>i. i \<in> set (in_list n) \<Longrightarrow> edge_ready (edges g i) = edge_ready (edges g' i)"
  using that unfolding nr_ready_edges_def by (metis (no_types, lifting) filter_cong)

section \<open>Waking a consumer\<close>

text \<open>
  One consumer, node \<open>j\<close>, and any number of producers, interleaved at the atomic steps of the code: the
  addition to a token counter, the increment of the count of terminate signals, the wake-up a producer owes
  after it (the test and the signal, under the lock of the node), and the consumer's test, which goes to
  sleep under the same lock or consumes. \<open>wakers\<close> and \<open>term_wakers\<close> count the wake-ups owed for tokens and for
  terminate signals.
\<close>

record wake_state =
  wgraph :: pgm_graph
  asleep :: bool
  wakers :: nat
  term_wakers :: nat

inductive wake_step :: "nat \<Rightarrow> wake_state \<Rightarrow> wake_state \<Rightarrow> bool" for j :: nat where
  produce: "i \<in> set (in_list (nodes (wgraph s) j)) \<Longrightarrow> e = edges (wgraph s) i \<Longrightarrow> is_signal_driven (e_attr e) \<Longrightarrow>
    unat (e_nr_pending e) + unat (nr_produce (e_attr e)) < 2 ^ 64 \<Longrightarrow> send_tokens e = (wake, e') \<Longrightarrow>
    wake_step j s (s\<lparr>wgraph := upd_edge i (\<lambda>_. e') (wgraph s), wakers := wakers s + of_bool wake\<rparr>)"
| terminate: "wake_step j s (s\<lparr>wgraph := upd_node j (nr_terminate_signals_update Suc) (wgraph s),
    term_wakers := term_wakers s + 1\<rparr>)"
| wake: "wakers s = Suc w \<Longrightarrow>
    wake_step j s (s\<lparr>wakers := w, asleep := asleep s \<and>
      nr_ready_edges (wgraph s) (nodes (wgraph s) j) \<noteq> nr_in_signaled (nodes (wgraph s) j)\<rparr>)"
| wake_terminate: "term_wakers s = Suc w \<Longrightarrow> wake_step j s (s\<lparr>term_wakers := w, asleep := False\<rparr>)"
| go_to_sleep: "\<not> asleep s \<Longrightarrow> token_status (wgraph s) (nodes (wgraph s) j) = None \<Longrightarrow>
    wake_step j s (s\<lparr>asleep := True\<rparr>)"
| consume: "\<not> asleep s \<Longrightarrow> token_status (wgraph s) (nodes (wgraph s) j) = Some WaitSuccess \<Longrightarrow>
    wake_step j s (s\<lparr>wgraph := consume_skips (consume_tokens (wgraph s) (nodes (wgraph s) j)) (nodes (wgraph s) j)\<rparr>)"

definition wake_inv :: "nat \<Rightarrow> wake_state \<Rightarrow> bool" where
  "wake_inv j s \<longleftrightarrow> (let g = wgraph s; n = nodes g j in asleep s \<longrightarrow>
     (nr_ready_edges g n = nr_in_signaled n \<longrightarrow> 0 < wakers s + term_wakers s) \<and>
     (nr_ready_normal g n = 0 \<and> all_terminated n \<longrightarrow> 0 < term_wakers s))"

lemma send_tokens_ready:
  assumes "send_tokens e = (wake, e')" and "is_signal_driven (e_attr e)"
    and "unat (e_nr_pending e) + unat (nr_produce (e_attr e)) < 2 ^ 64"
  shows "edge_ready e' \<longleftrightarrow> edge_ready e \<or> wake" and "e_is_backedge e' = e_is_backedge e" and "e_attr e' = e_attr e"
proof -
  have "unat (e_nr_pending e + nr_produce (e_attr e)) = unat (e_nr_pending e) + unat (nr_produce (e_attr e))"
    using unat_add_no_wrap [OF assms(3)] .
  then have mono: "e_nr_pending e \<le> e_nr_pending e + nr_produce (e_attr e)" by (simp add: word_le_nat_alt)
  show "edge_ready e' \<longleftrightarrow> edge_ready e \<or> wake"
    using assms(1,2) mono by (auto simp: send_tokens_def edge_ready_def Let_def not_le)
  show "e_is_backedge e' = e_is_backedge e" "e_attr e' = e_attr e" using assms(1) by (auto simp: send_tokens_def Let_def)
qed

lemma wake_inv_produce:
  assumes inv: "wake_inv j s" and e: "e = edges (wgraph s) i" "is_signal_driven (e_attr e)"
    and no_wrap: "unat (e_nr_pending e) + unat (nr_produce (e_attr e)) < 2 ^ 64" and send: "send_tokens e = (wake, e')"
  shows "wake_inv j (s\<lparr>wgraph := upd_edge i (\<lambda>_. e') (wgraph s), wakers := wakers s + of_bool wake\<rparr>)"
proof -
  let ?g = "wgraph s" and ?g' = "upd_edge i (\<lambda>_. e') (wgraph s)"
  let ?n = "nodes (wgraph s) j"
  note r = send_tokens_ready [OF send e(2) no_wrap]
  have n: "nodes ?g' j = ?n" by (simp add: upd_edge_def)
  have mono: "edge_ready (edges ?g k) \<Longrightarrow> edge_ready (edges ?g' k)" for k
    using r(1) e(1) by (auto simp: upd_edge_def)
  have "nr_ready_normal ?g ?n \<le> nr_ready_normal ?g' ?n"
    unfolding nr_ready_normal_def
    by (rule length_filter_mono) (use mono r(2) e(1) in \<open>auto simp: upd_edge_def\<close>)
  moreover have "nr_ready_edges ?g ?n = nr_ready_edges ?g' ?n" if "\<not> wake"
    by (rule edge_ready_eq) (use that r(1) e(1) in \<open>auto simp: upd_edge_def\<close>)
  ultimately show ?thesis
    using inv unfolding wake_inv_def Let_def by (auto simp: n split: if_splits)
qed

lemma wake_step_inv: "wake_step j s s' \<Longrightarrow> wake_inv j s \<Longrightarrow> wake_inv j s'"
proof (induction rule: wake_step.induct)
  case (produce i s e wake e')
  then show ?case using wake_inv_produce by blast
next
  case (terminate s)
  then show ?case by (simp add: wake_inv_def Let_def)
next
  case (wake s w)
  then show ?case by (auto simp: wake_inv_def Let_def)
next
  case (wake_terminate s w)
  then show ?case by (simp add: wake_inv_def Let_def)
next
  case (go_to_sleep s)
  then show ?case by (auto simp: wake_inv_def token_status_def Let_def split: if_splits)
next
  case (consume s)
  then show ?case by (simp add: wake_inv_def Let_def)
qed

text \<open>
  C9: no wake-up is lost: in every interleaving of producers with the consumer, which starts awake, the
  consumer sleeps only while its condition is false or a producer still owes it a wake-up; once no
  wake-up is owed, a sleeping consumer really has to wait.
\<close>

theorem no_lost_wakeup:
  assumes "(wake_step j)\<^sup>*\<^sup>* s s'" and "\<not> asleep s" and "asleep s'" and "wakers s' = 0" and "term_wakers s' = 0"
  shows "token_status (wgraph s') (nodes (wgraph s') j) = None"
proof -
  have "wake_inv j s" using assms(2) by (simp add: wake_inv_def)
  with assms(1) have "wake_inv j s'" by (induction rule: rtranclp_induct) (blast intro: wake_step_inv)+
  then show ?thesis using assms(3-) by (simp add: wake_inv_def token_status_def Let_def)
qed

theorem no_lost_wakeup_witness:
  "\<exists>s'. (wake_step 1)\<^sup>*\<^sup>* \<lparr>wgraph = full_graph, asleep = False, wakers = 0, term_wakers = 0\<rparr> s' \<and>
    asleep s' \<and> token_status (wgraph s') (nodes (wgraph s') 1) = None"
proof -
  let ?s = "\<lparr>wgraph = full_graph, asleep = False, wakers = 0, term_wakers = 0\<rparr>"
  have "\<not> edge_ready full_edge"
    by (simp add: edge_ready_def full_edge_def new_edge_def zero_edge_def default_edge_def zero_attr_def Let_def)
  then have "\<forall>i \<in> set (in_list (nodes full_graph 1)). \<not> edge_ready (edges full_graph i)"
    by (simp add: full_graph_def in_list_def)
  then have "nr_ready_edges full_graph (nodes full_graph 1) = 0" by (simp add: nr_ready_edges_def filter_empty_conv)
  moreover have "nr_in_signaled (nodes full_graph 1) = 31" "nr_terminate_signals (nodes full_graph 1) = 0"
    by (simp_all add: full_graph_def zero_node_def)
  ultimately have "token_status full_graph (nodes full_graph 1) = None" by (simp add: token_status_def all_terminated_def)
  then have "wake_step 1 ?s (?s\<lparr>asleep := True\<rparr>)" using wake_step.go_to_sleep [of ?s 1] by simp
  then have run: "(wake_step 1)\<^sup>*\<^sup>* ?s (?s\<lparr>asleep := True\<rparr>)" by (rule r_into_rtranclp)
  show ?thesis using no_lost_wakeup [OF run] run by auto
qed
end
