(* ===== verification/Pgm_Data.thy ===== *)
theory Pgm_Data
  imports Pgm_Tokens
begin

text \<open>
  Passing data over edges (\<open>src/src/pgm.cpp\<close>, \<open>pgm_send_data\<close>, \<open>pgm_wait_for_data\<close>,
  \<open>pgm_recv_data\<close>): every message is preceded by a one-byte tag; a consumer may take more or fewer bytes
  at a time than the producer sends.
\<close>

section \<open>Sending\<close>

definition PGM_NORMAL :: byte where "PGM_NORMAL = 1"

definition load_bytes :: "(addr \<Rightarrow> byte) \<Rightarrow> addr \<Rightarrow> nat \<Rightarrow> byte list" where
  "load_bytes m a n = map (\<lambda>k. m (a + of_nat k)) [0..<n]"

definition store_bytes :: "addr \<Rightarrow> byte list \<Rightarrow> 'w pgm_state \<Rightarrow> 'w pgm_state" where
  "store_bytes a bs s = s\<lparr>mem_byte := (\<lambda>x. if unat (x - a) < length bs then bs ! unat (x - a) else mem_byte s x)\<rparr>"

text \<open>
  The loop of \<open>pgm_send_std_data\<close>: repeated writes of what is left; a full pipe is retried. On the
  platforms of the code \<open>EWOULDBLOCK\<close> is \<open>EAGAIN\<close>.
\<close>

partial_function (option) send_loop ::
  "edge_ops \<Rightarrow> 'w os \<Rightarrow> pgm_edge \<Rightarrow> addr \<Rightarrow> size_t \<Rightarrow> 'w pgm_state \<Rightarrow> 'w edge_result"
where
  "send_loop k os e a sz s =
     (case ops_write k os e (load_bytes (mem_byte s) a (unat sz)) s of
        None \<Rightarrow> None
      | Some (bytes, e, s) \<Rightarrow>
          if bytes > 0 then
            if word_of_int bytes = sz then Some (0, e, s)
            else send_loop k os e (a + word_of_int bytes) (sz - word_of_int bytes) s
          else if bytes = -1 \<and> os_errno os (world s) = EAGAIN then send_loop k os e a sz s
          else Some (-1, e, s))"

definition send_std_data :: "edge_ops \<Rightarrow> 'w os \<Rightarrow> pgm_edge \<Rightarrow> byte \<Rightarrow> 'w pgm_state \<Rightarrow> 'w edge_result" where
  "send_std_data k os e tag s =
     (let sz = (if tag AND PGM_TERMINATE \<noteq> 0 then 1 else nr_produce (e_attr e) + 1);
          tag_ptr = pgm_get_user_ptr (e_buf_out e) - 1
      in send_loop k os e tag_ptr sz (store_bytes tag_ptr [tag] s))"

definition send_ring_data :: "edge_ops \<Rightarrow> 'w os \<Rightarrow> pgm_edge \<Rightarrow> byte \<Rightarrow> 'w pgm_state \<Rightarrow> 'w edge_result" where
  "send_ring_data k os e tag s =
     (if tag AND PGM_TERMINATE = 0 then
        map_option (\<lambda>(_, e, s). (0, e, s))
          (ops_write k os e
             (load_bytes (mem_byte s) (pgm_get_user_ptr (e_buf_out e)) (unat (nr_produce (e_attr e)))) s)
      else Some (0, e\<lparr>e_ring_cmd := tag\<rparr>, s))"

definition send_data :: "edge_ops \<Rightarrow> 'w os \<Rightarrow> pgm_edge \<Rightarrow> byte \<Rightarrow> 'w pgm_state \<Rightarrow> 'w edge_result" where
  "send_data k os e tag s =
     (if etype (e_attr e) AND PGM_EDGE_RING = 0 then send_std_data k os e tag s else send_ring_data k os e tag s)"

section \<open>Receiving from one edge\<close>

text \<open>
  How the part of \<open>pgm_recv_data\<close> between the label \<open>read_more\<close> and the end of the loop body leaves an
  edge: with its data, with a terminate message, with an unknown tag, with a read that would block, or
  with an error. An end of file counts as done.
\<close>

datatype read_outcome = EdgeDone | EdgeTerminated | EdgeMalformed | EdgeBlocked | EdgeFailed

definition read_failed :: "'w os \<Rightarrow> int \<Rightarrow> 'w pgm_state \<Rightarrow> read_outcome" where
  "read_failed os bytes_read s =
     (if bytes_read = -1 then if os_errno os (world s) = EAGAIN then EdgeBlocked else EdgeFailed else EdgeDone)"

definition tag_outcome :: "byte \<Rightarrow> read_outcome option" where
  "tag_outcome tag =
     (if tag AND PGM_TERMINATE \<noteq> 0 then Some EdgeTerminated
      else if tag AND PGM_NORMAL = 0 then Some EdgeMalformed else None)"

text \<open>
  \<open>read_more\<close>: \<open>dest\<close> is the entry of \<open>dest_ptrs\<close> for the edge. The first read of a message takes the tag
  along, into the byte in front of the buffer; later reads stop before the next tag; a tag met with data
  already in the buffer is read on its own. A failed assertion is \<open>None\<close>.
\<close>

partial_function (option) read_more ::
  "edge_ops \<Rightarrow> 'w os \<Rightarrow> pgm_edge \<Rightarrow> addr \<Rightarrow> 'w pgm_state \<Rightarrow> (read_outcome \<times> pgm_edge \<times> addr \<times> 'w pgm_state) option"
where
  "read_more k os e dest s =
     (let consume = nr_consume (e_attr e); produce = nr_produce (e_attr e);
          remaining = consume - (dest - pgm_get_user_ptr (e_buf_in e))
      in if sint remaining \<le> 0 then None
         else if remaining = consume \<and> e_next_tag e = 0 then
           let chunk_size = (if consume \<le> produce then consume else produce); tag_ptr = dest - 1 in
           (case ops_read k os e (chunk_size + 1) s of
              None \<Rightarrow> None
            | Some ((bytes_read, bs), e, s) \<Rightarrow>
                let s = store_bytes tag_ptr bs s in
                if bytes_read > 0 then
                  let bytes_read = bytes_read - 1; e = e\<lparr>e_next_tag := produce - word_of_int bytes_read\<rparr> in
                  (case tag_outcome (mem_byte s tag_ptr) of
                     Some r \<Rightarrow> Some (r, e, dest, s)
                   | None \<Rightarrow>
                       if word_of_int bytes_read \<noteq> consume then read_more k os e (dest + word_of_int bytes_read) s
                       else Some (EdgeDone, e, dest, s))
                else Some (read_failed os bytes_read s, e, dest, s))
         else if e_next_tag e \<noteq> 0 then
           let chunk_size = (if remaining \<le> e_next_tag e then remaining else e_next_tag e) in
           (case ops_read k os e chunk_size s of
              None \<Rightarrow> None
            | Some ((bytes_read, bs), e, s) \<Rightarrow>
                let s = store_bytes dest bs s in
                if bytes_read > 0 then
                  let e = e\<lparr>e_next_tag := e_next_tag e - word_of_int bytes_read\<rparr> in
                  if sint remaining \<noteq> bytes_read then read_more k os e (dest + word_of_int bytes_read) s
                  else Some (EdgeDone, e, dest, s)
                else Some (read_failed os bytes_read s, e, dest, s))
         else
           (case ops_read k os e 1 s of
              None \<Rightarrow> None
            | Some ((bytes_read, bs), e, s) \<Rightarrow>
                if bytes_read > 0 then
                  let e = e\<lparr>e_next_tag := produce\<rparr> in
                  (case bs of
                     [] \<Rightarrow> None
                   | tag # _ \<Rightarrow>
                       (case tag_outcome tag of
                          Some r \<Rightarrow> Some (r, e, dest, s)
                        | None \<Rightarrow> read_more k os e dest s))
                else Some (read_failed os bytes_read s, e, dest, s)))"

section \<open>The framing of a byte stream\<close>

text \<open>
  The bytes in the pipe of an edge whose producer sends \<open>P\<close> bytes per message, when the data \<open>d\<close> is in
  flight and \<open>t\<close> bytes of the message that is being read are left.
\<close>

fun framed :: "nat \<Rightarrow> nat \<Rightarrow> byte list \<Rightarrow> byte list" where
  "framed P t [] = []"
| "framed P t (b # d) = (if t = 0 then PGM_NORMAL # b # framed P (P - 1) d else b # framed P (t - 1) d)"

text \<open>
  What \<open>read\<close> and \<open>recv\<close> promise on a stream: if there is something to read, some bytes from the front, at
  least one and at most as many as asked for.
\<close>

definition stream_read :: "edge_ops \<Rightarrow> 'w os \<Rightarrow> int \<Rightarrow> nat \<Rightarrow> 'w \<Rightarrow> (int \<times> byte list) \<times> 'w" where
  "stream_read k os = (if k = fifo_edge_ops then os_read os else os_recv os)"

definition reads_pipe :: "edge_ops \<Rightarrow> 'w os \<Rightarrow> int \<Rightarrow> ('w \<Rightarrow> byte list) \<Rightarrow> bool" where
  "reads_pipe k os fd pipe \<longleftrightarrow> (k = fifo_edge_ops \<or> k = sock_stream_edge_ops) \<and>
     (\<forall>n w. 0 < n \<and> pipe w \<noteq> [] \<longrightarrow> (\<exists>m w'. stream_read k os fd n w = ((int m, take m (pipe w)), w') \<and>
        0 < m \<and> m \<le> n \<and> m \<le> length (pipe w) \<and> pipe w' = drop m (pipe w)))"

lemma framed_tag: "0 < P \<Longrightarrow> d \<noteq> [] \<Longrightarrow> framed P 0 d = PGM_NORMAL # framed P P d"
  by (cases d) auto

lemma framed_split:
  "m \<le> t \<Longrightarrow> m \<le> length d \<Longrightarrow> take m (framed P t d) = take m d \<and> drop m (framed P t d) = framed P (t - m) (drop m d)"
proof (induction m arbitrary: t d)
  case (Suc m)
  then obtain b d' where d: "d = b # d'" by (cases d) auto
  with Suc show ?case by simp
qed simp

lemma length_framed: "length d \<le> length (framed P t d)"
  by (induction P t d rule: framed.induct) auto

lemma ops_read_pipe:
  assumes "reads_pipe k os (e_fd_in e) pipe" and "0 < unat n" and "pipe (world s) \<noteq> []"
  shows "\<exists>m w'. ops_read k os e n s = Some ((int m, take m (pipe (world s))), e, s\<lparr>world := w'\<rparr>) \<and>
    0 < m \<and> m \<le> unat n \<and> m \<le> length (pipe (world s)) \<and> pipe w' = drop m (pipe (world s))"
proof -
  obtain m w' where m: "stream_read k os (e_fd_in e) (unat n) (world s) = ((int m, take m (pipe (world s))), w')"
    "0 < m" "m \<le> unat n" "m \<le> length (pipe (world s))" "pipe w' = drop m (pipe (world s))"
    using assms unfolding reads_pipe_def by blast
  have "ops_read k os e n s = Some ((int m, take m (pipe (world s))), e, s\<lparr>world := w'\<rparr>)"
    using assms(1) m(1) by (auto simp: reads_pipe_def stream_read_def fifo_read_def sock_stream_read_def sys_def)
  with m show ?thesis by blast
qed

text \<open>Reading memory after a store, by offsets from the start of a buffer.\<close>

lemma unat_of_nat_small: "n < 2 ^ 64 \<Longrightarrow> unat (of_nat n :: addr) = n"
  by (simp only: unat_of_nat) simp

lemma unat_diff_offsets:
  assumes "i < 2 ^ 63" and "j < 2 ^ 63"
  shows "unat (of_nat i - of_nat j :: addr) = (if j \<le> i then i - j else 2 ^ 64 - (j - i))"
proof (cases "j \<le> i")
  case True
  then have "of_nat i - of_nat j = (of_nat (i - j) :: addr)" by (simp add: of_nat_diff)
  then show ?thesis using True assms unat_of_nat_small [of "i - j"] by simp
next
  case False
  have "(of_nat (2 ^ 64) :: addr) = 0" by (simp flip: word_unat_eq_iff)
  moreover have "j - i \<le> 2 ^ 64" using assms by simp
  ultimately have "of_nat i - of_nat j = (of_nat (2 ^ 64 - (j - i)) :: addr)"
    using False by (simp only: of_nat_diff) (simp add: of_nat_diff)
  moreover have "unat (of_nat (2 ^ 64 - (j - i)) :: addr) = 2 ^ 64 - (j - i)"
    by (rule unat_of_nat_small) (use False in simp)
  ultimately show ?thesis using False by simp
qed

lemma mem_store:
  assumes "i < 2 ^ 63" and "off < 2 ^ 63" and "length bs \<le> 2 ^ 63"
  shows "mem_byte (store_bytes (a + of_nat off) bs s) (a + of_nat i) =
    (if off \<le> i \<and> i < off + length bs then bs ! (i - off) else mem_byte s (a + of_nat i))"
  using assms by (auto simp: store_bytes_def unat_diff_offsets)

lemma mem_store_tag:
  assumes "i < 2 ^ 63" and "length bs \<le> 2 ^ 63"
  shows "mem_byte (store_bytes (a - 1) (tag # bs) s) (a + of_nat i) =
    (if i < length bs then bs ! i else mem_byte s (a + of_nat i))"
    and "mem_byte (store_bytes (a - 1) (tag # bs) s) (a - 1) = tag"
proof -
  have "a - 1 + of_nat (i + 1) = a + of_nat i" "a - 1 + of_nat 0 = a - 1" by simp_all
  moreover have "unat (of_nat (i + 1) :: addr) = i + 1" using assms(1) by (simp only: unat_of_nat) simp
  ultimately show "mem_byte (store_bytes (a - 1) (tag # bs) s) (a + of_nat i) =
      (if i < length bs then bs ! i else mem_byte s (a + of_nat i))"
    by (auto simp: store_bytes_def algebra_simps)
  show "mem_byte (store_bytes (a - 1) (tag # bs) s) (a - 1) = tag" by (simp add: store_bytes_def)
qed

lemma store_bytes_fields [simp]: "world (store_bytes a bs s) = world s" "gGraphs (store_bytes a bs s) = gGraphs s"
  by (simp_all add: store_bytes_def)

lemma tag_outcome_normal [simp]: "tag_outcome PGM_NORMAL = None"
  by (simp add: tag_outcome_def PGM_NORMAL_def PGM_TERMINATE_def)


text \<open>The consumer's end of a stream edge with the data \<open>d\<close> in flight, which ends with a message.\<close>

definition in_flight :: "edge_ops \<Rightarrow> 'w os \<Rightarrow> ('w \<Rightarrow> byte list) \<Rightarrow> pgm_edge \<Rightarrow> byte list \<Rightarrow> 'w pgm_state \<Rightarrow> bool" where
  "in_flight k os pipe e d s \<longleftrightarrow> reads_pipe k os (e_fd_in e) pipe \<and>
     0 < nr_produce (e_attr e) \<and> unat (nr_produce (e_attr e)) < 2 ^ 62 \<and>
     0 < nr_consume (e_attr e) \<and> unat (nr_consume (e_attr e)) < 2 ^ 62 \<and>
     e_next_tag e \<le> nr_produce (e_attr e) \<and> unat (e_next_tag e) \<le> length d \<and>
     unat (nr_produce (e_attr e)) dvd length d - unat (e_next_tag e) \<and>
     pipe (world s) = framed (unat (nr_produce (e_attr e))) (unat (e_next_tag e)) d"

text \<open>One round of the loop stored \<open>m\<close> bytes at the offset \<open>off\<close> of the buffer and left \<open>t\<close> bytes of the message.\<close>

definition read_round ::
  "edge_ops \<Rightarrow> 'w os \<Rightarrow> ('w \<Rightarrow> byte list) \<Rightarrow> pgm_edge \<Rightarrow> nat \<Rightarrow> byte list \<Rightarrow> 'w pgm_state \<Rightarrow> nat \<Rightarrow> size_t \<Rightarrow> 'w pgm_state \<Rightarrow> bool"
where
  "read_round k os pipe e off d s m t s' \<longleftrightarrow>
     (let base = pgm_get_user_ptr (e_buf_in e); left = unat (nr_consume (e_attr e)) - off in
      in_flight k os pipe (e\<lparr>e_next_tag := t\<rparr>) (drop m d) s' \<and> m \<le> left \<and> (0 < m \<or> e_next_tag e = 0 \<and> 0 < t) \<and>
      gGraphs s' = gGraphs s \<and>
      (\<forall>i < 2 ^ 62. mem_byte s' (base + of_nat i) =
         (if off \<le> i \<and> i < off + m then d ! (i - off) else mem_byte s (base + of_nat i))) \<and>
      read_more k os e (base + of_nat off) s =
        (if m = left then Some (EdgeDone, e\<lparr>e_next_tag := t\<rparr>, base + of_nat off, s')
         else read_more k os (e\<lparr>e_next_tag := t\<rparr>) (base + of_nat (off + m)) s'))"

lemma remaining_word:
  fixes c :: size_t
  assumes "off < unat c" and "unat c < 2 ^ 62"
  shows "unat (c - of_nat off) = unat c - off" and "sint (c - of_nat off) = int (unat c - off)"
proof -
  have "unat (of_nat off :: size_t) = off" by (rule unat_of_nat_small) (use assms in simp)
  then show u: "unat (c - of_nat off) = unat c - off" using assms(1) by (simp add: unat_sub word_le_nat_alt)
  have "unat c - off < 2 ^ 63" using assms(2) by simp
  then show "sint (c - of_nat off) = int (unat c - off)" using sint_eq_unat [of "c - of_nat off"] by (simp only: u)
qed

lemma dvd_message: "n dvd length d \<Longrightarrow> d \<noteq> [] \<Longrightarrow> n \<le> length d \<and> n dvd length d - n"
  by (simp add: dvd_imp_le dvd_diff_nat)

lemma dvd_message_add: "n dvd l - t \<Longrightarrow> t \<le> l \<Longrightarrow> n dvd l + n - t" for n :: nat
  by (metis Nat.add_diff_assoc2 dvd_add_triv_right_iff)

lemma remaining_cmp:
  fixes c :: size_t
  assumes "off < unat c" and "unat c < 2 ^ 62"
  shows "\<not> sint (c - of_nat off) \<le> 0" and "sint (c - of_nat off) = int m \<longleftrightarrow> m = unat c - off"
  unfolding remaining_word(2) [OF assms] using assms(1)
  by (simp_all only: of_nat_eq_iff of_nat_le_0_iff) auto

lemma read_round_next:
  assumes fl: "in_flight k os pipe e d s" and off: "off < unat (nr_consume (e_attr e))"
    and enough: "unat (nr_consume (e_attr e)) - off \<le> length d" and t: "e_next_tag e \<noteq> 0"
  shows "\<exists>m t' s'. read_round k os pipe e off d s m t' s'"
proof -
  let ?c = "nr_consume (e_attr e)" and ?p = "nr_produce (e_attr e)" and ?t = "e_next_tag e"
  let ?base = "pgm_get_user_ptr (e_buf_in e)"
  let ?left = "unat ?c - off"
  have b: "unat ?c < 2 ^ 62" "unat ?p < 2 ^ 62" "unat ?t \<le> unat ?p" "0 < unat ?t"
    using fl t by (auto simp: in_flight_def word_le_nat_alt unat_gt_0)
  note rem = remaining_word [OF off b(1)]
  define n where "n = (if ?c - of_nat off \<le> ?t then ?c - of_nat off else ?t)"
  have n: "unat n = min ?left (unat ?t)" unfolding n_def by (auto simp: rem(1) word_le_nat_alt min_def)
  have pipe: "pipe (world s) = framed (unat ?p) (unat ?t) d" using fl by (simp add: in_flight_def)
  have "d \<noteq> []" using enough off by auto
  then have "pipe (world s) \<noteq> []" using length_framed [of d "unat ?p" "unat ?t"] pipe by auto
  moreover have "0 < unat n" using n off b(4) by simp
  ultimately obtain m w' where r: "ops_read k os e n s = Some ((int m, take m (pipe (world s))), e, s\<lparr>world := w'\<rparr>)"
    and m: "0 < m" "m \<le> unat n" and w': "pipe w' = drop m (pipe (world s))"
    using ops_read_pipe fl by (metis in_flight_def)
  have ml: "m \<le> ?left" "m \<le> unat ?t" "m \<le> length d" using m(2) n enough by auto
  have tk: "take m (pipe (world s)) = take m d" "pipe w' = framed (unat ?p) (unat ?t - m) (drop m d)"
    using framed_split [OF ml(2,3)] pipe w' by simp_all
  define s' where "s' = store_bytes (?base + of_nat off) (take m d) (s\<lparr>world := w'\<rparr>)"
  have mw: "unat (of_nat m :: size_t) = m" by (rule unat_of_nat_small) (use ml b in simp)
  then have tm: "unat (?t - of_nat m) = unat ?t - m" using ml(2) by (simp add: unat_sub word_le_nat_alt)
  have "read_more k os e (?base + of_nat off) s =
      (if m = ?left then Some (EdgeDone, e\<lparr>e_next_tag := ?t - of_nat m\<rparr>, ?base + of_nat off, s')
       else read_more k os (e\<lparr>e_next_tag := ?t - of_nat m\<rparr>) (?base + of_nat (off + m)) s')"
  proof (cases "m = ?left")
    case True
    then have "sint (?c - of_nat off) = int m" using remaining_cmp(2) [OF off b(1)] by simp
    then have "read_more k os e (?base + of_nat off) s =
        Some (EdgeDone, e\<lparr>e_next_tag := ?t - of_nat m\<rparr>, ?base + of_nat off, s')"
      using t m(1) r tk(1)
      by (subst read_more.simps) (simp add: Let_def n_def [symmetric] s'_def)
    then show ?thesis using True by simp
  next
    case False
    then have "sint (?c - of_nat off) \<noteq> int m" using remaining_cmp(2) [OF off b(1)] by blast
    then have "read_more k os e (?base + of_nat off) s =
        read_more k os (e\<lparr>e_next_tag := ?t - of_nat m\<rparr>) (?base + of_nat (off + m)) s'"
      using t m(1) r tk(1)
      by (subst read_more.simps) (simp add: remaining_cmp(1) [OF off b(1)] Let_def n_def [symmetric] s'_def add.assoc)
    then show ?thesis using False by simp
  qed
  moreover have "in_flight k os pipe (e\<lparr>e_next_tag := ?t - of_nat m\<rparr>) (drop m d) s'"
    using fl tk(2) tm b ml by (simp add: in_flight_def s'_def word_le_nat_alt diff_le_mono)
  moreover have "mem_byte s' (?base + of_nat i) =
      (if off \<le> i \<and> i < off + m then d ! (i - off) else mem_byte s (?base + of_nat i))" if "i < 2 ^ 62" for i
    using mem_store [of i off "take m d" ?base "s\<lparr>world := w'\<rparr>"] that off b(1) ml by (auto simp: s'_def)
  ultimately have "read_round k os pipe e off d s m (?t - of_nat m) s'"
    using m(1) ml(1) by (simp add: read_round_def s'_def Let_def)
  then show ?thesis by blast
qed

lemma read_round_tag:
  assumes fl: "in_flight k os pipe e d s" and off: "off < unat (nr_consume (e_attr e))" "0 < off"
    and enough: "unat (nr_consume (e_attr e)) - off \<le> length d" and t: "e_next_tag e = 0"
  shows "\<exists>m t' s'. read_round k os pipe e off d s m t' s'"
proof -
  let ?c = "nr_consume (e_attr e)" and ?p = "nr_produce (e_attr e)"
  let ?base = "pgm_get_user_ptr (e_buf_in e)"
  have b: "unat ?c < 2 ^ 62" "unat ?p < 2 ^ 62" "0 < unat ?p"
    using fl by (auto simp: in_flight_def unat_gt_0)
  have "d \<noteq> []" using enough off by auto
  then have pipe: "pipe (world s) = PGM_NORMAL # framed (unat ?p) (unat ?p) d"
    using fl t framed_tag [OF b(3)] by (simp add: in_flight_def)
  obtain m w' where r: "ops_read k os e 1 s = Some ((int m, take m (pipe (world s))), e, s\<lparr>world := w'\<rparr>)"
    and "0 < m" "m \<le> unat (1 :: size_t)" and w': "pipe w' = drop m (pipe (world s))"
    using ops_read_pipe [of k os e pipe 1 s] fl pipe by (auto simp: in_flight_def)
  then have m: "m = 1" by simp
  let ?s' = "s\<lparr>world := w'\<rparr>"
  have "of_nat off \<noteq> (0 :: size_t)" using off b(1) unat_of_nat_small [of off] by auto
  then have "read_more k os e (?base + of_nat off) s = read_more k os (e\<lparr>e_next_tag := ?p\<rparr>) (?base + of_nat off) ?s'"
    using t r m pipe
    by (subst read_more.simps) (simp add: remaining_cmp(1) [OF off(1) b(1)] Let_def)
  moreover have "pipe w' = framed (unat ?p) (unat ?p) d" using w' pipe m by simp
  then have "in_flight k os pipe (e\<lparr>e_next_tag := ?p\<rparr>) d ?s'"
    using fl t dvd_message [of "unat ?p" d] \<open>d \<noteq> []\<close> unfolding in_flight_def by simp
  ultimately have "read_round k os pipe e off d s 0 ?p ?s'"
    using off t b(3) by (auto simp: read_round_def Let_def unat_gt_0 word_gt_0)
  then show ?thesis by blast
qed

lemma read_round_first:
  assumes fl: "in_flight k os pipe e d s"
    and enough: "unat (nr_consume (e_attr e)) \<le> length d" and t: "e_next_tag e = 0"
  shows "\<exists>m t' s'. read_round k os pipe e 0 d s m t' s'"
proof -
  let ?c = "nr_consume (e_attr e)" and ?p = "nr_produce (e_attr e)"
  let ?base = "pgm_get_user_ptr (e_buf_in e)"
  have b: "unat ?c < 2 ^ 62" "unat ?p < 2 ^ 62" "0 < unat ?p" "0 < unat ?c"
    using fl by (auto simp: in_flight_def unat_gt_0)
  have "d \<noteq> []" using enough b(4) by auto
  then have pipe: "pipe (world s) = PGM_NORMAL # framed (unat ?p) (unat ?p) d"
    using fl t framed_tag [OF b(3)] by (simp add: in_flight_def)
  define n where "n = (if ?c \<le> ?p then ?c else ?p)"
  have n: "unat n = min (unat ?c) (unat ?p)" by (simp add: n_def word_le_nat_alt min_def)
  have n1: "unat (n + 1) = unat n + 1" using n b by (subst unat_add_no_wrap) auto
  obtain m w' where r: "ops_read k os e (n + 1) s = Some ((int m, take m (pipe (world s))), e, s\<lparr>world := w'\<rparr>)"
    and m0: "0 < m" "m \<le> unat (n + 1)" and w': "pipe w' = drop m (pipe (world s))"
    using ops_read_pipe [of k os e pipe "n + 1" s] fl pipe n1 by (auto simp: in_flight_def)
  then obtain m' where m: "m = Suc m'" by (cases m) auto
  have ml: "m' \<le> unat ?c" "m' \<le> unat ?p" "m' \<le> length d" using m0(2) m n1 n enough by auto
  have tk: "take m (pipe (world s)) = PGM_NORMAL # take m' d" "pipe w' = framed (unat ?p) (unat ?p - m') (drop m' d)"
    using framed_split [OF ml(2,3)] pipe w' m by simp_all
  define s' where "s' = store_bytes (?base - 1) (PGM_NORMAL # take m' d) (s\<lparr>world := w'\<rparr>)"
  have mw: "unat (of_nat m' :: size_t) = m'" by (rule unat_of_nat_small) (use ml b in simp)
  then have tm: "unat (?p - of_nat m') = unat ?p - m'" using ml(2) by (simp add: unat_sub word_le_nat_alt)
  have mc: "of_nat m' = ?c \<longleftrightarrow> m' = unat ?c" using mw by auto
  have tag: "mem_byte s' (?base - 1) = PGM_NORMAL" by (simp add: s'_def store_bytes_def)
  have "read_more k os e ?base s =
      (if m' = unat ?c then Some (EdgeDone, e\<lparr>e_next_tag := ?p - of_nat m'\<rparr>, ?base, s')
       else read_more k os (e\<lparr>e_next_tag := ?p - of_nat m'\<rparr>) (?base + of_nat m') s')"
    using t r m tk(1) tag mc remaining_cmp(1) [of 0 ?c] b(1,4)
    by (subst read_more.simps) (simp add: Let_def n_def [symmetric] s'_def)
  moreover have "in_flight k os pipe (e\<lparr>e_next_tag := ?p - of_nat m'\<rparr>) (drop m' d) s'"
    using fl t tk(2) tm ml dvd_message [of "unat ?p" d] \<open>d \<noteq> []\<close> by (simp add: in_flight_def s'_def word_le_nat_alt)
  moreover have "mem_byte s' (?base + of_nat i) =
      (if i < m' then d ! i else mem_byte s (?base + of_nat i))" if "i < 2 ^ 62" for i
    using mem_store_tag(1) [of i "take m' d" ?base PGM_NORMAL "s\<lparr>world := w'\<rparr>"] that b(1) ml by (simp add: s'_def)
  moreover have "0 < m' \<or> 0 < ?p - of_nat m'" using b(3) by (cases m') (simp_all add: unat_gt_0 word_gt_0)
  ultimately have "read_round k os pipe e 0 d s m' (?p - of_nat m') s'"
    using t ml(1) by (simp add: read_round_def s'_def Let_def)
  then show ?thesis by blast
qed

lemma read_round_ex:
  assumes "in_flight k os pipe e d s" and "off < unat (nr_consume (e_attr e))"
    and "unat (nr_consume (e_attr e)) - off \<le> length d"
  shows "\<exists>m t' s'. read_round k os pipe e off d s m t' s'"
proof (cases "e_next_tag e = 0")
  case True
  then show ?thesis using read_round_tag [OF assms(1,2) _ assms(3)] read_round_first [OF assms(1)] assms(3)
    by (cases "off = 0") auto
qed (use read_round_next assms in blast)

lemma read_more_delivers:
  assumes "in_flight k os pipe e d s" and "off < unat (nr_consume (e_attr e))"
    and "unat (nr_consume (e_attr e)) - off \<le> length d"
  defines "base \<equiv> pgm_get_user_ptr (e_buf_in e)" and "left \<equiv> unat (nr_consume (e_attr e)) - off"
  shows "\<exists>t dest s'. read_more k os e (base + of_nat off) s = Some (EdgeDone, e\<lparr>e_next_tag := t\<rparr>, dest, s') \<and>
    in_flight k os pipe (e\<lparr>e_next_tag := t\<rparr>) (drop left d) s' \<and> gGraphs s' = gGraphs s \<and>
    (\<forall>i < 2 ^ 62. mem_byte s' (base + of_nat i) =
       (if off \<le> i \<and> i < off + left then d ! (i - off) else mem_byte s (base + of_nat i)))"
  using assms(1-3) unfolding base_def left_def
proof (induction "2 * (unat (nr_consume (e_attr e)) - off) + of_bool (e_next_tag e = 0)"
    arbitrary: e off d s rule: less_induct)
  case less
  let ?c = "unat (nr_consume (e_attr e))" and ?base = "pgm_get_user_ptr (e_buf_in e)"
  obtain m t s1 where r: "read_round k os pipe e off d s m t s1" using read_round_ex [OF less.prems] by blast
  let ?e = "e\<lparr>e_next_tag := t\<rparr>"
  from r have fl: "in_flight k os pipe ?e (drop m d) s1" and m: "m \<le> ?c - off" "0 < m \<or> e_next_tag e = 0 \<and> 0 < t"
    and gs: "gGraphs s1 = gGraphs s"
    and mem: "\<And>i. i < 2 ^ 62 \<Longrightarrow> mem_byte s1 (?base + of_nat i) =
         (if off \<le> i \<and> i < off + m then d ! (i - off) else mem_byte s (?base + of_nat i))"
    and run: "read_more k os e (?base + of_nat off) s =
        (if m = ?c - off then Some (EdgeDone, ?e, ?base + of_nat off, s1)
         else read_more k os ?e (?base + of_nat (off + m)) s1)"
    by (simp_all only: read_round_def Let_def)
  show ?case
  proof (cases "m = ?c - off")
    case True
    then show ?thesis using run fl gs mem by auto
  next
    case False
    let ?left = "?c - (off + m)"
    have "2 * (unat (nr_consume (e_attr ?e)) - (off + m)) + of_bool (e_next_tag ?e = 0) <
        2 * (?c - off) + of_bool (e_next_tag e = 0)"
      using m False less.prems(2) by (cases "m = 0") auto
    moreover have "off + m < unat (nr_consume (e_attr ?e))" using m False less.prems(2) by simp
    moreover have "unat (nr_consume (e_attr ?e)) - (off + m) \<le> length (drop m d)" using less.prems(3) by simp
    ultimately obtain t' dest s' where rec: "read_more k os ?e (?base + of_nat (off + m)) s1 = Some (EdgeDone, ?e\<lparr>e_next_tag := t'\<rparr>, dest, s')"
      and fl': "in_flight k os pipe (?e\<lparr>e_next_tag := t'\<rparr>) (drop ?left (drop m d)) s'" and gs': "gGraphs s' = gGraphs s1"
      and mem': "\<forall>i < 2 ^ 62. mem_byte s' (?base + of_nat i) =
        (if off + m \<le> i \<and> i < off + m + ?left then drop m d ! (i - (off + m)) else mem_byte s1 (?base + of_nat i))"
      using less.hyps [of ?e "off + m" "drop m d" s1] fl by auto
    have "?left + m = ?c - off" using m by simp
    then have "drop ?left (drop m d) = drop (?c - off) d" by (simp add: add.commute)
    moreover have "mem_byte s' (?base + of_nat i) =
        (if off \<le> i \<and> i < off + (?c - off) then d ! (i - off) else mem_byte s (?base + of_nat i))" if "i < 2 ^ 62" for i
      using mem' mem [OF that] that m(1) less.prems(2,3) by (auto simp: add.commute)
    ultimately show ?thesis using run rec False fl' gs gs' by auto
  qed
qed


text \<open>
  What \<open>write\<close> and \<open>send\<close> promise on a stream: to append some bytes from the front of what they are given,
  at least one, or to ask for a retry; \<open>retries\<close> bounds how often in a row.
\<close>

definition stream_write :: "edge_ops \<Rightarrow> 'w os \<Rightarrow> int \<Rightarrow> byte list \<Rightarrow> 'w \<Rightarrow> int \<times> 'w" where
  "stream_write k os = (if k = fifo_edge_ops then os_write os else os_send os)"

definition writes_pipe :: "edge_ops \<Rightarrow> 'w os \<Rightarrow> int \<Rightarrow> ('w \<Rightarrow> byte list) \<Rightarrow> ('w \<Rightarrow> nat) \<Rightarrow> bool" where
  "writes_pipe k os fd pipe retries \<longleftrightarrow> (k = fifo_edge_ops \<or> k = sock_stream_edge_ops) \<and>
     (\<forall>bs w. bs \<noteq> [] \<longrightarrow> (\<exists>r w'. stream_write k os fd bs w = (r, w') \<and>
        ((\<exists>m. r = int m \<and> 0 < m \<and> m \<le> length bs \<and> pipe w' = pipe w @ take m bs) \<or>
         (r = -1 \<and> os_errno os w' = EAGAIN \<and> pipe w' = pipe w \<and> retries w' < retries w))))"

lemma ops_write_pipe:
  assumes "writes_pipe k os (e_fd_out e) pipe retries" and "bs \<noteq> []"
  shows "\<exists>r w'. ops_write k os e bs s = Some (r, e, s\<lparr>world := w'\<rparr>) \<and>
    ((\<exists>m. r = int m \<and> 0 < m \<and> m \<le> length bs \<and> pipe w' = pipe (world s) @ take m bs) \<or>
     (r = -1 \<and> os_errno os w' = EAGAIN \<and> pipe w' = pipe (world s) \<and> retries w' < retries (world s)))"
proof -
  obtain r w' where r: "stream_write k os (e_fd_out e) bs (world s) = (r, w')"
    and c: "(\<exists>m. r = int m \<and> 0 < m \<and> m \<le> length bs \<and> pipe w' = pipe (world s) @ take m bs) \<or>
     (r = -1 \<and> os_errno os w' = EAGAIN \<and> pipe w' = pipe (world s) \<and> retries w' < retries (world s))"
    using assms unfolding writes_pipe_def by blast
  have "ops_write k os e bs s = Some (r, e, s\<lparr>world := w'\<rparr>)"
    using assms(1) r by (auto simp: writes_pipe_def stream_write_def fifo_write_def sock_stream_write_def sys_def)
  with c show ?thesis by blast
qed

lemma length_load_bytes [simp]: "length (load_bytes m a n) = n"
  by (simp add: load_bytes_def)

lemma load_bytes_split:
  "j \<le> n \<Longrightarrow> load_bytes m a n = load_bytes m a j @ load_bytes m (a + of_nat j) (n - j)"
  by (rule nth_equalityI) (auto simp: load_bytes_def nth_append add.assoc simp flip: of_nat_add)

lemma send_loop_appends:
  assumes "writes_pipe k os (e_fd_out e) pipe retries" and "0 < unat sz"
  shows "\<exists>w'. send_loop k os e a sz s = Some (0, e, s\<lparr>world := w'\<rparr>) \<and>
    pipe w' = pipe (world s) @ load_bytes (mem_byte s) a (unat sz)"
  using assms(2)
proof (induction "(unat sz, retries (world s))" arbitrary: a sz s rule: wf_induct_rule [OF wf_lex_prod [OF wf_less wf_less]])
  case 1
  let ?bs = "load_bytes (mem_byte s) a (unat sz)"
  have "?bs \<noteq> []" using 1(2) by (metis length_load_bytes length_0_conv less_numeral_extra(3))
  from ops_write_pipe [OF assms(1) this, of s]
  obtain r w1 where w: "ops_write k os e ?bs s = Some (r, e, s\<lparr>world := w1\<rparr>)"
    and c: "(\<exists>m. r = int m \<and> 0 < m \<and> m \<le> length ?bs \<and> pipe w1 = pipe (world s) @ take m ?bs) \<or>
     (r = -1 \<and> os_errno os w1 = EAGAIN \<and> pipe w1 = pipe (world s) \<and> retries w1 < retries (world s))"
    by blast
  from c show ?case
  proof
    assume "\<exists>m. r = int m \<and> 0 < m \<and> m \<le> length ?bs \<and> pipe w1 = pipe (world s) @ take m ?bs"
    then obtain m where m: "r = int m" "0 < m" "m \<le> unat sz" "pipe w1 = pipe (world s) @ take m ?bs" by auto
    have mw: "unat (of_nat m :: size_t) = m"
      by (rule unat_of_nat_small) (use le_less_trans [OF m(3) unat_less_2p64] in simp)
    have tk: "take m ?bs = load_bytes (mem_byte s) a m" using load_bytes_split [OF m(3)] by simp
    show ?thesis
    proof (cases "m = unat sz")
      case True
      then have "of_nat m = sz" by simp
      then have "send_loop k os e a sz s = Some (0, e, s\<lparr>world := w1\<rparr>)"
        using w m(1,2) by (subst send_loop.simps) simp
      then show ?thesis using m(4) True tk by auto
    next
      case False
      let ?sz = "sz - of_nat m"
      have sz: "unat ?sz = unat sz - m" using m(3) mw by (simp add: unat_sub word_le_nat_alt)
      have "of_nat m \<noteq> sz" using False mw by auto
      then have step: "send_loop k os e a sz s = send_loop k os e (a + of_nat m) ?sz (s\<lparr>world := w1\<rparr>)"
        using w m(1,2) by (subst send_loop.simps) simp
      have "\<exists>w'. send_loop k os e (a + of_nat m) ?sz (s\<lparr>world := w1\<rparr>) = Some (0, e, s\<lparr>world := w1\<rparr>\<lparr>world := w'\<rparr>) \<and>
          pipe w' = pipe w1 @ load_bytes (mem_byte s) (a + of_nat m) (unat ?sz)"
        using 1(1) [of ?sz "s\<lparr>world := w1\<rparr>" "a + of_nat m"] sz m(2,3) False by simp
      then show ?thesis using step m(4) tk load_bytes_split [OF m(3), of "mem_byte s" a] sz by auto
    qed
  next
    assume r: "r = -1 \<and> os_errno os w1 = EAGAIN \<and> pipe w1 = pipe (world s) \<and> retries w1 < retries (world s)"
    then have "send_loop k os e a sz s = send_loop k os e a sz (s\<lparr>world := w1\<rparr>)"
      using w by (subst send_loop.simps) simp
    then show ?thesis using 1(1) [of sz "s\<lparr>world := w1\<rparr>" a] 1(2) r by simp
  qed
qed

lemma framed_whole: "length d \<le> t \<Longrightarrow> framed P t d = d"
  by (induction d arbitrary: t) auto

lemma framed_append:
  assumes "0 < P" and "length msg = P"
  shows "t \<le> P \<Longrightarrow> t \<le> length d \<Longrightarrow> P dvd length d - t \<Longrightarrow> framed P t d @ PGM_NORMAL # msg = framed P t (d @ msg)"
proof (induction d arbitrary: t)
  case Nil
  have "msg \<noteq> []" using assms by auto
  then show ?case using Nil assms framed_tag [OF assms(1), of msg] framed_whole [of msg P] by simp
next
  case (Cons b d)
  show ?case
  proof (cases "t = 0")
    case True
    then have "P \<le> length (b # d)" "P dvd length (b # d) - P" using Cons.prems dvd_message [of P "b # d"] by auto
    then show ?thesis using Cons.IH [of "P - 1"] True assms(1) by (cases P) auto
  next
    case False
    then show ?thesis using Cons by auto
  qed
qed

text \<open>Sending the producer's buffer as a message.\<close>

lemma load_after_tag: "n < 2 ^ 63 \<Longrightarrow>
    load_bytes (mem_byte (store_bytes (a - 1) [tag] s)) (a - 1) (Suc n) = tag # load_bytes (mem_byte s) a n"
proof (rule nth_equalityI)
  fix i assume n: "n < 2 ^ 63" and i: "i < length (load_bytes (mem_byte (store_bytes (a - 1) [tag] s)) (a - 1) (Suc n))"
  show "load_bytes (mem_byte (store_bytes (a - 1) [tag] s)) (a - 1) (Suc n) ! i = (tag # load_bytes (mem_byte s) a n) ! i"
  proof (cases i)
    case 0
    then show ?thesis by (simp add: load_bytes_def store_bytes_def nth_append del: upt_Suc)
  next
    case (Suc j)
    then have "mem_byte (store_bytes (a - 1) [tag] s) (a + of_nat j) = mem_byte s (a + of_nat j)"
      using mem_store_tag(1) [of j "[]" a tag s] i n by simp
    moreover have "a - 1 + of_nat (Suc j) = a + of_nat j" by simp
    ultimately show ?thesis using Suc i by (simp add: load_bytes_def del: upt_Suc)
  qed
qed simp

lemma send_appends:
  assumes "in_flight k os pipe e d s" and "writes_pipe k os (e_fd_out e) pipe retries"
  defines "msg \<equiv> load_bytes (mem_byte s) (pgm_get_user_ptr (e_buf_out e)) (unat (nr_produce (e_attr e)))"
  shows "\<exists>s'. send_std_data k os e PGM_NORMAL s = Some (0, e, s') \<and> in_flight k os pipe e (d @ msg) s' \<and> gGraphs s' = gGraphs s"
proof -
  let ?p = "nr_produce (e_attr e)" and ?ptr = "pgm_get_user_ptr (e_buf_out e)"
  let ?s = "store_bytes (?ptr - 1) [PGM_NORMAL] s"
  have p: "0 < unat ?p" "unat ?p < 2 ^ 62" using assms(1) by (auto simp: in_flight_def unat_gt_0)
  have p1: "unat (?p + 1) = Suc (unat ?p)" using p by (subst unat_add_no_wrap) auto
  obtain w' where w: "send_loop k os e (?ptr - 1) (?p + 1) ?s = Some (0, e, ?s\<lparr>world := w'\<rparr>)"
    "pipe w' = pipe (world s) @ PGM_NORMAL # msg"
    using send_loop_appends [OF assms(2), of "?p + 1" "?ptr - 1" ?s] p1 p(2) by (auto simp: load_after_tag msg_def)
  have "in_flight k os pipe e (d @ msg) (?s\<lparr>world := w'\<rparr>)"
    using assms(1) framed_append [OF p(1), of msg "unat (e_next_tag e)" d] w(2)
    by (auto simp: in_flight_def msg_def word_le_nat_alt dvd_message_add)
  moreover have "send_std_data k os e PGM_NORMAL s = Some (0, e, ?s\<lparr>world := w'\<rparr>)"
    using w(1) by (simp add: send_std_data_def PGM_NORMAL_def PGM_TERMINATE_def Let_def)
  ultimately show ?thesis by auto
qed

text \<open>
  A producer that fills its buffer with one message after the other and sends it, and a consumer that
  takes \<open>n\<close> times what it consumes and looks at its buffer.
\<close>

fun send_all :: "edge_ops \<Rightarrow> 'w os \<Rightarrow> pgm_edge \<Rightarrow> byte list list \<Rightarrow> 'w pgm_state \<Rightarrow> (pgm_edge \<times> 'w pgm_state) option" where
  "send_all k os e [] s = Some (e, s)"
| "send_all k os e (msg # msgs) s =
     (case send_std_data k os e PGM_NORMAL (store_bytes (pgm_get_user_ptr (e_buf_out e)) msg s) of
        Some (ret, e, s) \<Rightarrow> if ret = 0 then send_all k os e msgs s else None
      | None \<Rightarrow> None)"

fun recv_all :: "edge_ops \<Rightarrow> 'w os \<Rightarrow> pgm_edge \<Rightarrow> nat \<Rightarrow> 'w pgm_state \<Rightarrow> (byte list \<times> pgm_edge \<times> 'w pgm_state) option" where
  "recv_all k os e 0 s = Some ([], e, s)"
| "recv_all k os e (Suc n) s =
     (let ptr = pgm_get_user_ptr (e_buf_in e) in
      case read_more k os e ptr s of
        Some (EdgeDone, e, _, s) \<Rightarrow>
          map_option (\<lambda>(bs, r). (load_bytes (mem_byte s) ptr (unat (nr_consume (e_attr e))) @ bs, r)) (recv_all k os e n s)
      | _ \<Rightarrow> None)"

lemma load_stored: "length bs < 2 ^ 63 \<Longrightarrow> load_bytes (mem_byte (store_bytes a bs s)) a (length bs) = bs"
proof (rule nth_equalityI)
  fix i assume "length bs < 2 ^ 63" "i < length (load_bytes (mem_byte (store_bytes a bs s)) a (length bs))"
  then show "load_bytes (mem_byte (store_bytes a bs s)) a (length bs) ! i = bs ! i"
    using mem_store [of i 0 bs a s] by (simp add: load_bytes_def)
qed simp

lemma send_all_appends:
  assumes "writes_pipe k os (e_fd_out e) pipe retries"
  shows "in_flight k os pipe e d s \<Longrightarrow> \<forall>msg \<in> set msgs. length msg = unat (nr_produce (e_attr e)) \<Longrightarrow>
    \<exists>s'. send_all k os e msgs s = Some (e, s') \<and> in_flight k os pipe e (d @ concat msgs) s'"
proof (induction msgs arbitrary: d s)
  case (Cons msg msgs)
  let ?s = "store_bytes (pgm_get_user_ptr (e_buf_out e)) msg s"
  have p: "length msg = unat (nr_produce (e_attr e))" "length msg < 2 ^ 63"
    using Cons.prems by (auto simp: in_flight_def)
  have "in_flight k os pipe e d ?s" using Cons.prems(1) by (simp add: in_flight_def)
  moreover have "load_bytes (mem_byte ?s) (pgm_get_user_ptr (e_buf_out e)) (unat (nr_produce (e_attr e))) = msg"
    using load_stored [OF p(2)] p(1) by simp
  ultimately obtain s' where s': "send_std_data k os e PGM_NORMAL ?s = Some (0, e, s')" "in_flight k os pipe e (d @ msg) s'"
    using send_appends [OF _ assms, of d ?s] by auto
  then show ?case using Cons.IH [OF s'(2)] Cons.prems(2) by simp
qed simp

lemma recv_all_delivers:
  "in_flight k os pipe e d s \<Longrightarrow> n * unat (nr_consume (e_attr e)) \<le> length d \<Longrightarrow>
    \<exists>e' s'. recv_all k os e n s = Some (take (n * unat (nr_consume (e_attr e))) d, e', s') \<and>
      in_flight k os pipe e' (drop (n * unat (nr_consume (e_attr e))) d) s'"
proof (induction n arbitrary: e d s)
  case (Suc n)
  let ?c = "unat (nr_consume (e_attr e))" and ?ptr = "pgm_get_user_ptr (e_buf_in e)"
  have c: "0 < ?c" "?c < 2 ^ 62" "?c \<le> length d" using Suc.prems by (auto simp: in_flight_def unat_gt_0)
  obtain t dest s1 where r: "read_more k os e ?ptr s = Some (EdgeDone, e\<lparr>e_next_tag := t\<rparr>, dest, s1)"
    "in_flight k os pipe (e\<lparr>e_next_tag := t\<rparr>) (drop ?c d) s1"
    "\<forall>i < 2 ^ 62. mem_byte s1 (?ptr + of_nat i) = (if i < ?c then d ! i else mem_byte s (?ptr + of_nat i))"
    using read_more_delivers [OF Suc.prems(1), of 0] c by auto
  have "load_bytes (mem_byte s1) ?ptr ?c = take ?c d"
    using r(3) c by (intro nth_equalityI) (auto simp: load_bytes_def)
  then show ?case
    using Suc.IH [OF r(2)] Suc.prems(2) r(1) by (auto simp: take_add Let_def add.commute)
qed simp

text \<open>
  C3: framing round trip: over a stream that may split and delay every transfer, any number of messages
  sent by \<open>pgm_send_std_data\<close> is received by the loop of \<open>pgm_recv_data\<close> byte for byte and in order, with all
  tags removed, whatever the amounts produced and consumed at a time; both loops return.
\<close>

theorem stream_roundtrip:
  assumes "in_flight k os pipe e [] s" and "writes_pipe k os (e_fd_out e) pipe retries"
    and "\<forall>msg \<in> set msgs. length msg = unat (nr_produce (e_attr e))"
    and "n * unat (nr_consume (e_attr e)) \<le> length (concat msgs)"
  shows "\<exists>s' e'' s''. send_all k os e msgs s = Some (e, s') \<and>
    recv_all k os e n s' = Some (take (n * unat (nr_consume (e_attr e))) (concat msgs), e'', s'')"
proof -
  obtain s' where s': "send_all k os e msgs s = Some (e, s')" "in_flight k os pipe e (concat msgs) s'"
    using send_all_appends [OF assms(2,1,3)] by auto
  then show ?thesis using recv_all_delivers [OF s'(2) assms(4)] by blast
qed

text \<open>A pipe that hands out at most two bytes at a time.\<close>

definition take_pipe :: "nat \<Rightarrow> byte list \<Rightarrow> (int \<times> byte list) \<times> byte list" where
  "take_pipe n w =
     (if w = [] then ((-1, []), w) else let m = min (min n 2) (length w) in ((int m, take m w), drop m w))"

definition pipe_os :: "byte list os" where
  "pipe_os = dead_os\<lparr>os_read := (\<lambda>_. take_pipe), os_write := (\<lambda>_ bs w. (int (length bs), w @ bs))\<rparr>"

definition pipe_edge :: pgm_edge where
  "pipe_edge = zero_edge\<lparr>e_attr := zero_attr\<lparr>nr_produce := 2, nr_consume := 3, nr_threshold := 3, etype := pgm_fifo_edge\<rparr>,
     e_fd_in := 3, e_fd_out := 4, e_buf_in := 4096, e_buf_out := 8192\<rparr>"

lemma pipe_os_stream: "reads_pipe fifo_edge_ops pipe_os fd id" "writes_pipe fifo_edge_ops pipe_os fd id (\<lambda>_. 0)"
proof -
  show "reads_pipe fifo_edge_ops pipe_os fd id"
    unfolding reads_pipe_def
  proof (intro conjI allI impI)
    fix n :: nat and w :: "byte list" assume "0 < n \<and> id w \<noteq> []"
    then show "\<exists>m w'. stream_read fifo_edge_ops pipe_os fd n w = ((int m, take m (id w)), w') \<and>
        0 < m \<and> m \<le> n \<and> m \<le> length (id w) \<and> id w' = drop m (id w)"
      by (intro exI [of _ "min (min n 2) (length w)"]) (auto simp: stream_read_def pipe_os_def take_pipe_def Let_def)
  qed simp
  show "writes_pipe fifo_edge_ops pipe_os fd id (\<lambda>_. 0)"
    by (auto simp: writes_pipe_def stream_write_def pipe_os_def)
qed

theorem stream_roundtrip_witness:
  "\<exists>s' e'' s''. send_all fifo_edge_ops pipe_os pipe_edge [[1, 2], [3, 4], [5, 6]] (world_state []) = Some (pipe_edge, s') \<and>
    recv_all fifo_edge_ops pipe_os pipe_edge 2 s' = Some ([1, 2, 3, 4, 5, 6], e'', s'')"
proof -
  have "in_flight fifo_edge_ops pipe_os id pipe_edge [] (world_state [])"
    using pipe_os_stream(1) by (simp add: in_flight_def pipe_edge_def world_state_def zero_attr_def zero_edge_def)
  then show ?thesis
    using stream_roundtrip [of fifo_edge_ops pipe_os id pipe_edge "world_state []" "\<lambda>_. 0" "[[1, 2], [3, 4], [5, 6]]" 2]
      pipe_os_stream(2)
    by (simp add: pipe_edge_def zero_attr_def)
qed

end
