(* ===== verification/Pgm_Exec.thy ===== *)
theory Pgm_Exec
  imports Pgm_Data
begin

text \<open>
  The execution of nodes (\<open>src/src/pgm.cpp\<close>): \<open>pgm_recv_data\<close> over all edges of a node, \<open>pgm_wait\<close>,
  \<open>pgm_produce\<close>, \<open>pgm_complete\<close> and \<open>pgm_terminate\<close>.
\<close>

section \<open>Receiving from all edges\<close>

text \<open>
  The calls that block: \<open>select\<close> (its first argument and the descriptors in the set; its result and the
  descriptors left in the set) and the wait on the condition variable of a node.
\<close>

record 'w env =
  env_select :: "int \<Rightarrow> int list \<Rightarrow> 'w \<Rightarrow> (int \<times> int list) \<times> 'w"
  env_sleep :: "'w pgm_state \<Rightarrow> 'w pgm_state"

type_synonym pgm_fd_mask_t = "32 word"

text \<open>The scan after \<open>select\<close>: clear the bits of the ready edges, until as many are found as it reported.\<close>

fun clear_ready :: "pgm_graph \<Rightarrow> int list \<Rightarrow> int \<Rightarrow> int \<Rightarrow> nat \<Rightarrow> nat list \<Rightarrow> pgm_fd_mask_t \<Rightarrow> pgm_fd_mask_t" where
  "clear_ready g ready nr_ready scanned i [] to_wait = to_wait"
| "clear_ready g ready nr_ready scanned i (x # xs) to_wait =
     (if scanned < nr_ready then
        if is_data_passing (e_attr (edges g x)) \<and> e_fd_in (edges g x) \<in> set ready
        then clear_ready g ready nr_ready (scanned + 1) (i + 1) xs (to_wait AND NOT (push_bit i 1))
        else clear_ready g ready nr_ready scanned (i + 1) xs to_wait
      else to_wait)"

definition waited_fds :: "pgm_graph \<Rightarrow> pgm_node \<Rightarrow> pgm_fd_mask_t \<Rightarrow> int list" where
  "waited_fds g n to_wait =
     map (\<lambda>i. e_fd_in (edges g (n_in n i))) (filter (bit to_wait) [0..<nr_in n])"

text \<open>A descriptor that does not fit into the set is written outside of it: \<open>None\<close>.\<close>

definition FD_SETSIZE :: int where
  "FD_SETSIZE = 1024"

definition in_fd_set :: "int list \<Rightarrow> bool" where
  "in_fd_set fds \<longleftrightarrow> list_all (\<lambda>fd. 0 \<le> fd \<and> fd < FD_SETSIZE) fds"

partial_function (option) wait_for_data ::
  "'w env \<Rightarrow> pgm_graph \<Rightarrow> pgm_node \<Rightarrow> pgm_fd_mask_t \<Rightarrow> eWaitStatus \<Rightarrow> 'w pgm_state \<Rightarrow>
    (eWaitStatus \<times> pgm_fd_mask_t \<times> 'w pgm_state) option"
where
  "wait_for_data env g n to_wait wait_status s =
     (if to_wait = 0 then Some (wait_status, to_wait, s)
      else let fds = waited_fds g n to_wait;
               ((nr_ready, ready), s) = sys (env_select env (sum_list fds + 1) fds) s
           in if \<not> in_fd_set fds then None
              else if nr_ready = 0 then Some (WaitTimeout, to_wait, s)
              else wait_for_data env g n (clear_ready g ready nr_ready 0 0 (in_list n) to_wait)
                (if nr_ready = -1 then WaitError else wait_status) s)"

text \<open>Edges of the state in place: \<open>put_edge\<close> stores an edge, \<open>count_terminate\<close> counts a terminate message.\<close>

definition put_edge :: "graph_t \<Rightarrow> nat \<Rightarrow> pgm_edge \<Rightarrow> 'w pgm_state \<Rightarrow> 'w pgm_state" where
  "put_edge h i e s = set_graph h (upd_edge i (\<lambda>_. e) (graph_of s h)) s"

definition count_terminate :: "graph_t \<Rightarrow> nat \<Rightarrow> 'w pgm_state \<Rightarrow> 'w pgm_state" where
  "count_terminate h j s = set_graph h (upd_node j (nr_terminate_msgs_update Suc) (graph_of s h)) s"

definition skip_mask :: "pgm_graph \<Rightarrow> pgm_node \<Rightarrow> pgm_fd_mask_t" where
  "skip_mask g n = foldr (\<lambda>i m. if is_data_passing (e_attr (edges g (n_in n i))) \<and> e_nr_skips (edges g (n_in n i)) > 0
     then m OR push_bit i 1 else m) [0..<nr_in n] 0"

text \<open>\<open>~((pgm_fd_mask_t)0) >> (sizeof(to_wait)*8 - k)\<close>\<close>

definition low_mask :: "nat \<Rightarrow> pgm_fd_mask_t" where
  "low_mask k = drop_bit (32 - k) (NOT 0)"

text \<open>
  The steps of \<open>pgm_recv_data\<close>. \<open>RecvWait\<close> stands at the label \<open>wait_for_data\<close>, \<open>RecvEdge\<close> at the head of the
  loop over the edges: after a read that would block the code waits and starts again with the first edge.
  \<open>RecvOut\<close> stands at the label \<open>out\<close>.
\<close>

datatype recv_label = RecvWait pgm_fd_mask_t | RecvEdge nat | RecvOut

type_synonym 'w recv_state = "recv_label \<times> (nat \<Rightarrow> addr) \<times> eWaitStatus \<times> 'w pgm_state"

definition recv_wait :: "'w env \<Rightarrow> graph_t \<Rightarrow> nat \<Rightarrow> pgm_fd_mask_t \<Rightarrow> (nat \<Rightarrow> addr) \<Rightarrow> eWaitStatus \<Rightarrow> 'w pgm_state \<Rightarrow>
    ('w recv_state + eWaitStatus \<times> 'w pgm_state) option" where
  "recv_wait env h j to_wait dest_ptrs wait_status s =
     (if to_wait \<noteq> 0 then
        map_option (\<lambda>(wait_status, to_wait, s).
            Inl (if wait_status = WaitError then RecvOut else RecvWait to_wait, dest_ptrs, wait_status, s))
          (wait_for_data env (graph_of s h) (nodes (graph_of s h) j) to_wait WaitSuccess s)
      else if wait_status \<noteq> WaitSuccess then Some (Inr (wait_status, s))
      else Some (Inl (RecvEdge 0, dest_ptrs, wait_status, s)))"

definition recv_edge :: "'w os \<Rightarrow> graph_t \<Rightarrow> nat \<Rightarrow> pgm_fd_mask_t \<Rightarrow> nat \<Rightarrow> (nat \<Rightarrow> addr) \<Rightarrow> eWaitStatus \<Rightarrow> 'w pgm_state \<Rightarrow>
    'w recv_state option" where
  "recv_edge os h j to_skip i dest_ptrs wait_status s =
     (let n = nodes (graph_of s h) j; e = edges (graph_of s h) (n_in n i) in
      if \<not> is_data_passing (e_attr e) \<or> e_nr_skips e > 0 then Some (RecvEdge (i + 1), dest_ptrs, wait_status, s)
      else (case e_ops e of
          None \<Rightarrow> None
        | Some k \<Rightarrow>
            if etype (e_attr e) AND PGM_EDGE_RING \<noteq> 0 then
              if \<not> (e_ring_cmd e AND PGM_TERMINATE \<noteq> 0 \<and> is_ring_empty (e_ringbuf e)) then
                map_option (\<lambda>((_, bs), e, s).
                    (RecvEdge (i + 1), dest_ptrs, wait_status, put_edge h (n_in n i) e (store_bytes (dest_ptrs i) bs s)))
                  (ops_read k os e (nr_consume (e_attr e)) s)
              else Some (RecvEdge (i + 1), dest_ptrs, wait_status, count_terminate h j s)
            else
              map_option (\<lambda>(outcome, e, dest, s).
                  let s = put_edge h (n_in n i) e s; dest_ptrs = dest_ptrs(i := dest) in
                  (case outcome of
                     EdgeDone \<Rightarrow> (RecvEdge (i + 1), dest_ptrs, wait_status, s)
                   | EdgeTerminated \<Rightarrow> (RecvEdge (i + 1), dest_ptrs, wait_status, count_terminate h j s)
                   | EdgeMalformed \<Rightarrow> (RecvOut, dest_ptrs, WaitError, s)
                   | EdgeFailed \<Rightarrow> (RecvOut, dest_ptrs, WaitError, s)
                   | EdgeBlocked \<Rightarrow>
                       (RecvWait (low_mask (i + 1) AND NOT (signal_edge_mask n OR to_skip) OR push_bit i 1),
                        dest_ptrs, wait_status, s)))
                (read_more k os e (dest_ptrs i) s)))"

definition recv_out :: "pgm_node \<Rightarrow> eWaitStatus \<Rightarrow> eWaitStatus" where
  "recv_out n wait_status =
     (if nr_terminate_msgs n \<noteq> 0 \<and> int (nr_terminate_msgs n) = int (nr_in_data n) - int (nr_in_data_backedges n)
      then WaitExhaustedAndTerminate else wait_status)"

fun recv_step :: "'w env \<Rightarrow> 'w os \<Rightarrow> graph_t \<Rightarrow> nat \<Rightarrow> pgm_fd_mask_t \<Rightarrow> 'w recv_state \<Rightarrow>
    ('w recv_state + eWaitStatus \<times> 'w pgm_state) option" where
  "recv_step env os h j to_skip (RecvWait to_wait, dest_ptrs, wait_status, s) =
     recv_wait env h j to_wait dest_ptrs wait_status s"
| "recv_step env os h j to_skip (RecvEdge i, dest_ptrs, wait_status, s) =
     (if i < nr_in (nodes (graph_of s h) j) then map_option Inl (recv_edge os h j to_skip i dest_ptrs wait_status s)
      else Some (Inl (RecvOut, dest_ptrs, wait_status, s)))"
| "recv_step env os h j to_skip (RecvOut, dest_ptrs, wait_status, s) =
     Some (Inr (recv_out (nodes (graph_of s h) j) wait_status, s))"

partial_function (option) recv_loop ::
  "'w env \<Rightarrow> 'w os \<Rightarrow> graph_t \<Rightarrow> nat \<Rightarrow> pgm_fd_mask_t \<Rightarrow> 'w recv_state \<Rightarrow> (eWaitStatus \<times> 'w pgm_state) option"
where
  "recv_loop env os h j to_skip st =
     (case recv_step env os h j to_skip st of
        None \<Rightarrow> None
      | Some (Inl st) \<Rightarrow> recv_loop env os h j to_skip st
      | Some (Inr r) \<Rightarrow> Some r)"

definition recv_data :: "'w env \<Rightarrow> 'w os \<Rightarrow> graph_t \<Rightarrow> nat \<Rightarrow> 'w pgm_state \<Rightarrow> (eWaitStatus \<times> 'w pgm_state) option" where
  "recv_data env os h j s =
     (let g = graph_of s h; n = nodes g j; to_skip = skip_mask g n;
          dest_ptrs = (\<lambda>i. pgm_get_user_ptr (e_buf_in (edges g (n_in n i))));
          to_wait = low_mask (nr_in n)
      in if nr_in n = 0 then None
         else if to_wait = to_skip then recv_loop env os h j to_skip (RecvOut, dest_ptrs, WaitSuccess, s)
         else recv_loop env os h j to_skip
           (RecvWait (to_wait AND NOT (signal_edge_mask n OR to_skip)), dest_ptrs, WaitSuccess, s))"

section \<open>Producing\<close>

text \<open>
  The entry points below index \<open>gGraphs\<close> and the nodes without any check: \<open>None\<close> for a handle outside the arrays.
\<close>

definition has_node :: "'w pgm_state \<Rightarrow> node_t \<Rightarrow> bool" where
  "has_node s node \<longleftrightarrow> gGraphs s \<noteq> None \<and> 0 \<le> ngraph node \<and> ngraph node < int PGM_MAX_GRAPHS \<and> in_nodes (nnode node)"

text \<open>The first loop of \<open>pgm_produce\<close>; \<open>to_wake\<close> lists the consumers to wake, in order and with repetitions.\<close>

fun produce_edges ::
  "'w os \<Rightarrow> graph_t \<Rightarrow> byte \<Rightarrow> nat list \<Rightarrow> bool \<Rightarrow> nat list \<Rightarrow> 'w pgm_state \<Rightarrow> (bool \<times> nat list \<times> 'w pgm_state) option"
where
  "produce_edges os h command [] was_error to_wake s = Some (was_error, to_wake, s)"
| "produce_edges os h command (i # is) was_error to_wake s =
     (let e = edges (graph_of s h) i in
      if command AND PGM_TERMINATE \<noteq> 0 \<and> e_is_backedge e
      then produce_edges os h command is was_error to_wake s
      else
        (case (if is_data_passing (e_attr e)
               then (case e_ops e of
                   None \<Rightarrow> None
                 | Some k \<Rightarrow> map_option (\<lambda>(ret, e, s). (ret, put_edge h i e s)) (send_data k os e command s))
               else Some (0, s)) of
           None \<Rightarrow> None
         | Some (ret, s) \<Rightarrow>
             let e = edges (graph_of s h) i; was_error = (was_error \<or> ret \<noteq> 0) in
             if is_signal_driven (e_attr e) then
               if command AND PGM_TERMINATE = 0 then
                 let (wake, e') = send_tokens e
                 in produce_edges os h command is was_error (if wake then to_wake @ [e_consumer e] else to_wake)
                      (put_edge h i e' s)
               else produce_edges os h command is was_error (to_wake @ [e_consumer e])
                      (set_graph h (upd_node (e_consumer e) (nr_terminate_signals_update Suc) (graph_of s h)) s)
             else produce_edges os h command is was_error to_wake s))"

text \<open>
  The second loop signals the consumers whose edges are all ready, or all of them if the node terminates.
  The result also lists the nodes signalled.
\<close>

definition pgm_produce :: "'w os \<Rightarrow> node_t \<Rightarrow> byte \<Rightarrow> 'w pgm_state \<Rightarrow> (int \<times> nat list \<times> 'w pgm_state) option" where
  "pgm_produce os node command s =
     (if \<not> has_node s node then None
      else
        (case produce_edges os (ngraph node) command
                (out_list (nodes (graph_of s (ngraph node)) (nat (nnode node)))) False [] s of
           None \<Rightarrow> None
         | Some (was_error, to_wake, s) \<Rightarrow>
             let g = graph_of s (ngraph node) in
             Some (if was_error then -1 else 0,
               filter (\<lambda>c. command AND PGM_TERMINATE \<noteq> 0 \<or> nr_ready_edges g (nodes g c) = nr_in_signaled (nodes g c)) to_wake,
               s)))"

definition pgm_complete :: "'w os \<Rightarrow> node_t \<Rightarrow> 'w pgm_state \<Rightarrow> (int \<times> nat list \<times> 'w pgm_state) option" where
  "pgm_complete os node s = pgm_produce os node PGM_NORMAL s"

definition pgm_terminate :: "'w os \<Rightarrow> node_t \<Rightarrow> 'w pgm_state \<Rightarrow> (int \<times> nat list \<times> 'w pgm_state) option" where
  "pgm_terminate os node s = pgm_produce os node PGM_TERMINATE s"

section \<open>Waiting\<close>

definition wait_result :: "eWaitStatus \<Rightarrow> eWaitStatus \<Rightarrow> int" where
  "wait_result tstatus dstatus =
     (if tstatus = WaitExhaustedAndTerminate \<and> dstatus = WaitExhaustedAndTerminate then uint PGM_TERMINATE
      else if tstatus = WaitTimeout \<or> tstatus = WaitError \<or> dstatus = WaitTimeout \<or> dstatus = WaitError
      then -1 else 0)"

definition pgm_wait :: "'w env \<Rightarrow> 'w os \<Rightarrow> node_t \<Rightarrow> 'w pgm_state \<Rightarrow> (int \<times> 'w pgm_state) option" where
  "pgm_wait env os node s =
     (if \<not> has_node s node then None
      else let h = ngraph node; j = nat (nnode node) in
        (case (if nr_in_signaled (nodes (graph_of s h) j) \<noteq> 0 then wait_for_tokens (env_sleep env) h j s
               else Some (WaitExhaustedAndTerminate, s)) of
           None \<Rightarrow> None
         | Some (tstatus, s) \<Rightarrow>
             (case (if nr_in_data (nodes (graph_of s h) j) \<noteq> 0 then recv_data env os h j s
                    else Some (WaitExhaustedAndTerminate, s)) of
                None \<Rightarrow> None
              | Some (dstatus, s) \<Rightarrow>
                  let ret = wait_result tstatus dstatus;
                      n = nodes (graph_of s h) j;
                      s = (if nr_in_signaled n \<noteq> 0 \<and> ret \<noteq> uint PGM_TERMINATE
                           then set_graph h (consume_tokens (graph_of s h) n) s else s);
                      s = set_graph h (consume_skips (graph_of s h) n) s
                  in if ret = uint PGM_TERMINATE then map_option (\<lambda>(_, _, s). (ret, s)) (pgm_terminate os node s)
                     else Some (ret, s))))"

section \<open>Firing nodes with signal-driven edges\<close>

text \<open>Lemmas on states that hold a graph; \<open>set_graph\<close> after \<open>set_graph\<close> is the last one.\<close>

definition holds_graph :: "'w pgm_state \<Rightarrow> graph_t \<Rightarrow> bool" where
  "holds_graph s h \<longleftrightarrow> gGraphs s \<noteq> None \<and> 0 \<le> h \<and> h < int PGM_MAX_GRAPHS"

lemma has_node_holds: "has_node s node \<Longrightarrow> holds_graph s (ngraph node)"
  by (simp add: has_node_def holds_graph_def)

lemma holds_set_graph [simp]: "holds_graph (set_graph h g s) h' = holds_graph s h'"
  by (simp add: holds_graph_def set_graph_def)

lemma has_set_graph [simp]: "has_node (set_graph h g s) node = has_node s node"
  by (simp add: has_node_def set_graph_def)

lemma graph_of_held: "holds_graph s h \<Longrightarrow> graph_of (set_graph h g s) h = g"
  by (auto simp: holds_graph_def graph_of_def set_graph_def)

lemma set_graph_twice [simp]: "set_graph h g' (set_graph h g s) = set_graph h g' s"
  by (cases "gGraphs s") (simp_all add: set_graph_def)

lemma set_graph_id: "holds_graph s h \<Longrightarrow> set_graph h (graph_of s h) s = s"
  by (auto simp: holds_graph_def graph_of_def set_graph_def)

text \<open>The first loop of \<open>pgm_produce\<close> over edges that pass no data.\<close>

definition send_signal :: "pgm_edge \<Rightarrow> pgm_edge" where
  "send_signal e = (if is_signal_driven (e_attr e) then snd (send_tokens e) else e)"

lemma produce_edges_tokens:
  assumes "holds_graph s h" and "\<forall>i \<in> set is. \<not> is_data_passing (e_attr (edges (graph_of s h) i))"
    and "command AND PGM_TERMINATE = 0" and "distinct is"
  shows "produce_edges os h command is err to_wake s =
    Some (err, to_wake @ map (\<lambda>i. e_consumer (edges (graph_of s h) i)) (filter (\<lambda>i. is_signal_driven (e_attr (edges (graph_of s h) i)) \<and>
        fst (send_tokens (edges (graph_of s h) i))) is),
      set_graph h (fold (\<lambda>i. upd_edge i send_signal) is (graph_of s h)) s)"
  using assms
proof (induction "is" arbitrary: to_wake s)
  case Nil
  then show ?case by (simp add: set_graph_id)
next
  case (Cons i "is")
  let ?g = "graph_of s h"
  let ?s = "set_graph h (upd_edge i send_signal ?g) s"
  have g: "graph_of ?s h = upd_edge i send_signal ?g" using Cons.prems(1) by (rule graph_of_held)
  have other: "edges (upd_edge i send_signal ?g) k = edges ?g k" if "k \<in> set is" for k
    using that Cons.prems(4) by (auto simp: upd_edge_def)
  have step: "produce_edges os h command (i # is) err to_wake s =
      produce_edges os h command is err (if is_signal_driven (e_attr (edges ?g i)) \<and> fst (send_tokens (edges ?g i))
        then to_wake @ [e_consumer (edges ?g i)] else to_wake) ?s"
  proof (cases "is_signal_driven (e_attr (edges ?g i))")
    case True
    then show ?thesis
      using Cons.prems(2,3) by (simp add: put_edge_def upd_edge_def send_signal_def case_prod_beta Let_def)
  next
    case False
    then have "upd_edge i send_signal ?g = ?g" using upd_edge_id [of i ?g] by (simp add: upd_edge_def send_signal_def)
    then show ?thesis using False Cons.prems(1-3) by (simp add: set_graph_id)
  qed
  have "filter (\<lambda>k. is_signal_driven (e_attr (edges (upd_edge i send_signal ?g) k)) \<and>
        fst (send_tokens (edges (upd_edge i send_signal ?g) k))) is =
      filter (\<lambda>k. is_signal_driven (e_attr (edges ?g k)) \<and> fst (send_tokens (edges ?g k))) is"
    by (rule filter_cong) (simp_all add: other)
  moreover have "map (\<lambda>k. e_consumer (edges (upd_edge i send_signal ?g) k)) (filter (\<lambda>k. is_signal_driven (e_attr (edges ?g k)) \<and>
        fst (send_tokens (edges ?g k))) is) =
      map (\<lambda>k. e_consumer (edges ?g k)) (filter (\<lambda>k. is_signal_driven (e_attr (edges ?g k)) \<and> fst (send_tokens (edges ?g k))) is)"
    by (rule map_cong) (auto simp: other)
  ultimately show ?case
    unfolding step using Cons.IH [of ?s] Cons.prems other g by (simp add: graph_of_held)
qed

text \<open>
  The abstract machine: a marking gives each edge a number of tokens and of skips. A node is enabled when every
  signal-driven input edge has reached its threshold or is skipped; firing it takes what its edges consume, or a
  skip, and adds what they produce.
\<close>

type_synonym marking = "nat \<Rightarrow> nat \<times> nat"

definition marking :: "pgm_graph \<Rightarrow> marking" where
  "marking g i = (unat (e_nr_pending (edges g i)), unat (e_nr_skips (edges g i)))"

definition enabled :: "pgm_graph \<Rightarrow> nat \<Rightarrow> marking \<Rightarrow> bool" where
  "enabled g j M \<longleftrightarrow> (\<forall>i \<in> set (in_list (nodes g j)). is_signal_driven (e_attr (edges g i)) \<longrightarrow>
     unat (nr_threshold (e_attr (edges g i))) \<le> fst (M i) \<or> 0 < snd (M i))"

definition fire :: "pgm_graph \<Rightarrow> nat \<Rightarrow> marking \<Rightarrow> marking" where
  "fire g j M i =
     (let a = e_attr (edges g i); (t, k) = M i;
          t = (if i \<in> set (in_list (nodes g j)) \<and> is_signal_driven a \<and> k = 0 then t - unat (nr_consume a) else t);
          k = (if i \<in> set (in_list (nodes g j)) then k - 1 else k)
      in (if i \<in> set (out_list (nodes g j)) \<and> is_signal_driven a then t + unat (nr_produce a) else t, k))"

text \<open>The edges of a node carry signals only, and its counters are far from overflow.\<close>

definition signal_node :: "pgm_graph \<Rightarrow> nat \<Rightarrow> bool" where
  "signal_node g j \<longleftrightarrow> j < nr_nodes g \<and> nr_in_signaled (nodes g j) \<noteq> 0 \<and>
     (\<forall>i \<in> set (in_list (nodes g j)) \<union> set (out_list (nodes g j)). \<not> is_data_passing (e_attr (edges g i)))"

definition room :: "pgm_graph \<Rightarrow> nat \<Rightarrow> marking \<Rightarrow> bool" where
  "room g j M \<longleftrightarrow> (\<forall>i \<in> set (out_list (nodes g j)). fst (M i) + unat (nr_produce (e_attr (edges g i))) < 2 ^ 64)"

lemma length_filter_eq:
  "length (filter (\<lambda>x. P x \<and> Q x) xs) = length (filter P xs) \<longleftrightarrow> (\<forall>x \<in> set xs. P x \<longrightarrow> Q x)"
proof (induction xs)
  case (Cons x xs)
  have "length (filter (\<lambda>x. P x \<and> Q x) xs) \<le> length (filter P xs)" by (rule length_filter_mono) simp
  with Cons show ?case by auto
qed simp

lemma all_ready:
  assumes "graph_inv g" and "j < nr_nodes g"
  shows "nr_ready_edges g (nodes g j) = nr_in_signaled (nodes g j) \<longleftrightarrow> enabled g j (marking g)"
proof -
  have n: "nr_in_signaled (nodes g j) = length (filter (\<lambda>i. is_signal_driven (e_attr (edges g i))) (in_list (nodes g j)))"
    using assms by (simp add: graph_inv_def node_ok_def)
  show ?thesis
    unfolding n nr_ready_edges_def edge_ready_def length_filter_eq
    by (simp add: enabled_def marking_def word_le_nat_alt word_less_nat_alt)
qed

lemma signal_node_no_data:
  assumes "graph_inv g" and "signal_node g j"
  shows "nr_in_data (nodes g j) = 0"
  using assms by (auto simp: graph_inv_def node_ok_def signal_node_def filter_empty_conv)

lemma fold_upd_edge_nodes: "nodes (fold (\<lambda>i. upd_edge i f) is g) = nodes g" "in_use (fold (\<lambda>i. upd_edge i f) is g) = in_use g"
  by (induction "is" arbitrary: g) (simp_all add: upd_edge_def)

text \<open>What \<open>pgm_wait\<close> does to a node that is enabled.\<close>

definition consumed :: "pgm_graph \<Rightarrow> nat \<Rightarrow> pgm_graph" where
  "consumed g j = consume_skips (consume_tokens g (nodes g j)) (nodes g j)"

lemma wait_enabled:
  assumes "has_node s node" and "graph_inv (graph_of s (ngraph node))" and "signal_node (graph_of s (ngraph node)) (nat (nnode node))"
    and "enabled (graph_of s (ngraph node)) (nat (nnode node)) (marking (graph_of s (ngraph node)))"
  shows "pgm_wait env os node s = Some (0, set_graph (ngraph node) (consumed (graph_of s (ngraph node)) (nat (nnode node))) s)"
proof -
  let ?h = "ngraph node" and ?j = "nat (nnode node)"
  let ?g = "graph_of s ?h"
  have j: "?j < nr_nodes ?g" "nr_in_signaled (nodes ?g ?j) \<noteq> 0" using assms(3) by (simp_all add: signal_node_def)
  have "token_status ?g (nodes ?g ?j) = Some WaitSuccess"
    using all_ready [OF assms(2) j(1)] assms(4) by (simp add: token_status_def)
  then have "wait_for_tokens (env_sleep env) ?h ?j s = Some (WaitSuccess, s)"
    by (subst wait_for_tokens.simps) simp
  moreover have "nodes (consume_tokens ?g (nodes ?g ?j)) = nodes ?g"
    by (simp add: consume_tokens_def fold_upd_edge_nodes)
  ultimately show ?thesis
    using assms(1) j(2) signal_node_no_data [OF assms(2,3)] has_node_holds [OF assms(1)]
    by (simp add: pgm_wait_def wait_result_def consumed_def graph_of_held PGM_TERMINATE_def Let_def)
qed

lemma consumed_edges:
  assumes "graph_inv g" and "j < nr_nodes g"
  shows "edges (consumed g j) i = (if i \<in> set (in_list (nodes g j)) then consume_skip (consume_token (edges g i)) else edges g i)"
    and "nodes (consumed g j) = nodes g" and "in_use (consumed g j) = in_use g" and "same_shape g (consumed g j)"
proof -
  have d: "distinct (in_list (nodes g j))" using graph_inv_lists(1) [OF assms] by (simp add: in_edges_of_def)
  show "edges (consumed g j) i = (if i \<in> set (in_list (nodes g j)) then consume_skip (consume_token (edges g i)) else edges g i)"
    by (simp add: consumed_def consume_skips_def consume_tokens_def fold_upd_edge(1) [OF d])
  show "nodes (consumed g j) = nodes g" "in_use (consumed g j) = in_use g"
    by (simp_all add: consumed_def consume_skips_def consume_tokens_def fold_upd_edge_nodes)
  show "same_shape g (consumed g j)"
    unfolding consumed_def consume_skips_def consume_tokens_def
    by (rule same_shape_trans [OF same_shape_fold same_shape_fold]) simp_all
qed

lemma fire_edge:
  assumes "is_signal_driven (e_attr e) \<longrightarrow> nr_threshold (e_attr e) \<le> e_nr_pending e \<or> 0 < e_nr_skips e"
    and "edge_attr_ok (e_attr e)"
  shows "unat (e_nr_pending (consume_token e)) = (if is_signal_driven (e_attr e) \<and> e_nr_skips e = 0
      then unat (e_nr_pending e) - unat (nr_consume (e_attr e)) else unat (e_nr_pending e))"
    and "is_signal_driven (e_attr e) \<and> e_nr_skips e = 0 \<longrightarrow> nr_consume (e_attr e) \<le> e_nr_pending e"
proof -
  have le: "is_signal_driven (e_attr e) \<and> e_nr_skips e = 0 \<longrightarrow> nr_consume (e_attr e) \<le> e_nr_pending e"
    using assms by (auto simp: edge_attr_ok_def not_less)
  then show "is_signal_driven (e_attr e) \<and> e_nr_skips e = 0 \<longrightarrow> nr_consume (e_attr e) \<le> e_nr_pending e" .
  from le show "unat (e_nr_pending (consume_token e)) = (if is_signal_driven (e_attr e) \<and> e_nr_skips e = 0
      then unat (e_nr_pending e) - unat (nr_consume (e_attr e)) else unat (e_nr_pending e))"
    by (auto simp: consume_token_def unat_sub)
qed

lemma skip_edge: "unat (e_nr_skips (consume_skip e)) = unat (e_nr_skips e) - 1"
proof -
  have "(1 :: size_t) \<le> e_nr_skips e" if "0 < e_nr_skips e" using that by (simp add: word_le_nat_alt word_less_nat_alt)
  then show ?thesis by (cases "e_nr_skips e = 0") (auto simp: consume_skip_def unat_sub word_gt_0)
qed

lemma complete_signals:
  assumes "has_node s node" and "\<forall>i \<in> set (out_list (nodes (graph_of s (ngraph node)) (nat (nnode node)))).
      \<not> is_data_passing (e_attr (edges (graph_of s (ngraph node)) i))"
    and "distinct (out_list (nodes (graph_of s (ngraph node)) (nat (nnode node))))"
  shows "\<exists>woken. pgm_complete os node s = Some (0, woken, set_graph (ngraph node)
    (fold (\<lambda>i. upd_edge i send_signal) (out_list (nodes (graph_of s (ngraph node)) (nat (nnode node)))) (graph_of s (ngraph node))) s)"
  using produce_edges_tokens [OF has_node_holds [OF assms(1)] assms(2) _ assms(3), of PGM_NORMAL os False "[]"] assms(1)
  by (simp add: pgm_complete_def pgm_produce_def PGM_NORMAL_def PGM_TERMINATE_def Let_def)

lemma fire_refines:
  fixes s node
  defines "h \<equiv> ngraph node" and "j \<equiv> nat (nnode node)" and "g \<equiv> graph_of s (ngraph node)"
  assumes "has_node s node" and "graph_inv g" and "signal_node g j" and "enabled g j (marking g)" and "room g j (marking g)"
  shows "\<exists>s1 woken g2. pgm_wait env os node s = Some (0, s1) \<and>
    pgm_complete os node s1 = Some (0, woken, set_graph h g2 s) \<and> marking g2 = fire g j (marking g) \<and>
    same_shape g g2 \<and> nodes g2 = nodes g \<and> in_use g2 = in_use g"
proof -
  let ?g1 = "consumed g j" and ?outs = "out_list (nodes g j)"
  let ?g2 = "fold (\<lambda>i. upd_edge i send_signal) ?outs ?g1"
  have j: "j < nr_nodes g" using assms(6) by (simp add: signal_node_def)
  note c = consumed_edges [OF assms(5) j]
  have w: "pgm_wait env os node s = Some (0, set_graph h ?g1 s)"
    using wait_enabled [OF assms(4)] assms(5-7) by (simp add: g_def j_def h_def)
  have d: "distinct ?outs" using graph_inv_lists(2) [OF assms(5) j] by (simp add: out_edges_def)
  have g1: "graph_of (set_graph h ?g1 s) h = ?g1" using has_node_holds [OF assms(4)] by (simp add: graph_of_held h_def)
  have same: "e_attr (edges ?g1 i) = e_attr (edges g i)" for i
    using c(1) by (simp add: consume_skip_def consume_token_def)
  obtain woken where "pgm_complete os node (set_graph h ?g1 s) = Some (0, woken, set_graph h ?g2 s)"
    using complete_signals [of "set_graph h ?g1 s" node os] assms(4,6) d g1 same c(2)
    by (auto simp: signal_node_def h_def j_def)
  moreover have "marking ?g2 = fire g j (marking g)"
  proof
    fix i
    have ok: "edge_attr_ok (e_attr (edges g i))" if "i \<in> set (in_list (nodes g j))"
      using that graph_inv_lists(1) [OF assms(5) j] linkedD(4) [OF assms(5)] by (simp add: in_edges_of_def)
    let ?e = "edges g i" and ?e' = "edges ?g1 i"
    have en: "is_signal_driven (e_attr ?e) \<longrightarrow> nr_threshold (e_attr ?e) \<le> e_nr_pending ?e \<or> 0 < e_nr_skips ?e"
      if "i \<in> set (in_list (nodes g j))"
      using that assms(7) by (simp add: enabled_def marking_def word_le_nat_alt word_less_nat_alt)
    have swap: "e_nr_pending (consume_skip x) = e_nr_pending x" "e_nr_skips (consume_token x) = e_nr_skips x" for x
      by (simp_all add: consume_skip_def consume_token_def)
    have skip: "unat (e_nr_skips ?e') = (if i \<in> set (in_list (nodes g j)) then unat (e_nr_skips ?e) - 1 else unat (e_nr_skips ?e))"
      using c(1) [of i] swap(2) by (simp add: skip_edge)
    have pend: "unat (e_nr_pending ?e') = (if i \<in> set (in_list (nodes g j)) \<and> is_signal_driven (e_attr ?e) \<and> e_nr_skips ?e = 0
        then unat (e_nr_pending ?e) - unat (nr_consume (e_attr ?e)) else unat (e_nr_pending ?e))"
      using c(1) [of i] fire_edge(1) [OF en ok] swap(1) by auto
    have add: "unat (e_nr_pending ?e' + nr_produce (e_attr ?e)) = unat (e_nr_pending ?e') + unat (nr_produce (e_attr ?e))"
      if "i \<in> set ?outs"
      by (rule unat_add_no_wrap) (use assms(8) that pend in \<open>auto simp: room_def marking_def split: if_splits\<close>)
    have z: "unat (e_nr_skips ?e) = 0 \<longleftrightarrow> e_nr_skips ?e = 0" using unat_gt_0 [of "e_nr_skips ?e"] by auto
    show "marking ?g2 i = fire g j (marking g) i"
      unfolding marking_def fold_upd_edge(1) [OF d] fire_def
      using skip pend add same [of i] by (simp add: z send_signal_def send_tokens_def Let_def)
  qed
  moreover have "same_shape g ?g2"
    using same_shape_trans [OF c(4) same_shape_fold [of send_signal]] by (simp add: send_signal_def)
  ultimately show ?thesis using w c(2,3) fold_upd_edge_nodes by metis
qed

text \<open>A schedule: the nodes of a graph that run one after the other, each waiting and then completing.\<close>

fun run_nodes :: "'w env \<Rightarrow> 'w os \<Rightarrow> graph_t \<Rightarrow> nat list \<Rightarrow> 'w pgm_state \<Rightarrow> 'w pgm_state option" where
  "run_nodes env os h [] s = Some s"
| "run_nodes env os h (j # js) s =
     (let node = \<lparr>ngraph = h, nnode = int j\<rparr> in
      case pgm_wait env os node s of
        Some (ret, s) \<Rightarrow>
          if ret = 0 then
            (case pgm_complete os node s of
               Some (ret, _, s) \<Rightarrow> if ret = 0 then run_nodes env os h js s else None
             | None \<Rightarrow> None)
          else None
      | None \<Rightarrow> None)"

fun fires :: "pgm_graph \<Rightarrow> nat list \<Rightarrow> marking \<Rightarrow> marking option" where
  "fires g [] M = Some M"
| "fires g (j # js) M = (if signal_node g j \<and> enabled g j M \<and> room g j M then fires g js (fire g j M) else None)"

lemma shape_static:
  assumes "same_shape g g'"
  shows "in_list (nodes g' j) = in_list (nodes g j)" "out_list (nodes g' j) = out_list (nodes g j)"
    "is_signal_driven (e_attr (edges g' i)) = is_signal_driven (e_attr (edges g i))"
    "is_data_passing (e_attr (edges g' i)) = is_data_passing (e_attr (edges g i))"
    "nr_threshold (e_attr (edges g' i)) = nr_threshold (e_attr (edges g i))"
    "nr_consume (e_attr (edges g' i)) = nr_consume (e_attr (edges g i))"
    "nr_produce (e_attr (edges g' i)) = nr_produce (e_attr (edges g i))"
    "nr_in_signaled (nodes g' j) = nr_in_signaled (nodes g j)" "nr_nodes g' = nr_nodes g"
proof -
  have e: "edge_shape (edges g' i) = edge_shape (edges g i)" and n: "node_shape (nodes g' j) = node_shape (nodes g j)"
    using assms by (simp_all add: same_shape_def)
  show "in_list (nodes g' j) = in_list (nodes g j)" "out_list (nodes g' j) = out_list (nodes g j)"
    "nr_in_signaled (nodes g' j) = nr_in_signaled (nodes g j)" using node_shapeD [OF n] by simp_all
  show "is_signal_driven (e_attr (edges g' i)) = is_signal_driven (e_attr (edges g i))"
    "is_data_passing (e_attr (edges g' i)) = is_data_passing (e_attr (edges g i))" using edge_shapeD [OF e] by simp_all
  show "nr_threshold (e_attr (edges g' i)) = nr_threshold (e_attr (edges g i))"
    "nr_consume (e_attr (edges g' i)) = nr_consume (e_attr (edges g i))"
    "nr_produce (e_attr (edges g' i)) = nr_produce (e_attr (edges g i))"
    using e attr_shape [of "e_attr (edges g' i)" "e_attr (edges g i)"] by (simp_all add: edge_shape_def)
  show "nr_nodes g' = nr_nodes g" using assms by (simp add: same_shape_def)
qed

lemma fires_same_shape: "same_shape g g' \<Longrightarrow> fires g' js M = fires g js M"
proof (induction js arbitrary: M)
  case (Cons j js)
  note st = shape_static [OF Cons.prems]
  have "signal_node g' j = signal_node g j" "enabled g' j M = enabled g j M" "room g' j M = room g j M"
    by (simp_all add: signal_node_def enabled_def room_def st)
  moreover have "fire g' j M = fire g j M" by (auto simp: fun_eq_iff fire_def st Let_def split: prod.splits)
  ultimately show ?case using Cons by simp
qed simp

text \<open>
  C2: on a graph with signal-driven edges, running a schedule of nodes (each \<open>pgm_wait\<close> and then
  \<open>pgm_complete\<close>) refines the token game on natural numbers: whenever the game can fire the nodes in this order,
  no call blocks or fails, and the counters of the edges are the marking the game reaches; in particular
  no counter wraps below zero.
\<close>

theorem run_refines_token_game:
  assumes "live_graph s h" and "graph_inv (graph_of s h)" and "fires (graph_of s h) js (marking (graph_of s h)) = Some M"
  shows "\<exists>s'. run_nodes env os h js s = Some s' \<and> marking (graph_of s' h) = M"
  using assms
proof (induction js arbitrary: s)
  case (Cons j js)
  let ?g = "graph_of s h" and ?node = "\<lparr>ngraph = h, nnode = int j\<rparr>"
  have f: "signal_node ?g j" "enabled ?g j (marking ?g)" "room ?g j (marking ?g)"
    and rest: "fires ?g js (fire ?g j (marking ?g)) = Some M"
    using Cons.prems(3) by (auto split: if_splits)
  have "j < PGM_MAX_NODES" using f(1) Cons.prems(2) by (simp add: signal_node_def graph_inv_def)
  then have hn: "has_node s ?node"
    using Cons.prems(1) by (auto simp: has_node_def in_nodes_def elim!: live_graphD)
  then have hd: "holds_graph s h" using has_node_holds by fastforce
  obtain s1 woken g2 where r: "pgm_wait env os ?node s = Some (0, s1)" "pgm_complete os ?node s1 = Some (0, woken, set_graph h g2 s)"
    and g2: "marking g2 = fire ?g j (marking ?g)" "same_shape ?g g2" "in_use g2 = in_use ?g"
    using fire_refines [of s ?node env os] hn Cons.prems(2) f by auto
  have "live_graph (set_graph h g2 s) h" using Cons.prems(1) g2(3) by (auto elim: live_graphD)
  moreover have "graph_inv g2" using graph_inv_same_shape [OF g2(2)] Cons.prems(2) by simp
  moreover have "fires g2 js (marking g2) = Some M" using rest fires_same_shape [OF g2(2)] g2(1) by simp
  ultimately have "\<exists>s'. run_nodes env os h js (set_graph h g2 s) = Some s' \<and> marking (graph_of s' h) = M"
    using Cons.IH [of "set_graph h g2 s"] graph_of_held [OF hd] by simp
  then show ?case using r by simp
qed simp

lemma cycle_lists:
  "in_list (nodes (cycle_graph ns) 1) = [1]" "out_list (nodes (cycle_graph ns) 1) = [0]"
  "in_list (nodes (cycle_graph ns) 2) = [0]" "out_list (nodes (cycle_graph ns) 2) = [1]"
  "nr_in_signaled (nodes (cycle_graph ns) 1) = 1" "nr_in_signaled (nodes (cycle_graph ns) 2) = 1"
  by (simp_all add: cycle_graph_def in_list_def out_list_def zero_node_def)

lemma default_edge_attr:
  "is_signal_driven default_edge" "\<not> is_data_passing default_edge" "nr_produce default_edge = 1"
  "nr_consume default_edge = 1" "nr_threshold default_edge = 1"
  by (simp_all add: is_signal_driven_def is_data_passing_def default_edge_def zero_attr_def edge_type_defs)

lemma cycle_attr: "e_attr (cycle_edge 0) = default_edge" "e_attr (cycle_edge (Suc 0)) = default_edge"
  by (simp_all add: cycle_edge_def full_edge_fields)

lemma cycle_fire:
  "fire (cycle_graph ns) (Suc 0) M 0 = (fst (M 0) + 1, snd (M 0))"
  "fire (cycle_graph ns) (Suc 0) M (Suc 0) = (if snd (M (Suc 0)) = 0 then fst (M (Suc 0)) - 1 else fst (M (Suc 0)), snd (M (Suc 0)) - 1)"
  "fire (cycle_graph ns) 2 M 0 = (if snd (M 0) = 0 then fst (M 0) - 1 else fst (M 0), snd (M 0) - 1)"
  "fire (cycle_graph ns) 2 M (Suc 0) = (fst (M (Suc 0)) + 1, snd (M (Suc 0)))"
  by (simp_all add: fire_def cycle_edges cycle_lists [simplified] cycle_attr default_edge_attr Let_def split: prod.splits)

theorem run_refines_token_game_witness:
  "\<exists>s'. run_nodes \<lparr>env_select = \<lambda>_ _ w. ((0, []), w), env_sleep = id\<rparr> sample_os 0 [1, 2, 1]
      (cycle_state [''a'', ''b'', ''c'']) = Some s' \<and>
    marking (graph_of s' 0) 0 = (1, 0) \<and> marking (graph_of s' 0) 1 = (0, 0)"
proof -
  let ?ns = "[''a'', ''b'', ''c'']"
  have inv: "state_inv (cycle_state ?ns)" by (rule cycle_state_inv) simp_all
  have live: "live_graph (cycle_state ?ns) 0" by (simp add: cycle_state_live)
  have m: "marking (cycle_graph ?ns) 0 = (0, 0)" "marking (cycle_graph ?ns) 1 = (0, 1)"
    by (simp_all add: marking_def cycle_edges cycle_edge_def full_edge_def new_edge_def zero_edge_def Let_def)
  let ?M1 = "fire (cycle_graph ?ns) 1 (marking (cycle_graph ?ns))"
  let ?M2 = "fire (cycle_graph ?ns) 2 ?M1"
  have m1: "?M1 0 = (1, 0)" "?M1 1 = (0, 0)" by (simp_all add: cycle_fire m [simplified])
  then have m2: "?M2 0 = (0, 0)" "?M2 1 = (1, 0)" by (simp_all add: cycle_fire)
  then have m3: "fire (cycle_graph ?ns) 1 ?M2 0 = (1, 0)" "fire (cycle_graph ?ns) 1 ?M2 1 = (0, 0)"
    by (simp_all add: cycle_fire)
  have "signal_node (cycle_graph ?ns) 1" "signal_node (cycle_graph ?ns) 2"
    by (simp_all add: signal_node_def cycle_lists [simplified] cycle_edges cycle_attr default_edge_attr)
  moreover have "enabled (cycle_graph ?ns) 1 (marking (cycle_graph ?ns))" "enabled (cycle_graph ?ns) 2 ?M1"
    "enabled (cycle_graph ?ns) 1 ?M2"
    using m m1 m2 by (simp_all add: enabled_def cycle_lists [simplified] cycle_edges cycle_attr default_edge_attr)
  moreover have "room (cycle_graph ?ns) 1 (marking (cycle_graph ?ns))" "room (cycle_graph ?ns) 2 ?M1"
    "room (cycle_graph ?ns) 1 ?M2"
    using m m1 m2 by (simp_all add: room_def cycle_lists [simplified] cycle_edges cycle_attr default_edge_attr)
  ultimately have "fires (graph_of (cycle_state ?ns) 0) [1, 2, 1] (marking (graph_of (cycle_state ?ns) 0)) =
      Some (fire (cycle_graph ?ns) 1 ?M2)"
    by (simp add: cycle_state_live(2))
  then show ?thesis
    using run_refines_token_game [OF live state_invD [OF inv live]] m3 by metis
qed

section \<open>Termination\<close>

text \<open>The first loop of \<open>pgm_produce\<close> for a terminate command, over edges that pass no data.\<close>

definition forward_signal :: "pgm_edge \<Rightarrow> bool" where
  "forward_signal e \<longleftrightarrow> is_signal_driven (e_attr e) \<and> \<not> e_is_backedge e"

definition tell_consumers :: "nat list \<Rightarrow> pgm_graph \<Rightarrow> pgm_graph" where
  "tell_consumers is g = g\<lparr>nodes := (\<lambda>c. (nodes g c)\<lparr>nr_terminate_signals := nr_terminate_signals (nodes g c) +
     length (filter (\<lambda>i. forward_signal (edges g i) \<and> e_consumer (edges g i) = c) is)\<rparr>)\<rparr>"

lemma produce_edges_terminate:
  assumes "holds_graph s h" and "\<forall>i \<in> set is. \<not> is_data_passing (e_attr (edges (graph_of s h) i))"
  shows "produce_edges os h PGM_TERMINATE is err to_wake s =
    Some (err, to_wake @ map (\<lambda>i. e_consumer (edges (graph_of s h) i)) (filter (\<lambda>i. forward_signal (edges (graph_of s h) i)) is),
      set_graph h (tell_consumers is (graph_of s h)) s)"
  using assms
proof (induction "is" arbitrary: to_wake s)
  case Nil
  then show ?case by (simp add: tell_consumers_def set_graph_id)
next
  case (Cons i "is")
  let ?g = "graph_of s h"
  have tm: "PGM_TERMINATE AND PGM_TERMINATE \<noteq> 0" by (simp add: PGM_TERMINATE_def)
  show ?case
  proof (cases "forward_signal (edges ?g i)")
    case True
    let ?g' = "upd_node (e_consumer (edges ?g i)) (nr_terminate_signals_update Suc) ?g"
    have g': "graph_of (set_graph h ?g' s) h = ?g'" using Cons.prems(1) by (rule graph_of_held)
    have e: "edges ?g' = edges ?g" by (simp add: upd_node_def)
    have t: "tell_consumers is ?g' = tell_consumers (i # is) ?g"
      using True by (auto simp: tell_consumers_def upd_node_def fun_eq_iff)
    have "produce_edges os h PGM_TERMINATE (i # is) err to_wake s =
        produce_edges os h PGM_TERMINATE is err (to_wake @ [e_consumer (edges ?g i)]) (set_graph h ?g' s)"
      using True Cons.prems(2) tm by (simp add: forward_signal_def Let_def)
    then show ?thesis using Cons.IH [of "set_graph h ?g' s"] Cons.prems True by (simp add: g' e t)
  next
    case False
    then have "produce_edges os h PGM_TERMINATE (i # is) err to_wake s = produce_edges os h PGM_TERMINATE is err to_wake s"
      using Cons.prems(2) tm by (auto simp: forward_signal_def Let_def)
    moreover have "tell_consumers (i # is) ?g = tell_consumers is ?g" using False by (simp add: tell_consumers_def)
    ultimately show ?thesis using Cons False by simp
  qed
qed

text \<open>The counters of terminate signals, when the nodes in \<open>T\<close> have terminated.\<close>

definition terminated :: "pgm_graph \<Rightarrow> nat set \<Rightarrow> bool" where
  "terminated g T \<longleftrightarrow> (\<forall>c < nr_nodes g. nr_terminate_signals (nodes g c) =
     length (filter (\<lambda>i. forward_signal (edges g i) \<and> e_producer (edges g i) \<in> T) (in_list (nodes g c))))"

lemma terminated_tell:
  assumes "graph_inv g" and "terminated g T" and "j < nr_nodes g" and "j \<notin> T"
  shows "terminated (tell_consumers (out_list (nodes g j)) g) (insert j T)"
  unfolding terminated_def
proof (intro allI impI)
  let ?g = "tell_consumers (out_list (nodes g j)) g"
  let ?f = "\<lambda>i. forward_signal (edges g i)"
  fix c assume "c < nr_nodes ?g"
  then have c: "c < nr_nodes g" by (simp add: tell_consumers_def)
  have split: "length (filter (\<lambda>i. P i \<and> (e_producer (edges g i) = j \<or> Q i)) xs) =
      length (filter (\<lambda>i. P i \<and> Q i) xs) + length (filter (\<lambda>i. P i \<and> e_producer (edges g i) = j) xs)"
    if "\<And>i. e_producer (edges g i) = j \<Longrightarrow> \<not> Q i" for P Q and xs :: "nat list"
    using that by (induction xs) auto
  have ins: "in_list (nodes ?g c) = in_list (nodes g c)" by (simp add: tell_consumers_def in_list_def)
  have "length (filter (\<lambda>i. ?f i \<and> e_consumer (edges g i) = c) (out_list (nodes g j))) =
      length (filter (\<lambda>i. ?f i \<and> e_producer (edges g i) = j) (in_list (nodes g c)))"
    using graph_inv_lists(1) [OF assms(1) c] graph_inv_lists(2) [OF assms(1,3)]
    by (simp add: in_edges_of_def out_edges_def conj_ac)
  then show "nr_terminate_signals (nodes ?g c) =
      length (filter (\<lambda>i. forward_signal (edges ?g i) \<and> e_producer (edges ?g i) \<in> insert j T) (in_list (nodes ?g c)))"
    using assms(2,4) c split [of "\<lambda>i. e_producer (edges g i) \<in> T" ?f "in_list (nodes g c)"]
    by (simp add: ins) (simp add: tell_consumers_def terminated_def)
qed

lemma all_told:
  assumes "graph_inv g" and "terminated g T" and "c < nr_nodes g"
    and "\<forall>i \<in> set (in_list (nodes g c)). forward_signal (edges g i) \<longrightarrow> e_producer (edges g i) \<in> T"
    and "\<exists>i \<in> set (in_list (nodes g c)). forward_signal (edges g i)"
  shows "all_terminated (nodes g c)"
proof -
  let ?ins = "in_list (nodes g c)"
  let ?sig = "\<lambda>i. is_signal_driven (e_attr (edges g i))"
  have "nr_terminate_signals (nodes g c) = length (filter (\<lambda>i. forward_signal (edges g i)) ?ins)"
    using assms(2-4) length_filter_eq [of "\<lambda>i. forward_signal (edges g i)" "\<lambda>i. e_producer (edges g i) \<in> T" ?ins]
    by (simp add: terminated_def)
  moreover have "nr_in_signaled (nodes g c) = length (filter ?sig ?ins)"
    "nr_in_signaled_backedges (nodes g c) = length (filter (\<lambda>i. ?sig i \<and> e_is_backedge (edges g i)) ?ins)"
    using assms(1,3) by (simp_all add: graph_inv_def node_ok_def)
  moreover have "length (filter ?sig is) = length (filter (\<lambda>i. forward_signal (edges g i)) is) +
      length (filter (\<lambda>i. ?sig i \<and> e_is_backedge (edges g i)) is)" for "is"
    by (induction "is") (auto simp: forward_signal_def)
  moreover have "length (filter (\<lambda>i. forward_signal (edges g i)) ?ins) \<noteq> 0" using assms(5) by (auto simp: filter_empty_conv)
  ultimately show ?thesis unfolding all_terminated_def by simp
qed

lemma tell_consumers_fields:
  "edges (tell_consumers is g) = edges g" "nr_nodes (tell_consumers is g) = nr_nodes g" "in_use (tell_consumers is g) = in_use g"
  "in_list (nodes (tell_consumers is g) c) = in_list (nodes g c)" "out_list (nodes (tell_consumers is g) c) = out_list (nodes g c)"
  "same_shape g (tell_consumers is g)" "nr_in_signaled (nodes (tell_consumers is g) c) = nr_in_signaled (nodes g c)"
  by (simp_all add: tell_consumers_def in_list_def out_list_def same_shape_def node_shape_def)

lemma terminate_signals:
  assumes "has_node s node" and "\<forall>i \<in> set (out_list (nodes (graph_of s (ngraph node)) (nat (nnode node)))).
      \<not> is_data_passing (e_attr (edges (graph_of s (ngraph node)) i))"
  shows "pgm_terminate os node s = Some (0, map (\<lambda>i. e_consumer (edges (graph_of s (ngraph node)) i))
      (filter (\<lambda>i. forward_signal (edges (graph_of s (ngraph node)) i)) (out_list (nodes (graph_of s (ngraph node)) (nat (nnode node))))),
    set_graph (ngraph node) (tell_consumers (out_list (nodes (graph_of s (ngraph node)) (nat (nnode node)))) (graph_of s (ngraph node))) s)"
  using produce_edges_terminate [OF has_node_holds [OF assms(1)] assms(2), of os False "[]"] assms(1)
  by (simp add: pgm_terminate_def pgm_produce_def PGM_TERMINATE_def Let_def)

lemma exhausted:
  assumes "graph_inv g" and "c < nr_nodes g" and "all_terminated (nodes g c)" and "nr_ready_normal g (nodes g c) = 0"
    and "\<exists>i \<in> set (in_list (nodes g c)). forward_signal (edges g i)"
  shows "token_status g (nodes g c) = Some WaitExhaustedAndTerminate"
proof -
  have "\<not> enabled g c (marking g)"
    using assms(4,5) by (force simp: enabled_def marking_def nr_ready_normal_def forward_signal_def edge_ready_def
        filter_empty_conv word_le_nat_alt word_less_nat_alt)
  then show ?thesis using all_ready [OF assms(1,2)] assms(3,4) by (simp add: token_status_def)
qed

lemma terminated_same_shape:
  assumes "same_shape g g'" and "nodes g' = nodes g"
  shows "terminated g' T = terminated g T"
proof -
  have "edge_shape (edges g' i) = edge_shape (edges g i)" for i using assms(1) by (simp add: same_shape_def)
  from edge_shapeD [OF this] show ?thesis
    using assms by (simp add: terminated_def forward_signal_def same_shape_def)
qed

lemma wait_exhausted:
  assumes "has_node s node" and "graph_inv (graph_of s (ngraph node))" and "signal_node (graph_of s (ngraph node)) (nat (nnode node))"
    and "token_status (graph_of s (ngraph node)) (nodes (graph_of s (ngraph node)) (nat (nnode node))) = Some WaitExhaustedAndTerminate"
    and "nat (nnode node) < nr_nodes (graph_of s (ngraph node))"
  shows "\<exists>s'. pgm_wait env os node s = Some (128, s') \<and> (\<forall>T. terminated (graph_of s (ngraph node)) T \<longrightarrow> nat (nnode node) \<notin> T \<longrightarrow>
    terminated (graph_of s' (ngraph node)) (insert (nat (nnode node)) T))"
proof -
  let ?h = "ngraph node" and ?j = "nat (nnode node)"
  let ?g = "graph_of s ?h"
  let ?g' = "consume_skips ?g (nodes ?g ?j)"
  have wt: "wait_for_tokens (env_sleep env) ?h ?j s = Some (WaitExhaustedAndTerminate, s)"
    using assms(4) by (subst wait_for_tokens.simps) simp
  have n: "nodes ?g' = nodes ?g" by (simp add: consume_skips_def fold_upd_edge_nodes)
  have sh: "same_shape ?g ?g'" unfolding consume_skips_def by (rule same_shape_fold) simp
  let ?s = "set_graph ?h ?g' s"
  have hn: "has_node ?s node" using assms(1) by simp
  have g': "graph_of ?s ?h = ?g'" using has_node_holds [OF assms(1)] by (rule graph_of_held)
  let ?t = "tell_consumers (out_list (nodes ?g' ?j)) ?g'"
  have "\<exists>woken. pgm_terminate os node ?s = Some (0, woken, set_graph ?h ?t ?s)"
    using terminate_signals [OF hn, of os] assms(3) shape_static(4) [OF sh] by (simp add: g' n signal_node_def)
  then have "pgm_wait env os node s = Some (128, set_graph ?h ?t ?s)"
    using wt assms(1,3) signal_node_no_data [OF assms(2,3)]
    by (auto simp: pgm_wait_def wait_result_def signal_node_def PGM_TERMINATE_def Let_def)
  moreover have "graph_of (set_graph ?h ?t ?s) ?h = ?t"
    using has_node_holds [OF hn] by (rule graph_of_held)
  moreover have "terminated ?t (insert ?j T)" if "terminated ?g T" "?j \<notin> T" for T
    using terminated_tell [of ?g' T ?j] that graph_inv_same_shape [OF sh] assms(2,5) terminated_same_shape [OF sh n] shape_static(9) [OF sh]
    by simp
  ultimately show ?thesis by simp
qed

text \<open>
  C19: termination propagates. Suppose the counters of terminate signals are right for the set \<open>T\<close> of
  nodes that have terminated, and a further node without data edges to its consumers terminates. Then they are
  right for the larger set and every consumer of its forward edges is woken. Take now a node that has only
  signalled edges, at least one of them a forward edge into it, such that the producers of all its forward edges have
  terminated and none of these edges is ready. It does not sleep: its \<open>pgm_wait\<close> returns \<open>PGM_TERMINATE\<close>, and it has by
  then told its own consumers, so that the counters are right with this node terminated as well.
\<close>

theorem termination_propagates:
  fixes s node
  defines "h \<equiv> ngraph node" and "j \<equiv> nat (nnode node)" and "g \<equiv> graph_of s (ngraph node)"
  assumes "state_inv s" and "valid_node s node" and "terminated g T" and "j \<notin> T"
    and "\<forall>i \<in> set (out_list (nodes g j)). \<not> is_data_passing (e_attr (edges g i))"
  shows "\<exists>woken s'. pgm_terminate os node s = Some (0, woken, s') \<and> terminated (graph_of s' h) (insert j T) \<and>
    (\<forall>i \<in> set (out_list (nodes g j)). forward_signal (edges g i) \<longrightarrow> e_consumer (edges g i) \<in> set woken) \<and>
    (\<forall>c. signal_node g c \<and> nr_ready_normal g (nodes g c) = 0 \<and>
      (\<forall>i \<in> set (in_list (nodes g c)). forward_signal (edges g i) \<longrightarrow> e_producer (edges g i) \<in> insert j T) \<and>
      (\<exists>i \<in> set (in_list (nodes g c)). forward_signal (edges g i)) \<longrightarrow>
      (\<exists>s''. pgm_wait env os \<lparr>ngraph = h, nnode = int c\<rparr> s' = Some (128, s'') \<and>
        (c \<notin> insert j T \<longrightarrow> terminated (graph_of s'' h) (insert c (insert j T)))))"
proof -
  let ?g' = "tell_consumers (out_list (nodes g j)) g"
  let ?s' = "set_graph h ?g' s"
  have live: "live_graph s h" and j: "j < nr_nodes g" using assms(5) by (auto simp: valid_node_def h_def j_def g_def)
  have inv: "graph_inv g" using state_invD [OF assms(4) live] by (simp add: g_def h_def)
  have holds: "holds_graph s h" using live by (auto simp: holds_graph_def elim!: live_graphD)
  have hn: "has_node s \<lparr>ngraph = h, nnode = int c\<rparr>" if "c < nr_nodes g" for c
    using that holds inv by (simp add: has_node_def holds_graph_def in_nodes_def graph_inv_def)
  have "node = \<lparr>ngraph = h, nnode = int j\<rparr>" using assms(5) by (simp add: h_def j_def valid_node_def)
  then have has: "has_node s node" using hn [OF j] by (simp only:)
  have g': "graph_of ?s' h = ?g'" using holds by (rule graph_of_held)
  have inv': "graph_inv ?g'" using graph_inv_same_shape [OF tell_consumers_fields(6)] inv by simp
  have term': "terminated ?g' (insert j T)" using terminated_tell [OF inv assms(6) j assms(7)] .
  have "pgm_terminate os node s = Some (0, map (\<lambda>i. e_consumer (edges g i)) (filter (\<lambda>i. forward_signal (edges g i)) (out_list (nodes g j))), ?s')"
    using terminate_signals [OF has, of os] assms(8) unfolding g_def h_def j_def by blast
  moreover have "\<exists>s''. pgm_wait env os \<lparr>ngraph = h, nnode = int c\<rparr> ?s' = Some (128, s'') \<and>
      (c \<notin> insert j T \<longrightarrow> terminated (graph_of s'' h) (insert c (insert j T)))"
    if c: "signal_node g c" "nr_ready_normal g (nodes g c) = 0"
      "\<forall>i \<in> set (in_list (nodes g c)). forward_signal (edges g i) \<longrightarrow> e_producer (edges g i) \<in> insert j T"
      "\<exists>i \<in> set (in_list (nodes g c)). forward_signal (edges g i)" for c
  proof -
    have cn: "c < nr_nodes g" using c(1) by (simp add: signal_node_def)
    have sn: "signal_node ?g' c" using c(1) by (simp add: signal_node_def tell_consumers_fields)
    have "all_terminated (nodes ?g' c)"
      using all_told [OF inv' term', of c] cn c(3,4) by (simp add: tell_consumers_fields)
    moreover have "nr_ready_normal ?g' (nodes ?g' c) = 0"
      using c(2) by (simp add: nr_ready_normal_def tell_consumers_fields)
    ultimately have "token_status ?g' (nodes ?g' c) = Some WaitExhaustedAndTerminate"
      using exhausted [OF inv', of c] cn c(4) by (simp add: tell_consumers_fields)
    then show ?thesis
      using wait_exhausted [of ?s' "\<lparr>ngraph = h, nnode = int c\<rparr>" env os] hn [OF cn] inv' sn cn term'
      by (simp add: g' tell_consumers_fields) blast
  qed
  moreover have "terminated (graph_of ?s' h) (insert j T)" using term' by (simp only: g')
  moreover have "\<forall>i \<in> set (out_list (nodes g j)). forward_signal (edges g i) \<longrightarrow> e_consumer (edges g i) \<in>
      set (map (\<lambda>i. e_consumer (edges g i)) (filter (\<lambda>i. forward_signal (edges g i)) (out_list (nodes g j))))"
    by simp
  ultimately show ?thesis by blast
qed

lemma full_graph_terminate: "terminated full_graph {}" "signal_node full_graph 1" "nr_ready_normal full_graph (nodes full_graph 1) = 0"
  "in_list (nodes full_graph 1) = [0..<31]" "out_list (nodes full_graph 0) = [0..<31]"
proof -
  show l: "in_list (nodes full_graph 1) = [0..<31]" "out_list (nodes full_graph 0) = [0..<31]"
    by (simp_all add: full_graph_def in_list_def out_list_def)
  have o: "out_list (nodes full_graph 1) = []" by (simp add: full_graph_def out_list_def zero_node_def)
  have e: "edges full_graph i = full_edge" if "i < 31" for i using that by (simp add: full_graph_def)
  show "terminated full_graph {}" by (simp add: terminated_def full_graph_def zero_node_def)
  show "signal_node full_graph 1"
    unfolding signal_node_def l o using e by (simp add: full_edge_fields default_edge_attr) (simp add: full_graph_def)
  have "\<not> edge_ready full_edge"
    by (simp add: edge_ready_def full_edge_def new_edge_def zero_edge_def default_edge_def zero_attr_def Let_def)
  then show "nr_ready_normal full_graph (nodes full_graph 1) = 0" unfolding nr_ready_normal_def l
    using e by (simp add: filter_empty_conv)
qed

theorem termination_propagates_witness:
  "\<exists>woken s' s''. pgm_terminate sample_os node0 full_state = Some (0, woken, s') \<and> 1 \<in> set woken \<and>
    pgm_wait \<lparr>env_select = \<lambda>_ _ w. ((0, []), w), env_sleep = id\<rparr> sample_os node1 s' = Some (128, s'') \<and>
    terminated (graph_of s'' 0) {0, 1}"
proof -
  let ?env = "\<lparr>env_select = \<lambda>_ _ w. ((0, []), w), env_sleep = id\<rparr>"
  have e: "edges full_graph i = full_edge" if "i < 31" for i using that by (simp add: full_graph_def)
  have f: "forward_signal full_edge" "e_producer full_edge = 0" "e_consumer full_edge = 1"
    by (simp_all add: forward_signal_def full_edge_fields default_edge_attr)
  have "\<forall>i \<in> set (out_list (nodes full_graph 0)). \<not> is_data_passing (e_attr (edges full_graph i))"
    by (simp add: full_graph_terminate e full_edge_fields default_edge_attr)
  then obtain woken s' where t: "pgm_terminate sample_os node0 full_state = Some (0, woken, s')"
    and w: "\<forall>i \<in> set (out_list (nodes full_graph 0)). forward_signal (edges full_graph i) \<longrightarrow>
      e_consumer (edges full_graph i) \<in> set woken"
    and c: "\<forall>c. signal_node full_graph c \<and> nr_ready_normal full_graph (nodes full_graph c) = 0 \<and>
      (\<forall>i \<in> set (in_list (nodes full_graph c)). forward_signal (edges full_graph i) \<longrightarrow> e_producer (edges full_graph i) \<in> insert 0 {}) \<and>
      (\<exists>i \<in> set (in_list (nodes full_graph c)). forward_signal (edges full_graph i)) \<longrightarrow>
      (\<exists>s''. pgm_wait ?env sample_os \<lparr>ngraph = 0, nnode = int c\<rparr> s' = Some (128, s'') \<and>
        (c \<notin> insert 0 {} \<longrightarrow> terminated (graph_of s'' 0) (insert c (insert 0 {}))))"
    using termination_propagates [OF full_state_inv full_state_free(4), of "{}" sample_os ?env] full_graph_terminate(1)
    by (auto simp: full_state_live)
  have "1 \<in> set woken" using w full_graph_terminate(5) e f by force
  moreover have "\<exists>s''. pgm_wait ?env sample_os \<lparr>ngraph = 0, nnode = int 1\<rparr> s' = Some (128, s'') \<and> terminated (graph_of s'' 0) {0, 1}"
    using c [rule_format, of 1] full_graph_terminate(2-4) e f exI [of "\<lambda>i :: nat. i < 31" 0] by (auto simp: insert_commute)
  ultimately show ?thesis using t by auto
qed

end
