(* ===== verification/Pgm_Framework.thy ===== *)
theory Pgm_Framework
  imports Pgm_Graph
begin

text \<open>
  Initialisation and shutdown of the framework: \<open>safePath\<close>, \<open>prepare_dir\<close>, \<open>get_gMemName\<close>, the shared and
  the private graph memory, \<open>pgm_init\<close>, \<open>pgm_init_process_local\<close> and \<open>pgm_destroy\<close> of
  \<^verbatim>\<open>src/src/pgm.cpp\<close>.
\<close>

section \<open>The file system and shared memory libraries\<close>

text \<open>
  What the code calls of Boost.Filesystem and Boost.Interprocess.  A path is its string; \<open>fs_parts\<close> are the
  elements an iterator over it yields, and two paths are equal when these are.  A call that throws gives
  \<open>None\<close>.  \<open>shm_find\<close> is the array of graphs found in the open segment, as other processes left it.
\<close>

record 'w fs =
  fs_is_relative :: "string \<Rightarrow> bool"
  fs_append :: "string \<Rightarrow> string \<Rightarrow> string"
  fs_parts :: "string \<Rightarrow> string list"
  fs_current_path :: "'w \<Rightarrow> string"
  fs_is_directory :: "string \<Rightarrow> 'w \<Rightarrow> bool"
  fs_equivalent :: "string \<Rightarrow> string \<Rightarrow> 'w \<Rightarrow> bool option"
  fs_create_directories :: "string \<Rightarrow> 'w \<Rightarrow> (bool \<times> 'w) option"
  fs_is_empty :: "string \<Rightarrow> 'w \<Rightarrow> bool option"
  fs_remove_all :: "string \<Rightarrow> 'w \<Rightarrow> (nat \<times> 'w) option"
  fs_sleep :: "nat \<Rightarrow> 'w \<Rightarrow> 'w"
  fs_new_graphs :: "'w \<Rightarrow> bool \<times> 'w"
  sizeof_pgm_graph :: size_t
  shm_remove :: "string \<Rightarrow> 'w \<Rightarrow> 'w"
  shm_create :: "string \<Rightarrow> size_t \<Rightarrow> 'w \<Rightarrow> (bool \<times> 'w) option"
  shm_construct :: "'w \<Rightarrow> (bool \<times> 'w) option"
  shm_open :: "string \<Rightarrow> 'w \<Rightarrow> 'w option"
  shm_find :: "'w \<Rightarrow> (nat \<Rightarrow> pgm_graph) option"
  shm_delete :: "'w \<Rightarrow> 'w"

section \<open>Preparing the graph directory\<close>

definition allowed :: "string list" where
  "allowed = [''/dev/shm'', ''/home'', ''/tmp'']"

definition absolute :: "'w fs \<Rightarrow> string \<Rightarrow> 'w \<Rightarrow> string" where
  "absolute fs dir w = (if fs_is_relative fs dir then fs_append fs (fs_current_path fs w) dir else dir)"

text \<open>
  The inner loop of \<open>safePath\<close> over one stem: whether the elements differ somewhere.  The element of the
  path is read before the test for its end, so a path that stops inside the stem is read past its end.
\<close>

fun stem_failure :: "string list \<Rightarrow> string list \<Rightarrow> bool option" where
  "stem_failure [] ds = Some False"
| "stem_failure (c # cs) [] = None"
| "stem_failure (c # cs) (d # ds) = (if c \<noteq> d then Some True else stem_failure cs ds)"

fun stem_failures :: "string list list \<Rightarrow> string list \<Rightarrow> nat option" where
  "stem_failures [] ds = Some 0"
| "stem_failures (cs # stems) ds =
     (case stem_failure cs ds of
        None \<Rightarrow> None
      | Some f \<Rightarrow> map_option (\<lambda>n. if f then Suc n else n) (stem_failures stems ds))"

definition safePath :: "'w fs \<Rightarrow> string \<Rightarrow> 'w \<Rightarrow> int option" where
  "safePath fs dir w =
     (let dirAbs = absolute fs dir w in
      if dirAbs = [] \<or> fs_parts fs dirAbs = fs_parts fs ''/'' then Some (-1)
      else map_option (\<lambda>failures. if length allowed = failures then -1 else 0)
             (stem_failures (map (fs_parts fs) allowed) (fs_parts fs dirAbs)))"

text \<open>
  The part of \<open>prepare_dir\<close> after the directory was created or found; \<open>Some (None, w)\<close> is the jump back to
  \<open>create_dir\<close>.
\<close>

definition empty_dir :: "'w fs \<Rightarrow> string \<Rightarrow> 'w \<Rightarrow> (int option \<times> 'w) option" where
  "empty_dir fs graphDir w =
     (case fs_is_empty fs graphDir w of
        None \<Rightarrow> None
      | Some e \<Rightarrow>
          if e then Some (Some 0, w)
          else (case fs_remove_all fs graphDir w of
              None \<Rightarrow> None
            | Some (n, w) \<Rightarrow> Some (if n = 0 then Some (-1) else None, w)))"

partial_function (option) create_dir :: "'w fs \<Rightarrow> string \<Rightarrow> 'w \<Rightarrow> (int \<times> 'w) option" where
  "create_dir fs graphDir w =
     (case fs_create_directories fs graphDir w of
        None \<Rightarrow> None
      | Some (created, w) \<Rightarrow>
          if \<not> created then Some (-1, w)
          else (case empty_dir fs graphDir w of
              None \<Rightarrow> None
            | Some (ret, w) \<Rightarrow> (case ret of None \<Rightarrow> create_dir fs graphDir w | Some ret \<Rightarrow> Some (ret, w))))"

definition prepare_dir :: "'w fs \<Rightarrow> 'w os \<Rightarrow> string \<Rightarrow> 'w \<Rightarrow> (int \<times> 'w) option" where
  "prepare_dir fs os graphDir w =
     (case safePath fs graphDir w of
        None \<Rightarrow> None
      | Some safe \<Rightarrow>
          if safe \<noteq> 0 then Some (-1, w)
          else if os_exists os graphDir w \<and> \<not> fs_is_directory fs graphDir w then Some (-1, w)
          else (case fs_equivalent fs graphDir (fs_current_path fs w) w of
              None \<Rightarrow> None
            | Some same \<Rightarrow>
                if same then Some (-1, w)
                else if \<not> os_exists os graphDir w then create_dir fs graphDir w
                else (case empty_dir fs graphDir w of
                    None \<Rightarrow> None
                  | Some (ret, w) \<Rightarrow>
                      (case ret of None \<Rightarrow> create_dir fs graphDir w | Some ret \<Rightarrow> Some (ret, w)))))"

section \<open>Graph memory\<close>

definition get_gMemName :: "'w os \<Rightarrow> string \<Rightarrow> string" where
  "get_gMemName os graphDir = num_str 16 (unat (os_hash os graphDir)) @ ''_'' @ ''gGraphSharedMem.dat''"

definition set_world :: "'w \<Rightarrow> 'w pgm_state \<Rightarrow> 'w pgm_state" where
  "set_world w s = s\<lparr>world := w\<rparr>"

definition set_master :: "pid_t \<Rightarrow> 'w pgm_state \<Rightarrow> 'w pgm_state" where
  "set_master self s = s\<lparr>gIsGraphMaster := (gIsGraphMaster s)(self := True)\<rparr>"

text \<open>
  \<open>shared\<close> is whether the library was compiled with \<open>PGM_SHARED\<close>.  The size of the segment is computed in
  \<open>size_t\<close>.
\<close>

definition prepare_graph_shared_mem :: "'w fs \<Rightarrow> 'w os \<Rightarrow> bool \<Rightarrow> pid_t \<Rightarrow> string \<Rightarrow> 'w pgm_state \<Rightarrow> (int \<times> 'w pgm_state) option" where
  "prepare_graph_shared_mem fs os shared self graphDir s =
     (if \<not> shared then Some (-1, s)
      else let memName = get_gMemName os graphDir;
               memsize = sizeof_pgm_graph fs * of_nat PGM_MAX_GRAPHS * 2;
               w = shm_remove fs memName (world s) in
        (case shm_create fs memName memsize w of
           None \<Rightarrow> None
         | Some (ok, w) \<Rightarrow>
             let s = (set_world w s)\<lparr>gGraphSharedMem := ok\<rparr> in
             if \<not> ok then Some (-1, s)
             else (case shm_construct fs w of
                 None \<Rightarrow> None
               | Some (ok, w) \<Rightarrow>
                   if \<not> ok then Some (-1, (set_world w s)\<lparr>gGraphs := None\<rparr>)
                   else Some (0, (set_master self (set_world w s))\<lparr>gGraphs := Some (\<lambda>_. zero_graph),
                          gMemName := memName\<rparr>))))"

text \<open>
  The loop that waits for the segment: every failed attempt sleeps for a second.  The result is whether
  the segment is open.
\<close>

partial_function (option) shm_open_loop :: "'w fs \<Rightarrow> string \<Rightarrow> int \<Rightarrow> int \<Rightarrow> 'w \<Rightarrow> (bool \<times> 'w) option" where
  "shm_open_loop fs memName timeout_s time w =
     (case shm_open fs memName w of
        Some w \<Rightarrow> Some (True, w)
      | None \<Rightarrow>
          if timeout_s = time + 1 then Some (False, fs_sleep fs 1 w)
          else shm_open_loop fs memName timeout_s (time + 1) (fs_sleep fs 1 w))"

definition open_graph_shared_mem :: "'w fs \<Rightarrow> 'w os \<Rightarrow> bool \<Rightarrow> string \<Rightarrow> int \<Rightarrow> 'w pgm_state \<Rightarrow> (int \<times> 'w pgm_state) option" where
  "open_graph_shared_mem fs os shared graphDir timeout_s s =
     (if \<not> shared then Some (-1, s)
      else case (if gGraphSharedMem s then Some (True, world s)
                 else shm_open_loop fs (get_gMemName os graphDir) timeout_s 0 (world s)) of
          None \<Rightarrow> None
        | Some (ok, w) \<Rightarrow>
            if \<not> ok then Some (-1, set_world w s)
            else Some (0, (set_world w s)\<lparr>gGraphSharedMem := True, gGraphs := shm_find fs w\<rparr>))"

definition prepare_graph_private_mem :: "'w fs \<Rightarrow> pid_t \<Rightarrow> 'w pgm_state \<Rightarrow> int \<times> 'w pgm_state" where
  "prepare_graph_private_mem fs self s =
     (if gGraphs s \<noteq> None then (1, s)
      else let (ok, w) = fs_new_graphs fs (world s) in
        if ok then (0, (set_master self (set_world w s))\<lparr>gGraphs := Some (\<lambda>_. zero_graph)\<rparr>)
        else (-1, set_world w s))"

section \<open>Entry points\<close>

definition pgm_init_process_local :: "'w fs \<Rightarrow> pid_t \<Rightarrow> 'w pgm_state \<Rightarrow> int \<times> 'w pgm_state" where
  "pgm_init_process_local fs self s = prepare_graph_private_mem fs self s"

definition pgm_init :: "'w fs \<Rightarrow> 'w os \<Rightarrow> bool \<Rightarrow> pid_t \<Rightarrow> string \<Rightarrow> bool \<Rightarrow> bool \<Rightarrow> 'w pgm_state \<Rightarrow> (int \<times> 'w pgm_state) option" where
  "pgm_init fs os shared self dir create use_shared_mem s =
     (let graphDir = absolute fs dir (world s) in
      if create then
        (case prepare_dir fs os graphDir (world s) of
           None \<Rightarrow> None
         | Some (ret, w) \<Rightarrow>
             let s = set_world w s in
             if ret \<noteq> 0 then Some (ret, s)
             else if use_shared_mem then
               (case prepare_graph_shared_mem fs os shared self graphDir s of
                  None \<Rightarrow> None
                | Some (ret, s) \<Rightarrow> if ret \<noteq> 0 then Some (ret, s) else Some (ret, s\<lparr>gGraphPath := graphDir\<rparr>))
             else let (ret, s) = prepare_graph_private_mem fs self s in Some (ret, s\<lparr>gGraphPath := graphDir\<rparr>))
      else if \<not> use_shared_mem then Some (-1, s)
      else (case open_graph_shared_mem fs os shared graphDir 60 s of
          None \<Rightarrow> None
        | Some (ret, s) \<Rightarrow> if ret \<noteq> 0 then Some (ret, s) else Some (ret, s\<lparr>gGraphPath := graphDir\<rparr>)))"

text \<open>\<open>delete [] gGraphs\<close> frees memory no later access of the model reaches.\<close>

definition pgm_destroy :: "'w fs \<Rightarrow> pid_t \<Rightarrow> 'w pgm_state \<Rightarrow> int \<times> 'w pgm_state" where
  "pgm_destroy fs self s =
     (if gGraphSharedMem s then
        let w = shm_delete fs (world s);
            w = (if gIsGraphMaster s self then shm_remove fs (gMemName s) w else w)
        in (0, (set_world w s)\<lparr>gGraphs := None, gGraphSharedMem := False\<rparr>)
      else if gGraphs s \<noteq> None then (0, s\<lparr>gGraphs := None\<rparr>)
      else (-1, s))"


section \<open>The accepted directories\<close>

text \<open>The elements of the stems, and the root directory alone, as a POSIX path is split.\<close>

definition posix_parts :: "'w fs \<Rightarrow> bool" where
  "posix_parts fs \<longleftrightarrow> fs_parts fs ''/'' = [''/''] \<and> map (fs_parts fs) allowed =
     [[''/'', ''dev'', ''shm''], [''/'', ''home''], [''/'', ''tmp'']]"

text \<open>
  C34: \<open>safePath\<close> accepts an absolute path by its first elements alone: everything below \<open>/home\<close>, \<open>/tmp\<close> and
  \<open>/dev/shm\<close>, whatever the further elements are, so also \<open>/tmp/../etc\<close>; the path \<open>/dev\<close> is read past its end;
  every other path is refused.
\<close>

theorem safePath_iff:
  assumes "posix_parts fs" and "absolute fs dir w \<noteq> []" and "fs_parts fs (absolute fs dir w) = ''/'' # ds"
  shows "safePath fs dir w =
    (case ds of
       [] \<Rightarrow> Some (-1)
     | d # rest \<Rightarrow>
         if d = ''home'' \<or> d = ''tmp'' then Some 0
         else if d = ''dev'' then (case rest of [] \<Rightarrow> None | e # _ \<Rightarrow> Some (if e = ''shm'' then 0 else -1))
         else Some (-1))"
  using assms by (auto simp: safePath_def posix_parts_def allowed_def Let_def split: list.splits)

section \<open>Emptying the graph directory\<close>

text \<open>
  What the directory functions are documented to do when no other process interferes and the permissions are
  there: a path that does not exist can be created, and is then an empty directory; a directory that is not
  empty can be removed with its contents; two paths that exist can be compared, if one is a directory.  Comparing
  a path that does not exist may throw an exception.
\<close>

definition dir_laws :: "'w fs \<Rightarrow> 'w os \<Rightarrow> string \<Rightarrow> bool" where
  "dir_laws fs os p \<longleftrightarrow>
     (\<forall>w. \<not> os_exists os p w \<longrightarrow> (\<exists>w'. fs_create_directories fs p w = Some (True, w') \<and>
        os_exists os p w' \<and> fs_is_directory fs p w' \<and> fs_is_empty fs p w' = Some True)) \<and>
     (\<forall>w. fs_is_directory fs p w \<longrightarrow> fs_is_empty fs p w \<noteq> None) \<and>
     (\<forall>w. fs_is_empty fs p w = Some False \<longrightarrow>
        (\<exists>n w'. fs_remove_all fs p w = Some (Suc n, w') \<and> \<not> os_exists os p w')) \<and>
     (\<forall>q w. os_exists os p w \<longrightarrow> fs_is_directory fs p w \<longrightarrow> os_exists os q w \<longrightarrow> fs_equivalent fs p q w \<noteq> None)"

definition empty_directory :: "'w fs \<Rightarrow> 'w os \<Rightarrow> string \<Rightarrow> 'w \<Rightarrow> bool" where
  "empty_directory fs os p w \<longleftrightarrow> os_exists os p w \<and> fs_is_directory fs p w \<and> fs_is_empty fs p w = Some True"

lemma create_dir_new:
  assumes "dir_laws fs os p" and "\<not> os_exists os p w"
  shows "\<exists>w'. create_dir fs p w = Some (0, w') \<and> empty_directory fs os p w'"
  using assms unfolding dir_laws_def empty_directory_def
  by (subst create_dir.simps) (fastforce simp: empty_dir_def)

lemma empty_dir_found:
  assumes "dir_laws fs os p" and "fs_is_directory fs p w" and "os_exists os p w"
  shows "(empty_dir fs p w = Some (Some 0, w) \<and> empty_directory fs os p w) \<or>
    (\<exists>w'. empty_dir fs p w = Some (None, w') \<and> \<not> os_exists os p w')"
proof -
  obtain e where e: "fs_is_empty fs p w = Some e"
    using assms by (auto simp: dir_laws_def)
  then show ?thesis
    using assms by (cases e) (auto 0 4 simp: dir_laws_def empty_dir_def empty_directory_def)
qed

lemma prepare_dir_success:
  assumes "dir_laws fs os p" and "safePath fs p w = Some 0" and "os_exists os p w \<Longrightarrow> fs_is_directory fs p w"
    and "fs_equivalent fs p (fs_current_path fs w) w = Some False"
  shows "\<exists>w'. prepare_dir fs os p w = Some (0, w') \<and> empty_directory fs os p w'"
proof (cases "os_exists os p w")
  case False
  then show ?thesis
    using assms(2,4) create_dir_new [OF assms(1)] by (simp add: prepare_dir_def)
next
  case True
  from empty_dir_found [OF assms(1) assms(3) [OF True] True] show ?thesis
    using True assms(2-) create_dir_new [OF assms(1)] by (auto simp: prepare_dir_def)
qed

text \<open>
  C35: \<open>prepare_dir\<close> on a path \<open>safePath\<close> can judge, called from a current directory that exists.  It refuses an
  unsafe path and a file without touching anything.  Otherwise it compares the path with the current directory
  first: it refuses the current directory, and when the comparison throws, which happens only for a path that does
  not exist yet, the exception leaves it before the directory is created.  In every other case it succeeds and
  leaves an empty directory, whatever the directory held.
\<close>

theorem prepare_dir_empties:
  assumes "dir_laws fs os p" and "safePath fs p w = Some safe" and "os_exists os (fs_current_path fs w) w"
  shows "if safe \<noteq> 0 \<or> os_exists os p w \<and> \<not> fs_is_directory fs p w then prepare_dir fs os p w = Some (-1, w)
    else (case fs_equivalent fs p (fs_current_path fs w) w of
        None \<Rightarrow> \<not> os_exists os p w \<and> prepare_dir fs os p w = None
      | Some True \<Rightarrow> prepare_dir fs os p w = Some (-1, w)
      | Some False \<Rightarrow> \<exists>w'. prepare_dir fs os p w = Some (0, w') \<and> empty_directory fs os p w')"
proof (cases "safe \<noteq> 0 \<or> os_exists os p w \<and> \<not> fs_is_directory fs p w")
  case True
  then show ?thesis using assms(2) by (auto simp: prepare_dir_def)
next
  case False
  moreover have "\<not> os_exists os p w" if "fs_equivalent fs p (fs_current_path fs w) w = None"
    using that assms(1,3) False unfolding dir_laws_def by blast
  moreover have "\<exists>w'. prepare_dir fs os p w = Some (0, w') \<and> empty_directory fs os p w'"
    if "fs_equivalent fs p (fs_current_path fs w) w = Some False"
    using prepare_dir_success [OF assms(1) _ _ that] assms(2) False by simp
  ultimately show ?thesis
    using assms(2) by (auto simp: prepare_dir_def split: option.split bool.split)
qed

section \<open>Waiting for the shared segment\<close>

lemma shm_open_loop_returns:
  assumes "time < timeout_s"
  shows "\<exists>ok w'. shm_open_loop fs memName timeout_s time w = Some (ok, w') \<and>
    ok = (\<exists>k. int k < timeout_s - time \<and> shm_open fs memName ((fs_sleep fs 1 ^^ k) w) \<noteq> None)"
  using assms
proof (induction "nat (timeout_s - time)" arbitrary: time w)
  case (Suc n)
  show ?case
  proof (cases "shm_open fs memName w")
    case (Some w')
    then show ?thesis
      using Suc.prems by (subst shm_open_loop.simps) (auto intro: exI [of _ 0])
  next
    case None
    show ?thesis
    proof (cases "timeout_s = time + 1")
      case True
      then show ?thesis
        using None by (subst shm_open_loop.simps) (auto intro: exI [of _ False])
    next
      case False
      obtain ok w' where *: "shm_open_loop fs memName timeout_s (time + 1) (fs_sleep fs 1 w) = Some (ok, w')"
        "ok = (\<exists>k. int k < timeout_s - (time + 1) \<and> shm_open fs memName ((fs_sleep fs 1 ^^ k) (fs_sleep fs 1 w)) \<noteq> None)"
        using Suc.hyps(1) [of "time + 1"] Suc.hyps(2) Suc.prems False by fastforce
      have "(\<exists>k. int k < timeout_s - time \<and> shm_open fs memName ((fs_sleep fs 1 ^^ k) w) \<noteq> None) \<longleftrightarrow>
        (\<exists>k. int (Suc k) < timeout_s - time \<and> shm_open fs memName ((fs_sleep fs 1 ^^ Suc k) w) \<noteq> None)"
        using None by (metis funpow_0 not0_implies_Suc)
      then have "ok = (\<exists>k. int k < timeout_s - time \<and> shm_open fs memName ((fs_sleep fs 1 ^^ k) w) \<noteq> None)"
        by (simp add: *(2) funpow_swap1 algebra_simps)
      then show ?thesis
        using None False *(1) by (subst shm_open_loop.simps) simp
    qed
  qed
qed simp

text \<open>
  Opening the graphs of another process ends after at most sixty attempts, one second apart, and
  succeeds exactly when one of them finds the segment; the graphs found then replace those of the process.
  On failure the state is as it was.
\<close>

theorem open_graph_shared_mem_returns:
  assumes "\<not> gGraphSharedMem s"
  shows "\<exists>ret s'. pgm_init fs os True self dir False True s = Some (ret, s') \<and>
    (if \<exists>k < 60. shm_open fs (get_gMemName os (absolute fs dir (world s))) ((fs_sleep fs 1 ^^ k) (world s)) \<noteq> None
     then ret = 0 \<and> gGraphSharedMem s' \<and> gGraphs s' = shm_find fs (world s') \<and> gGraphPath s' = absolute fs dir (world s)
     else ret = -1 \<and> s' = set_world (world s') s)"
proof -
  obtain ok w' where *: "shm_open_loop fs (get_gMemName os (absolute fs dir (world s))) 60 0 (world s) = Some (ok, w')"
    "ok = (\<exists>k < 60. shm_open fs (get_gMemName os (absolute fs dir (world s))) ((fs_sleep fs 1 ^^ k) (world s)) \<noteq> None)"
    using shm_open_loop_returns [of 0 60 fs "get_gMemName os (absolute fs dir (world s))" "world s"] by auto
  show ?thesis
    using assms *(1) unfolding *(2) [symmetric]
    by (auto simp: pgm_init_def open_graph_shared_mem_def set_world_def Let_def)
qed

section \<open>The life of a process\<close>

text \<open>No graph handle is accepted by the validity test.\<close>

definition no_graphs :: "'w pgm_state \<Rightarrow> bool" where
  "no_graphs s \<longleftrightarrow> (\<forall>h. is_valid_graph s h \<noteq> Some True)"

lemma no_graphs_inv: "no_graphs s \<Longrightarrow> state_inv s"
  by (simp add: no_graphs_def state_inv_def live_graph_def)

lemma no_graphs_zero: "gGraphs s = Some (\<lambda>_. zero_graph) \<Longrightarrow> no_graphs s"
  by (auto simp: no_graphs_def is_valid_graph_def zero_graph_def)

lemma no_graphs_None: "gGraphs s = None \<Longrightarrow> no_graphs s"
  by (auto simp: no_graphs_def is_valid_graph_def)

lemma first_graph:
  assumes "gGraphs s = Some (\<lambda>_. zero_graph)" and "\<not> gGraphSharedMem s" and "gIsGraphMaster s self" and "nm \<noteq> []"
  shows "\<exists>s'. pgm_init_graph self nm s = Some (0, Some 0, s') \<and> live_graph s' 0 \<and> state_inv s'"
proof -
  let ?g = "zero_graph\<lparr>in_use := True, g_name := take PGM_GRAPH_NAME_LEN nm\<rparr>"
  have none: "first_index (\<lambda>i. \<not> in_use (graph_of s (int i))) PGM_MAX_GRAPHS = Some 0"
    using assms(1) by (simp add: first_index_def graph_of_def zero_graph_def PGM_MAX_GRAPHS_def upt_rec)
  have run: "pgm_init_graph self nm s = Some (0, Some 0, set_graph 0 ?g s)"
    using assms none
    by (simp add: pgm_init_graph_def pgm_find_graph_def prepare_graph_def strnlen_def strncpy_zeroed_def
        PGM_GRAPH_NAME_LEN_def Let_def)
  have "state_inv s"
    using assms(1) no_graphs_inv no_graphs_zero by blast
  moreover have "live_graph (set_graph 0 ?g s) 0"
    using assms(1) by (simp add: live_graph_def is_valid_graph_def is_valid_handle_def set_graph_def PGM_MAX_GRAPHS_def)
  ultimately show ?thesis
    using run pgm_init_graph_inv [OF _ run] by blast
qed

lemma pgm_destroy_no_graphs:
  assumes "gGraphs s \<noteq> None"
  shows "\<exists>s'. pgm_destroy fs self s = (0, s') \<and> gGraphs s' = None \<and> \<not> gGraphSharedMem s'"
  using assms by (auto simp: pgm_destroy_def Let_def)

text \<open>
  C36: the life cycle of a process with private graphs.  Initialisation on an accepted directory succeeds,
  makes the caller the master and gives 128 free graph slots, so that its first graph gets the handle 0;
  shutting down from whatever state it then reached succeeds, after it no handle is valid and no graph
  can be created, and the process can be initialised again.
\<close>

theorem init_destroy_life_cycle:
  assumes "gGraphs s = None" and "\<not> gGraphSharedMem s" and "nm \<noteq> []"
    and "prepare_dir fs os (absolute fs dir (world s)) (world s) = Some (0, w)" and "\<And>v. fst (fs_new_graphs fs v)"
  shows "(\<exists>s1. pgm_init fs os shared self dir True False s = Some (0, s1) \<and> gIsGraphMaster s1 self \<and>
      gGraphPath s1 = absolute fs dir (world s) \<and> no_graphs s1 \<and>
      (\<exists>s2. pgm_init_graph self nm s1 = Some (0, Some 0, s2) \<and> live_graph s2 0 \<and> state_inv s2)) \<and>
    (\<forall>t. gGraphs t \<noteq> None \<longrightarrow> (\<exists>t1. pgm_destroy fs self t = (0, t1) \<and> no_graphs t1 \<and>
      pgm_init_graph self nm t1 = Some (-1, None, t1) \<and> pgm_destroy fs self t1 = (-1, t1) \<and>
      (\<exists>t2. pgm_init_process_local fs self t1 = (0, t2) \<and> no_graphs t2)))"
proof (intro conjI allI impI)
  have "\<And>v. \<exists>u. fs_new_graphs fs v = (True, u)"
    using assms(5) by (metis prod.collapse)
  then obtain new where new: "\<And>v. fs_new_graphs fs v = (True, new v)"
    by metis
  let ?s1 = "(set_master self (set_world (new w) (set_world w s)))\<lparr>gGraphs := Some (\<lambda>_. zero_graph),
    gGraphPath := absolute fs dir (world s)\<rparr>"
  have "pgm_init fs os shared self dir True False s = Some (0, ?s1)"
    using assms(1,4) new by (simp add: pgm_init_def prepare_graph_private_mem_def set_world_def Let_def)
  moreover have "gIsGraphMaster ?s1 self" "\<not> gGraphSharedMem ?s1"
    using assms(2) by (simp_all add: set_master_def set_world_def)
  ultimately show "\<exists>s1. pgm_init fs os shared self dir True False s = Some (0, s1) \<and> gIsGraphMaster s1 self \<and>
      gGraphPath s1 = absolute fs dir (world s) \<and> no_graphs s1 \<and>
      (\<exists>s2. pgm_init_graph self nm s1 = Some (0, Some 0, s2) \<and> live_graph s2 0 \<and> state_inv s2)"
    using no_graphs_zero [of ?s1] first_graph [of ?s1 self nm] assms(3) by auto
  fix t :: "'a pgm_state"
  assume "gGraphs t \<noteq> None"
  then obtain t1 where t1: "pgm_destroy fs self t = (0, t1)" "gGraphs t1 = None" "\<not> gGraphSharedMem t1"
    using pgm_destroy_no_graphs by blast
  then have "\<exists>t2. pgm_init_process_local fs self t1 = (0, t2) \<and> no_graphs t2"
    using new by (auto simp: pgm_init_process_local_def prepare_graph_private_mem_def intro!: no_graphs_zero)
  then show "\<exists>t1. pgm_destroy fs self t = (0, t1) \<and> no_graphs t1 \<and>
      pgm_init_graph self nm t1 = Some (-1, None, t1) \<and> pgm_destroy fs self t1 = (-1, t1) \<and>
      (\<exists>t2. pgm_init_process_local fs self t1 = (0, t2) \<and> no_graphs t2)"
    using t1 no_graphs_None by (auto simp: pgm_init_graph_def pgm_destroy_def)
qed

text \<open>
  C37: initialising a process a second time reports the error 1, but only after the directory was emptied and
  the graph path replaced: the graphs still in use look for their FIFOs in the new directory, and lose them
  when it is the old one.
\<close>

theorem init_again_empties_directory:
  assumes "gGraphs s \<noteq> None" and "dir_laws fs os (absolute fs dir (world s))"
    and "safePath fs (absolute fs dir (world s)) (world s) = Some 0"
    and "fs_is_directory fs (absolute fs dir (world s)) (world s)"
    and "fs_equivalent fs (absolute fs dir (world s)) (fs_current_path fs (world s)) (world s) = Some False"
  shows "\<exists>w. pgm_init fs os shared self dir True False s =
      Some (1, s\<lparr>world := w, gGraphPath := absolute fs dir (world s)\<rparr>) \<and>
    empty_directory fs os (absolute fs dir (world s)) w"
  using prepare_dir_success [OF assms(2,3,4,5)] assms(1)
  by (auto simp: pgm_init_def prepare_graph_private_mem_def set_world_def Let_def)

section \<open>Examples\<close>

text \<open>
  A file system with one directory: its state is the number of its entries, if it exists.  While the process
  sleeps somebody creates it.
\<close>

fun path_names :: "string \<Rightarrow> string \<Rightarrow> string list" where
  "path_names [] acc = (if acc = [] then [] else [rev acc])"
| "path_names (c # cs) acc =
     (if c = CHR ''/'' then (if acc = [] then [] else [rev acc]) @ path_names cs [] else path_names cs (c # acc))"

definition one_dir_fs :: "nat option fs" where
  "one_dir_fs = \<lparr>fs_is_relative = (\<lambda>p. take 1 p \<noteq> ''/''), fs_append = (\<lambda>p q. p @ ''/'' @ q),
     fs_parts = (\<lambda>p. (if take 1 p = ''/'' then [''/''] else []) @ path_names p []),
     fs_current_path = (\<lambda>_. ''/home/user''), fs_is_directory = (\<lambda>_ w. w \<noteq> None),
     fs_equivalent = (\<lambda>p q w. if w = None then None else Some (p = q)), fs_create_directories = (\<lambda>_ w. Some (w = None, Some (case w of None \<Rightarrow> 0 | Some n \<Rightarrow> n))),
     fs_is_empty = (\<lambda>_. map_option (\<lambda>n. n = 0)),
     fs_remove_all = (\<lambda>_ w. Some (case w of None \<Rightarrow> 0 | Some n \<Rightarrow> Suc n, None)),
     fs_sleep = (\<lambda>_ w. Some (case w of None \<Rightarrow> 0 | Some n \<Rightarrow> n)), fs_new_graphs = (\<lambda>w. (True, w)),
     sizeof_pgm_graph = 65536, shm_remove = (\<lambda>_ w. w), shm_create = (\<lambda>_ _ w. Some (True, w)),
     shm_construct = (\<lambda>w. Some (True, w)), shm_open = (\<lambda>_ w. if w = None then None else Some w),
     shm_find = (\<lambda>_. Some (\<lambda>_. zero_graph)), shm_delete = (\<lambda>w. w)\<rparr>"

definition one_dir_os :: "nat option os" where
  "one_dir_os = dead_os\<lparr>os_exists := (\<lambda>_ w. w \<noteq> None)\<rparr>"

lemma one_dir_laws: "dir_laws one_dir_fs one_dir_os p"
  by (auto simp: dir_laws_def one_dir_fs_def one_dir_os_def dead_os_def)

lemma one_dir_parts: "posix_parts one_dir_fs"
  by (simp add: posix_parts_def one_dir_fs_def allowed_def)

lemma one_dir_safe: "safePath one_dir_fs ''/tmp/g'' w = Some 0"
  by (simp add: safePath_def absolute_def one_dir_fs_def allowed_def Let_def)

theorem safePath_iff_witness:
  "fs_parts one_dir_fs ''/tmp/../etc'' = [''/'', ''tmp'', ''..'', ''etc''] \<and>
   safePath one_dir_fs ''/tmp/../etc'' None = Some 0"
  using safePath_iff [OF one_dir_parts, of "''/tmp/../etc''" None "[''tmp'', ''..'', ''etc'']"]
  by (simp add: absolute_def one_dir_fs_def)

theorem prepare_dir_empties_witness:
  "\<exists>w'. prepare_dir one_dir_fs one_dir_os ''/tmp/g'' (Some 7) = Some (0, w') \<and>
    empty_directory one_dir_fs one_dir_os ''/tmp/g'' w'"
  using prepare_dir_empties [OF one_dir_laws one_dir_safe, of "Some 7"]
  by (simp add: one_dir_fs_def one_dir_os_def)

theorem open_graph_shared_mem_returns_witness:
  "\<exists>s'. pgm_init one_dir_fs one_dir_os True 1 ''/tmp/g'' False True (world_state None) = Some (0, s') \<and> gGraphSharedMem s'"
proof -
  have "\<exists>k < 60. shm_open one_dir_fs (get_gMemName one_dir_os (absolute one_dir_fs ''/tmp/g'' (world (world_state None))))
      ((fs_sleep one_dir_fs 1 ^^ k) (world (world_state None))) \<noteq> None"
    by (rule exI [of _ 1]) (simp add: one_dir_fs_def world_state_def)
  then show ?thesis
    using open_graph_shared_mem_returns [of "world_state None" one_dir_fs one_dir_os 1 "''/tmp/g''"]
    by (auto simp: world_state_def)
qed

theorem init_destroy_life_cycle_witness:
  "\<exists>s1 s2. pgm_init one_dir_fs one_dir_os False 1 ''/tmp/g'' True False ((world_state (Some 7))\<lparr>gGraphs := None\<rparr>) = Some (0, s1) \<and>
    pgm_init_graph 1 ''demo'' s1 = Some (0, Some 0, s2)"
proof -
  have abs: "absolute one_dir_fs ''/tmp/g'' v = ''/tmp/g''" for v
    by (simp add: absolute_def one_dir_fs_def)
  let ?s = "(world_state (Some 7))\<lparr>gGraphs := None\<rparr>"
  have new: "fst (fs_new_graphs one_dir_fs v)" for v
    by (simp add: one_dir_fs_def)
  have "prepare_dir one_dir_fs one_dir_os ''/tmp/g'' (Some 7) = Some (0, Some 0)"
    using one_dir_safe by (simp add: prepare_dir_def empty_dir_def create_dir.simps one_dir_fs_def one_dir_os_def)
  then show ?thesis
    using init_destroy_life_cycle [of ?s "''demo''" one_dir_fs one_dir_os "''/tmp/g''" "Some 0" False 1, THEN conjunct1] new
    unfolding abs by (auto simp: world_state_def)
qed

theorem init_again_empties_directory_witness:
  "\<exists>w. pgm_init one_dir_fs one_dir_os False 1 ''/tmp/g'' True False (world_state (Some 7)) =
      Some (1, (world_state (Some 7))\<lparr>world := w, gGraphPath := ''/tmp/g''\<rparr>) \<and>
    empty_directory one_dir_fs one_dir_os ''/tmp/g'' w"
proof -
  have abs: "absolute one_dir_fs ''/tmp/g'' v = ''/tmp/g''" for v
    by (simp add: absolute_def one_dir_fs_def)
  show ?thesis
    using init_again_empties_directory [of "world_state (Some 7)" one_dir_fs one_dir_os "''/tmp/g''" False 1]
      one_dir_laws one_dir_safe
    unfolding abs by (simp add: world_state_def one_dir_fs_def)
qed

end
