(* ===== verification/Pgm_Api.thy ===== *)
theory Pgm_Api
  imports Pgm_Exec Pgm_Framework
begin

text \<open>
  The library as a whole: the entry points of \<^verbatim>\<open>src/include/pgm.h\<close> that change the state, as the steps of a
  transition system, and the structural invariant of every state they reach.
\<close>

section \<open>Operations that keep the shape of all graphs\<close>

definition state_shape :: "'w pgm_state \<Rightarrow> 'w pgm_state \<Rightarrow> bool" where
  "state_shape s s' \<longleftrightarrow> (gGraphs s' = None \<longleftrightarrow> gGraphs s = None) \<and>
     (\<forall>h. in_use (graph_of s' h) = in_use (graph_of s h) \<and> same_shape (graph_of s h) (graph_of s' h))"

lemma same_shape_refl: "same_shape g g"
  by (simp add: same_shape_def)

lemma state_shape_cong: "gGraphs s' = gGraphs s \<Longrightarrow> state_shape s s'"
  by (simp add: state_shape_def graph_of_def same_shape_refl)

lemma state_shape_trans: "state_shape s t \<Longrightarrow> state_shape t u \<Longrightarrow> state_shape s u"
  using same_shape_trans unfolding state_shape_def by metis

lemma state_shape_set_graph:
  assumes "same_shape (graph_of s h) g" and "in_use g = in_use (graph_of s h)"
  shows "state_shape s (set_graph h g s)"
  using assms by (auto simp: state_shape_def graph_of_def set_graph_def same_shape_refl split: option.splits)

lemma state_shape_inv:
  assumes "state_shape s s'" and "state_inv s"
  shows "state_inv s'"
  unfolding state_inv_def
proof (intro allI impI)
  fix h
  assume "live_graph s' h"
  then have "live_graph s h"
    using assms(1)
    by (auto simp: live_graph_def is_valid_graph_def state_shape_def graph_of_def split: option.splits if_splits)
  then show "graph_inv (graph_of s' h)"
    using assms graph_inv_same_shape unfolding state_shape_def state_inv_def by blast
qed

lemma put_edge_shape: "edge_shape e = edge_shape (edges (graph_of s h) i) \<Longrightarrow> state_shape s (put_edge h i e s)"
  unfolding put_edge_def by (intro state_shape_set_graph same_shape_upd_edge) (simp_all add: upd_edge_def)

lemma upd_node_shape:
  "(\<And>n. node_shape (f n) = node_shape n) \<Longrightarrow> state_shape s (set_graph h (upd_node j f (graph_of s h)) s)"
  by (intro state_shape_set_graph) (simp_all add: same_shape_def upd_node_def)

lemma fold_edges_shape:
  assumes "\<And>e. edge_shape (f e) = edge_shape e"
  shows "same_shape g (fold (\<lambda>i. upd_edge i f) is g) \<and> in_use (fold (\<lambda>i. upd_edge i f) is g) = in_use g"
proof (induction "is" arbitrary: g)
  case (Cons i "is")
  have "same_shape g (upd_edge i f g)" "in_use (upd_edge i f g) = in_use g"
    using assms by (simp_all add: same_shape_def upd_edge_def)
  then show ?case
    using Cons [of "upd_edge i f g"] same_shape_trans by auto
qed (simp add: same_shape_refl)

section \<open>Data transfer\<close>

lemma ops_read_shape:
  "ops_read k os e n s = Some (r, e', s') \<Longrightarrow> edge_shape e' = edge_shape e \<and> gGraphs s' = gGraphs s"
  by (cases k)
    (auto simp: fifo_read_def mq_read_def sock_stream_read_def ring_read_def sys_def edge_shape_def
      split: prod.splits if_splits option.splits)

lemma ops_write_shape:
  "ops_write k os e bs s = Some (r, e', s') \<Longrightarrow> edge_shape e' = edge_shape e \<and> gGraphs s' = gGraphs s"
  by (cases k)
    (auto simp: fifo_write_def mq_write_def sock_stream_write_def ring_write_def sys_def edge_shape_def
      split: prod.splits if_splits option.splits)

lemma store_bytes_graphs [simp]: "gGraphs (store_bytes a bs s) = gGraphs s"
  by (simp add: store_bytes_def)

lemma send_loop_shape:
  "send_loop k os e a sz s = Some x \<Longrightarrow> edge_shape (fst (snd x)) = edge_shape e \<and> gGraphs (snd (snd x)) = gGraphs s"
proof (induction rule: send_loop.raw_induct [rotated, consumes 1, case_names step])
  case (step loop k os e a sz s x)
  then obtain r e1 s1 where w: "ops_write k os e (load_bytes (mem_byte s) a (unat sz)) s = Some (r, e1, s1)"
    by (auto split: option.splits)
  then have *: "edge_shape e1 = edge_shape e" "gGraphs s1 = gGraphs s"
    using ops_write_shape by blast+
  show ?case
    using step.hyps w * step.IH [of k os e1 _ _ s1 x] by (auto split: if_splits)
qed

lemma send_data_shape:
  assumes "send_data k os e tag s = Some (r, e', s')"
  shows "edge_shape e' = edge_shape e \<and> gGraphs s' = gGraphs s"
proof (cases "etype (e_attr e) AND PGM_EDGE_RING = 0")
  case True
  then show ?thesis
    using assms send_loop_shape [of k os e "pgm_get_user_ptr (e_buf_out e) - 1" _ _ "(r, e', s')"]
    by (auto simp: send_data_def send_std_data_def Let_def split: if_splits)
next
  case False
  then show ?thesis
    using assms ops_write_shape [of k os e]
    by (auto simp: send_data_def send_ring_data_def edge_shape_def split: if_splits)
qed

lemma read_more_shape:
  "read_more k os e dest s = Some x \<Longrightarrow>
    edge_shape (fst (snd x)) = edge_shape e \<and> gGraphs (snd (snd (snd x))) = gGraphs s"
proof (induction rule: read_more.raw_induct [rotated, consumes 1, case_names step])
  case (step loop k os e dest s x)
  have tag: "edge_shape (e\<lparr>e_next_tag := v\<rparr>) = edge_shape e" for e v
    by (simp add: edge_shape_def)
  define c where "c = nr_consume (e_attr e)"
  define rem where "rem = c - (dest - pgm_get_user_ptr (e_buf_in e))"
  define n where "n = (if rem = c \<and> e_next_tag e = 0 then (if c \<le> nr_produce (e_attr e) then c else nr_produce (e_attr e)) + 1
    else if e_next_tag e \<noteq> 0 then (if rem \<le> e_next_tag e then rem else e_next_tag e) else 1)"
  obtain b bs e1 s1 where r: "ops_read k os e n s = Some ((b, bs), e1, s1)"
    using step.hyps unfolding n_def rem_def c_def
    by (auto simp: Let_def split: if_splits option.splits)
  then have *: "edge_shape e1 = edge_shape e" "gGraphs s1 = gGraphs s"
    using ops_read_shape by blast+
  have IH: "edge_shape (fst (snd x)) = edge_shape e \<and> gGraphs (snd (snd (snd x))) = gGraphs s"
    if "loop k os (e1\<lparr>e_next_tag := v\<rparr>) d t = Some x" "gGraphs t = gGraphs s" for v d t
    using step.IH [OF that(1)] that(2) * tag by simp
  show ?case
  proof (cases "rem = c \<and> e_next_tag e = 0")
    case True
    then show ?thesis
      using step.hyps r * tag IH unfolding n_def rem_def c_def
      by (auto simp: Let_def split: if_splits option.splits)
  next
    case False
    then show ?thesis
      using step.hyps r * tag IH unfolding n_def rem_def c_def
      by (cases "e_next_tag e = 0") (auto simp: Let_def split: if_splits option.splits list.splits)
  qed
qed

lemma wait_for_data_graphs:
  "wait_for_data env g n to_wait st s = Some x \<Longrightarrow> gGraphs (snd (snd x)) = gGraphs s"
proof (induction rule: wait_for_data.raw_induct [rotated, consumes 1, case_names step])
  case (step loop env g n to_wait st s x)
  then show ?case
    by (auto simp: Let_def sys_def split: if_splits prod.splits)
qed

lemma count_terminate_shape: "state_shape s (count_terminate h j s)"
  unfolding count_terminate_def by (rule upd_node_shape) (simp add: node_shape_def)

text \<open>An edge read from a state and stored in a later state with the same graphs.\<close>

lemma put_edge_later:
  assumes "edge_shape e = edge_shape (edges (graph_of s h) i)" and "gGraphs t = gGraphs s"
  shows "state_shape s (put_edge h i e t)"
proof -
  have "graph_of t h = graph_of s h"
    using assms(2) by (simp add: graph_of_def)
  then have "state_shape t (put_edge h i e t)"
    using assms(1) by (intro put_edge_shape) simp
  then show ?thesis
    using state_shape_trans state_shape_cong [OF assms(2)] by blast
qed

definition recv_result :: "'w recv_state + eWaitStatus \<times> 'w pgm_state \<Rightarrow> 'w pgm_state" where
  "recv_result r = (case r of Inl (_, _, _, s) \<Rightarrow> s | Inr (_, s) \<Rightarrow> s)"

lemma recv_edge_shape:
  assumes "recv_edge os h j to_skip i dest_ptrs st s = Some (l, d, w, s')"
  shows "state_shape s s'"
proof -
  let ?i = "n_in (nodes (graph_of s h) j) i"
  let ?e = "edges (graph_of s h) ?i"
  show ?thesis
  proof (cases "\<not> is_data_passing (e_attr ?e) \<or> e_nr_skips ?e > 0")
    case True
    then have "s' = s"
      using assms by (auto simp: recv_edge_def Let_def)
    then show ?thesis using state_shape_cong by blast
  next
    case False
    then obtain k where k: "e_ops ?e = Some k"
      using assms by (auto simp: recv_edge_def Let_def split: option.splits)
    show ?thesis
    proof (cases "etype (e_attr ?e) AND PGM_EDGE_RING = 0")
      case True
      then obtain o' e' dest t where r: "read_more k os ?e (dest_ptrs i) s = Some (o', e', dest, t)"
        using assms False k by (auto simp: recv_edge_def Let_def)
      then have p: "state_shape s (put_edge h ?i e' t)"
        using read_more_shape [OF r] by (intro put_edge_later) simp_all
      have "s' = put_edge h ?i e' t \<or> s' = count_terminate h j (put_edge h ?i e' t)"
        using assms False k True r by (cases o') (auto simp: recv_edge_def Let_def)
      then show ?thesis
        using p state_shape_trans count_terminate_shape by blast
    next
      case ring: False
      show ?thesis
      proof (cases "e_ring_cmd ?e AND PGM_TERMINATE \<noteq> 0 \<and> is_ring_empty (e_ringbuf ?e)")
        case True
        then have "s' = count_terminate h j s"
          using assms False k ring by (auto simp: recv_edge_def Let_def)
        then show ?thesis using count_terminate_shape by blast
      next
        case rd: False
        then obtain b bs e' t where r: "ops_read k os ?e (nr_consume (e_attr ?e)) s = Some ((b, bs), e', t)"
          using assms False k ring by (auto simp: recv_edge_def Let_def)
        have "s' = put_edge h ?i e' (store_bytes (dest_ptrs i) bs t)"
          using assms False k ring rd r by (auto simp: recv_edge_def Let_def)
        then show ?thesis
          using ops_read_shape [OF r] by (simp add: put_edge_later)
      qed
    qed
  qed
qed

lemma recv_step_shape:
  assumes "recv_step env os h j to_skip (l, d, w, s) = Some r"
  shows "state_shape s (recv_result r)"
proof (cases l)
  case (RecvWait m)
  show ?thesis
  proof (cases "m = 0")
    case True
    then have "recv_result r = s"
      using assms RecvWait by (auto simp: recv_wait_def recv_result_def split: if_splits)
    then show ?thesis by (simp add: state_shape_cong)
  next
    case False
    then obtain x where x: "wait_for_data env (graph_of s h) (nodes (graph_of s h) j) m WaitSuccess s = Some x"
        "recv_result r = snd (snd x)"
      using assms RecvWait by (auto simp: recv_wait_def recv_result_def)
    then show ?thesis
      using wait_for_data_graphs [OF x(1)] by (simp add: state_shape_cong)
  qed
next
  case (RecvEdge i)
  then show ?thesis
    using assms recv_edge_shape [of os h j to_skip i d w s]
    by (auto simp: recv_result_def state_shape_cong split: if_splits)
next
  case RecvOut
  then show ?thesis using assms by (auto simp: recv_result_def state_shape_cong)
qed

lemma recv_loop_shape:
  "recv_loop env os h j to_skip st = Some x \<Longrightarrow> state_shape (snd (snd (snd st))) (snd x)"
proof (induction rule: recv_loop.raw_induct [rotated, consumes 1, case_names step])
  case (step loop env os h j to_skip st x)
  obtain l d w s where st: "st = (l, d, w, s)"
    by (cases st)
  obtain r where r: "recv_step env os h j to_skip st = Some r"
    using step.hyps by (auto split: option.splits)
  then have shape: "state_shape s (recv_result r)"
    using recv_step_shape st by simp
  show ?case
  proof (cases r)
    case (Inl st')
    then have "state_shape (snd (snd (snd st'))) (snd x)"
      using step.hyps step.IH r by simp
    then show ?thesis
      using state_shape_trans [OF shape] Inl st by (cases st') (auto simp: recv_result_def)
  next
    case (Inr y)
    then show ?thesis
      using shape step.hyps r st by (cases x) (auto simp: recv_result_def)
  qed
qed

lemma recv_data_shape: "recv_data env os h j s = Some (w, s') \<Longrightarrow> state_shape s s'"
  by (auto simp: recv_data_def Let_def dest!: recv_loop_shape split: if_splits)

section \<open>Execution\<close>

lemma produce_edges_shape:
  "produce_edges os h command is er wk s = Some (er', wk', s') \<Longrightarrow> state_shape s s'"
proof (induction "is" arbitrary: er wk s)
  case Nil
  then show ?case by (simp add: state_shape_cong)
next
  case (Cons i "is")
  let ?e = "edges (graph_of s h) i"
  show ?case
  proof (cases "command AND PGM_TERMINATE \<noteq> 0 \<and> e_is_backedge ?e")
    case True
    then show ?thesis using Cons by (simp add: Let_def)
  next
    case False
    define sent where "sent = (if is_data_passing (e_attr ?e)
      then (case e_ops ?e of None \<Rightarrow> None | Some k \<Rightarrow> map_option (\<lambda>(ret, e, s). (ret, put_edge h i e s)) (send_data k os ?e command s))
      else Some (0, s))"
    obtain ret t where t: "sent = Some (ret, t)"
      using Cons.prems False by (auto simp: sent_def [symmetric] Let_def split: option.splits)
    have st: "state_shape s t"
      using t by (auto simp: sent_def state_shape_cong split: if_splits option.splits
          dest!: send_data_shape intro!: put_edge_later)
    let ?f = "edges (graph_of t h) i"
    note run = Cons.prems False t [unfolded sent_def]
    show ?thesis
    proof (cases "is_signal_driven (e_attr ?f)")
      case drv: True
      show ?thesis
      proof (cases "command AND PGM_TERMINATE = 0")
        case True
        obtain wake e' where e': "send_tokens ?f = (wake, e')" by (cases "send_tokens ?f")
        then have "state_shape t (put_edge h i e' t)"
          by (intro put_edge_shape) (auto simp: send_tokens_def Let_def edge_shape_def)
        moreover have "state_shape (put_edge h i e' t) s'"
          using run drv True e' Cons.IH by (simp add: Let_def)
        ultimately show ?thesis using st state_shape_trans by blast
      next
        case tm: False
        let ?u = "set_graph h (upd_node (e_consumer ?f) (nr_terminate_signals_update Suc) (graph_of t h)) t"
        have "state_shape t ?u"
          by (rule upd_node_shape) (simp add: node_shape_def)
        moreover have "state_shape ?u s'"
          using run drv tm Cons.IH by (simp add: Let_def)
        ultimately show ?thesis using st state_shape_trans by blast
      qed
    next
      case nd: False
      then have "state_shape t s'"
        using run Cons.IH by (simp add: Let_def)
      then show ?thesis using st state_shape_trans by blast
    qed
  qed
qed

lemma pgm_produce_shape: "pgm_produce os node command s = Some (r, wk, s') \<Longrightarrow> state_shape s s'"
  by (auto simp: pgm_produce_def Let_def dest!: produce_edges_shape split: if_splits option.splits)

lemma wait_for_tokens_inv:
  "wait_for_tokens sleep h j s = Some x \<Longrightarrow> (\<And>s. state_inv s \<Longrightarrow> state_inv (sleep s)) \<Longrightarrow> state_inv s \<Longrightarrow> state_inv (snd x)"
proof (induction rule: wait_for_tokens.raw_induct [rotated, consumes 1, case_names step])
  case (step loop sleep h j s x)
  then show ?case by (auto split: option.splits)
qed

lemma consume_state_shape: "state_shape s (set_graph h (consume_tokens (graph_of s h) n) s)"
    "state_shape s (set_graph h (consume_skips (graph_of s h) n) s)"
  unfolding consume_tokens_def consume_skips_def
  using fold_edges_shape [of consume_token "graph_of s h"] fold_edges_shape [of consume_skip "graph_of s h"]
  by (auto simp: consume_token_def consume_skip_def edge_shape_def intro!: state_shape_set_graph)

lemma pgm_wait_inv:
  assumes "pgm_wait env os node s = Some (r, s')" and "\<And>s. state_inv s \<Longrightarrow> state_inv (env_sleep env s)" and "state_inv s"
  shows "state_inv s'"
proof -
  let ?h = "ngraph node" and ?j = "nat (nnode node)"
  let ?n = "nodes (graph_of s ?h) ?j"
  obtain ts s1 where 1: "(if nr_in_signaled ?n \<noteq> 0 then wait_for_tokens (env_sleep env) ?h ?j s
      else Some (WaitExhaustedAndTerminate, s)) = Some (ts, s1)"
    using assms(1) by (auto simp: pgm_wait_def Let_def split: if_splits option.splits)
  let ?n1 = "nodes (graph_of s1 ?h) ?j"
  obtain ds s2 where 2: "(if nr_in_data ?n1 \<noteq> 0 then recv_data env os ?h ?j s1 else Some (WaitExhaustedAndTerminate, s1)) = Some (ds, s2)"
    using assms(1) 1 by (auto simp: pgm_wait_def Let_def split: if_splits option.splits)
  let ?n2 = "nodes (graph_of s2 ?h) ?j" and ?ret = "wait_result ts ds"
  define s3 where "s3 = (if nr_in_signaled ?n2 \<noteq> 0 \<and> ?ret \<noteq> uint PGM_TERMINATE
    then set_graph ?h (consume_tokens (graph_of s2 ?h) ?n2) s2 else s2)"
  define s4 where "s4 = set_graph ?h (consume_skips (graph_of s3 ?h) ?n2) s3"
  have "state_inv s1"
    using 1 assms(2,3) wait_for_tokens_inv [of "env_sleep env" ?h ?j s "(ts, s1)"] by (auto split: if_splits)
  then have "state_inv s2"
    using 2 recv_data_shape state_shape_inv by (fastforce split: if_splits)
  then have "state_inv s3"
    using consume_state_shape(1) state_shape_inv unfolding s3_def by fastforce
  then have s4: "state_inv s4"
    using consume_state_shape(2) state_shape_inv unfolding s4_def by blast
  have "s' = s4 \<or> (\<exists>r wk. pgm_produce os node PGM_TERMINATE s4 = Some (r, wk, s'))"
    using assms(1) 1 2
    by (auto simp: pgm_wait_def s4_def s3_def pgm_terminate_def Let_def split: if_splits)
  then show ?thesis
    using s4 pgm_produce_shape state_shape_inv by blast
qed

section \<open>Buffers, user data and ownership\<close>

lemma set_end_buf_shape [simp]: "edge_shape (set_end_buf pf p e) = edge_shape e"
  by (simp add: set_end_buf_def edge_shape_def)

lemma set_edge_shape: "state_shape s t \<Longrightarrow> (\<And>e. edge_shape (f e) = edge_shape e) \<Longrightarrow> state_shape s (set_edge edge f t)"
  unfolding set_edge_def
  by (rule state_shape_trans, assumption, intro state_shape_set_graph) (simp_all add: same_shape_def upd_edge_def)

lemma upd_hdr_shape: "state_shape s t \<Longrightarrow> state_shape s (upd_hdr p f t)"
  by (erule state_shape_trans) (simp add: state_shape_cong upd_hdr_def)

lemma swap_edge_buf_shape:
  assumes "swap_edge_buf edge p pf s = Some (r, s')"
  shows "state_shape s s'"
  using assms
  by (auto simp: swap_edge_buf_def with_graph_def with_edge_def Let_def state_shape_cong
      split: if_splits option.splits intro!: set_edge_shape upd_hdr_shape)

lemma swap_edge_bufs_shape:
  assumes "pgm_swap_edge_bufs a b s = Some (r, s')"
  shows "state_shape s s'"
  using assms
  by (auto simp: pgm_swap_edge_bufs_def Let_def state_shape_cong
      split: if_splits option.splits intro!: set_edge_shape upd_hdr_shape)

lemma pgm_malloc_graphs: "pgm_malloc os n s = (p, s') \<Longrightarrow> gGraphs s' = gGraphs s"
  by (auto simp: pgm_malloc_def upd_hdr_def Let_def split: prod.splits if_splits)

lemma malloc_edge_buf_shape:
  "pgm_malloc_edge_buf_p os edge s = Some (p, s') \<Longrightarrow> state_shape s s'"
  "pgm_malloc_edge_buf_c os edge s = Some (p, s') \<Longrightarrow> state_shape s s'"
  by (auto simp: pgm_malloc_edge_buf_p_def pgm_malloc_edge_buf_c_def with_graph_def with_edge_def
      dest!: pgm_malloc_graphs intro!: state_shape_cong split: option.splits if_splits)

lemma pgm_free_shape: "state_shape s (pgm_free os p s)"
  by (rule state_shape_cong) (simp add: pgm_free_def Let_def)

lemma set_user_data_shape: "pgm_set_user_data node u s = Some (r, s') \<Longrightarrow> state_shape s s'"
  by (auto simp: pgm_set_user_data_def with_graph_def with_node_def node_shape_def state_shape_cong
      intro!: upd_node_shape split: option.splits if_splits)

lemma pgm_claim_any_node_inv:
  assumes "state_inv s" and "pgm_claim_any_node os self graph node tid s = Some (ret, h, s')"
  shows "state_inv s'"
proof (cases "s' = s")
  case False
  then obtain j g' t where c: "live_graph s graph" "s' = set_graph graph g' t"
    "claim_node os graph j (upd_node j (owner_update (\<lambda>_. claimant self tid)) (graph_of s graph)) s = Some (ret, g', t)"
    using assms(2)
    by (auto simp: pgm_claim_any_node_def with_graph_def live_graph_def split: option.splits if_splits)
  note f = claim_node_frame [OF c(3)]
  have "same_shape (graph_of s graph) g'"
    using same_shape_trans [OF same_shape_owner conjunct1 [OF f]] .
  moreover have "in_use g'" "gGraphs t = gGraphs s"
    using f c(1) by (auto simp: upd_node_def elim!: live_graphD)
  ultimately show ?thesis
    using set_graph_shape(1) [OF assms(1) c(1)] c(2) by simp
qed (use assms in simp)

section \<open>The transition system\<close>

text \<open>The graphs another process left in shared memory are well formed.\<close>

definition shm_inv :: "'w fs \<Rightarrow> bool" where
  "shm_inv fs \<longleftrightarrow> (\<forall>w gs i. shm_find fs w = Some gs \<longrightarrow> in_use (gs i) \<longrightarrow> graph_inv (gs i))"

text \<open>Where the graphs of a process come from.\<close>

definition graphs_from :: "'w fs \<Rightarrow> 'w pgm_state \<Rightarrow> 'w pgm_state \<Rightarrow> bool" where
  "graphs_from fs s s' \<longleftrightarrow> gGraphs s' = gGraphs s \<or> gGraphs s' = None \<or> gGraphs s' = Some (\<lambda>_. zero_graph) \<or>
     (\<exists>w. gGraphs s' = shm_find fs w)"

lemma graphs_from_inv:
  assumes "graphs_from fs s s'" and "state_inv s" and "shm_inv fs"
  shows "state_inv s'"
proof -
  have "state_inv s'" if "gGraphs s' = shm_find fs w" for w
    using assms(3) that
    by (auto simp: state_inv_def shm_inv_def live_graph_def is_valid_graph_def graph_of_def split: option.splits if_splits)
  then show ?thesis
    using assms(1,2) state_inv_cong no_graphs_inv no_graphs_None no_graphs_zero unfolding graphs_from_def by metis
qed

lemma prepare_private_graphs: "prepare_graph_private_mem fs self s = (ret, s') \<Longrightarrow> graphs_from fs s s'"
  by (auto simp: prepare_graph_private_mem_def graphs_from_def set_world_def Let_def split: if_splits prod.splits)

lemma prepare_shared_graphs: "prepare_graph_shared_mem fs os shared self dir s = Some (ret, s') \<Longrightarrow> graphs_from fs s s'"
  by (auto simp: prepare_graph_shared_mem_def graphs_from_def set_world_def Let_def split: if_splits prod.splits option.splits)

lemma graphs_from_same [simp]: "gGraphs s' = gGraphs s \<Longrightarrow> graphs_from fs s s'"
  by (simp add: graphs_from_def)

lemma graphs_from_shm: "gGraphs s' = shm_find fs w \<Longrightarrow> graphs_from fs s s'"
  by (auto simp: graphs_from_def)

lemma open_shared_graphs: "open_graph_shared_mem fs os shared dir t s = Some (ret, s') \<Longrightarrow> graphs_from fs s s'"
  by (auto simp: open_graph_shared_mem_def set_world_def split: if_splits option.splits) (rule graphs_from_shm, simp)+

lemma graphs_from_path: "gGraphs t = gGraphs s \<Longrightarrow> graphs_from fs t u \<Longrightarrow> graphs_from fs s (u\<lparr>gGraphPath := p\<rparr>)"
    "gGraphs t = gGraphs s \<Longrightarrow> graphs_from fs t u \<Longrightarrow> graphs_from fs s u"
  by (simp_all add: graphs_from_def)

lemma pgm_init_graphs:
  assumes "pgm_init fs os shared self dir create shm s = Some (ret, s')"
  shows "graphs_from fs s s'"
proof (cases create)
  case True
  then obtain r w where r: "prepare_dir fs os (absolute fs dir (world s)) (world s) = Some (r, w)"
    using assms by (auto simp: pgm_init_def Let_def split: option.splits)
  have w: "gGraphs (set_world w s) = gGraphs s"
    by (simp add: set_world_def)
  show ?thesis
  proof (cases "r = 0")
    case ok: True
    show ?thesis
    proof (cases shm)
      case True
      then obtain u where u: "prepare_graph_shared_mem fs os shared self (absolute fs dir (world s)) (set_world w s) = Some (ret, u)"
        "s' = u \<or> s' = u\<lparr>gGraphPath := absolute fs dir (world s)\<rparr>"
        using assms \<open>create\<close> r ok by (auto simp: pgm_init_def Let_def split: option.splits if_splits)
      then show ?thesis
        using graphs_from_path [OF w prepare_shared_graphs [OF u(1)]] by auto
    next
      case False
      then obtain u where u: "prepare_graph_private_mem fs self (set_world w s) = (ret, u)"
        "s' = u\<lparr>gGraphPath := absolute fs dir (world s)\<rparr>"
        using assms \<open>create\<close> r ok by (auto simp: pgm_init_def Let_def split: prod.splits)
      then show ?thesis
        using graphs_from_path(1) [OF w prepare_private_graphs [OF u(1)]] by simp
    qed
  next
    case False
    then show ?thesis
      using assms \<open>create\<close> r w by (auto simp: pgm_init_def Let_def)
  qed
next
  case False
  then have "s' = s \<or> (\<exists>u. open_graph_shared_mem fs os shared (absolute fs dir (world s)) 60 s = Some (ret, u) \<and>
      (s' = u \<or> s' = u\<lparr>gGraphPath := absolute fs dir (world s)\<rparr>))"
    using assms by (auto simp: pgm_init_def Let_def split: if_splits option.splits)
  then show ?thesis
    using graphs_from_path(1) [OF refl open_shared_graphs] open_shared_graphs by (metis graphs_from_same)
qed

lemma pgm_destroy_graphs: "pgm_destroy fs self s = (ret, s') \<Longrightarrow> graphs_from fs s s'"
  by (auto simp: pgm_destroy_def graphs_from_def Let_def split: if_splits)

text \<open>
  The calls of the threads of a process, in any order and with any arguments.  While a call of \<open>pgm_wait\<close> sleeps
  the other threads make any number of calls of their own.
\<close>

inductive api_step ::
  "'w fs \<Rightarrow> 'w os \<Rightarrow> bool \<Rightarrow> 'w pgm_state \<Rightarrow> 'w pgm_state \<Rightarrow> bool"
  for fs os shared
where
  api_init: "pgm_init fs os shared self dir create shm s = Some (ret, s') \<Longrightarrow> api_step fs os shared s s'"
| api_init_local: "pgm_init_process_local fs self s = (ret, s') \<Longrightarrow> api_step fs os shared s s'"
| api_destroy: "pgm_destroy fs self s = (ret, s') \<Longrightarrow> api_step fs os shared s s'"
| api_init_graph: "pgm_init_graph self nm s = Some (ret, h, s') \<Longrightarrow> api_step fs os shared s s'"
| api_destroy_graph: "pgm_destroy_graph os self graph s = Some (ret, s') \<Longrightarrow> api_step fs os shared s s'"
| api_init_node: "pgm_init_node self node graph nm s = Some (ret, n, s') \<Longrightarrow> api_step fs os shared s s'"
| api_init_edge: "pgm_init_edge os self edge p c nm a s = Some (ret, e, s') \<Longrightarrow> api_step fs os shared s s'"
| api_init_backedge: "pgm_init_backedge os self edge sk p c nm a s = Some (ret, e, s') \<Longrightarrow> api_step fs os shared s s'"
| api_user_data: "pgm_set_user_data n u s = Some (ret, s') \<Longrightarrow> api_step fs os shared s s'"
| api_claim: "pgm_claim_node os self n t s = Some (ret, s') \<Longrightarrow> api_step fs os shared s s'"
| api_claim_any: "pgm_claim_any_node os self graph node t s = Some (ret, n, s') \<Longrightarrow> api_step fs os shared s s'"
| api_release: "pgm_release_node os self n t s = Some (ret, s') \<Longrightarrow> api_step fs os shared s s'"
| api_malloc_p: "pgm_malloc_edge_buf_p os e s = Some (p, s') \<Longrightarrow> api_step fs os shared s s'"
| api_malloc_c: "pgm_malloc_edge_buf_c os e s = Some (p, s') \<Longrightarrow> api_step fs os shared s s'"
| api_free: "api_step fs os shared s (pgm_free os p s)"
| api_swap_p: "pgm_swap_edge_buf_p e p s = Some (q, s') \<Longrightarrow> api_step fs os shared s s'"
| api_swap_c: "pgm_swap_edge_buf_c e p s = Some (q, s') \<Longrightarrow> api_step fs os shared s s'"
| api_swap: "pgm_swap_edge_bufs p q s = Some (ret, s') \<Longrightarrow> api_step fs os shared s s'"
| api_wait: "\<forall>t. (api_step fs os shared)\<^sup>*\<^sup>* t (env_sleep env t) \<Longrightarrow> pgm_wait env os n s = Some (ret, s') \<Longrightarrow> api_step fs os shared s s'"
| api_complete: "pgm_complete os n s = Some (ret, wk, s') \<Longrightarrow> api_step fs os shared s s'"
| api_terminate: "pgm_terminate os n s = Some (ret, wk, s') \<Longrightarrow> api_step fs os shared s s'"

text \<open>The calls that change a graph, keep the shape of every graph or replace all graphs, as rules on the invariant.\<close>

lemmas change_rules =
  pgm_init_graph_inv pgm_destroy_graph_inv pgm_init_node_inv init_edge_inv pgm_claim_node_inv pgm_claim_any_node_inv
  pgm_release_node_inv

lemmas shape_rules =
  state_shape_inv [OF set_user_data_shape] state_shape_inv [OF malloc_edge_buf_shape(1)]
  state_shape_inv [OF malloc_edge_buf_shape(2)] state_shape_inv [OF swap_edge_buf_shape]
  state_shape_inv [OF swap_edge_bufs_shape] state_shape_inv [OF pgm_produce_shape]

lemmas replace_rules =
  graphs_from_inv [OF pgm_init_graphs] graphs_from_inv [OF prepare_private_graphs] graphs_from_inv [OF pgm_destroy_graphs]

lemma steps_inv:
  assumes "(\<lambda>x y. P x y \<and> (state_inv x \<longrightarrow> state_inv y))\<^sup>*\<^sup>* s s'" and "state_inv s"
  shows "state_inv s'"
  using assms by (induction rule: rtranclp_induct) auto

lemma api_step_inv:
  assumes "api_step fs os shared s s'" and shm: "shm_inv fs"
  shows "state_inv s \<longrightarrow> state_inv s'"
  using assms(1)
proof (induction rule: api_step.induct)
  case (api_wait env n s ret s')
  have "state_inv t \<Longrightarrow> state_inv (env_sleep env t)" for t
    using api_wait(1) steps_inv by blast
  then show ?case
    using pgm_wait_inv [OF api_wait(2)] by blast
qed (unfold pgm_init_process_local_def pgm_init_edge_def pgm_init_backedge_def pgm_swap_edge_buf_p_def
    pgm_swap_edge_buf_c_def pgm_complete_def pgm_terminate_def,
  (rule impI, erule (1) change_rules shape_rules replace_rules [OF _ _ shm] | rule impI, erule state_shape_inv [OF pgm_free_shape])+)

text \<open>
  C1: whatever calls the threads of a process make, in whatever order and with whatever arguments, every graph in
  use is well formed: its counters are in range, every linked edge joins two nodes of the graph and has the
  operation table of its type, and the edge lists, the degrees, the counters and the signal mask of every node
  are exactly those of the linked edges.
\<close>

theorem reachable_graphs_well_formed:
  assumes "shm_inv fs" and "gGraphs s0 = None" and "(api_step fs os shared)\<^sup>*\<^sup>* s0 s" and "live_graph s h"
  shows "graph_inv (graph_of s h)"
proof -
  have "state_inv s"
    using assms(3)
  proof (induction rule: rtranclp_induct)
    case base
    then show ?case using no_graphs_inv no_graphs_None assms(2) by blast
  next
    case (step t u)
    then show ?case using api_step_inv [OF step.hyps(2) assms(1)] by simp
  qed
  then show ?thesis using assms(4) by (rule state_invD)
qed

theorem reachable_graphs_well_formed_witness:
  "\<exists>s. (api_step one_dir_fs one_dir_os False)\<^sup>*\<^sup>* ((world_state (Some 7))\<lparr>gGraphs := None\<rparr>) s \<and>
    live_graph s 0 \<and> graph_inv (graph_of s 0)"
proof -
  let ?s0 = "(world_state (Some (7::nat)))\<lparr>gGraphs := None\<rparr>"
  let ?s1 = "(set_master 1 ?s0)\<lparr>gGraphs := Some (\<lambda>_. zero_graph)\<rparr>"
  have 1: "pgm_init_process_local one_dir_fs 1 ?s0 = (0, ?s1)"
    by (simp add: pgm_init_process_local_def prepare_graph_private_mem_def one_dir_fs_def world_state_def set_master_def
        set_world_def)
  have "gIsGraphMaster ?s1 1" "\<not> gGraphSharedMem ?s1"
    by (simp_all add: set_master_def world_state_def)
  then obtain s2 where 2: "pgm_init_graph 1 ''demo'' ?s1 = Some (0, Some 0, s2)" "live_graph s2 0"
    using first_graph [of ?s1 1 "''demo''"] by auto
  have run: "(api_step one_dir_fs one_dir_os False)\<^sup>*\<^sup>* ?s0 s2"
    using api_init_local [OF 1] api_init_graph [OF 2(1)]
    by (blast intro: converse_rtranclp_into_rtranclp)
  have "shm_inv one_dir_fs"
    by (simp add: shm_inv_def one_dir_fs_def zero_graph_def)
  then show ?thesis
    using reachable_graphs_well_formed [OF _ _ run 2(2)] run 2(2) by auto
qed

end
