(* ===== verification/Pgm_Depth.thy ===== *)
theory Pgm_Depth
  imports Complex_Main Pgm_Dag
begin

text \<open>
  The depth of a node: \<open>pgm_get_max_depth\<close> and \<open>pgm_get_min_depth\<close> of \<^verbatim>\<open>src/src/pgm.cpp\<close>, the longest and the
  shortest weighted path from a source of the graph.  The code hands the forward edges to the shortest-path
  algorithms of the Boost graph library, which are parameters here.  A \<open>double\<close> is a real number.  The two
  routines themselves only compare and negate distances, which is exact; the sums are formed by the algorithms.  The
  theorems are for exact sums, as they are for integral weights below 2 to the 53; \<open>max_depth_by\<close> covers sums
  that are rounded.
\<close>

section \<open>The graph algorithms\<close>

text \<open>
  \<open>bellman_ford n es ws d\<close> relaxes the distances \<open>d\<close> over the edges \<open>es\<close> with weights \<open>ws\<close>; \<open>dijkstra n es ws u\<close> starts
  from the vertex \<open>u\<close> and throws (\<open>None\<close>) at a negative weight.  \<open>dbl_max\<close> is the largest \<open>double\<close>.
\<close>

record graph_algs =
  bellman_ford :: "nat \<Rightarrow> (nat \<times> nat) list \<Rightarrow> real list \<Rightarrow> (nat \<Rightarrow> real) \<Rightarrow> nat \<Rightarrow> real"
  dijkstra :: "nat \<Rightarrow> (nat \<times> nat) list \<Rightarrow> real list \<Rightarrow> nat \<Rightarrow> (nat \<Rightarrow> real) option"
  dbl_max :: real

section \<open>The operations\<close>

definition forward_edges :: "pgm_graph \<Rightarrow> nat list" where
  "forward_edges g = filter (\<lambda>i. \<not> e_is_backedge (edges g i)) [0..<nr_edges g]"

definition edge_array :: "pgm_graph \<Rightarrow> (nat \<times> nat) list" where
  "edge_array g = map (\<lambda>i. (e_producer (edges g i), e_consumer (edges g i))) (forward_edges g)"

text \<open>The weights, each multiplied by \<open>sign\<close>; a null weight function weighs every edge 1.\<close>

definition edge_weights :: "pgm_graph \<Rightarrow> graph_t \<Rightarrow> (edge_t \<Rightarrow> real) option \<Rightarrow> real \<Rightarrow> real list" where
  "edge_weights g graph wfunc sign =
     (case wfunc of
        None \<Rightarrow> replicate (length (forward_edges g)) sign
      | Some f \<Rightarrow> map (\<lambda>i. sign * f \<lparr>egraph = graph, eedge = int i\<rparr>) (forward_edges g))"

definition source_nodes :: "pgm_graph \<Rightarrow> nat list" where
  "source_nodes g = filter (\<lambda>i. count_forward g (in_list (nodes g i)) = 0) [0..<nr_nodes g]"

definition pgm_get_max_depth :: "graph_algs \<Rightarrow> 'w pgm_state \<Rightarrow> node_t \<Rightarrow> (edge_t \<Rightarrow> real) option \<Rightarrow> real option" where
  "pgm_get_max_depth ga s target wfunc =
     with_graph s (ngraph target) (-1) (\<lambda>g.
       case pgm_is_dag s (ngraph target) True of
         None \<Rightarrow> None
       | Some dag \<Rightarrow>
           if dag = 0 \<or> nnode target < 0 \<or> nnode target \<ge> int (nr_nodes g) then Some (-1)
           else let ws = edge_weights g (ngraph target) wfunc (-1);
                    depth = fold (\<lambda>i depth.
                      let d = bellman_ford ga (nr_nodes g) (edge_array g) ws ((\<lambda>_. dbl_max ga)(i := 0));
                          adist = d (nat (nnode target));
                          adist = (if adist > 0 then dbl_max ga else adist)
                      in min depth adist) (source_nodes g) (dbl_max ga)
                in Some (depth * (-1)))"

text \<open>The loop of \<open>pgm_get_min_depth\<close> over the sources.\<close>

fun min_depth_loop :: "graph_algs \<Rightarrow> pgm_graph \<Rightarrow> real list \<Rightarrow> nat \<Rightarrow> nat list \<Rightarrow> real \<Rightarrow> real option" where
  "min_depth_loop ga g ws target [] depth = Some depth"
| "min_depth_loop ga g ws target (i # is) depth =
     (case dijkstra ga (nr_nodes g) (edge_array g) ws i of
        None \<Rightarrow> None
      | Some d \<Rightarrow>
          let adist = d target; adist = (if adist < 0 then dbl_max ga else adist)
          in min_depth_loop ga g ws target is (min depth adist))"

definition pgm_get_min_depth :: "graph_algs \<Rightarrow> 'w pgm_state \<Rightarrow> node_t \<Rightarrow> (edge_t \<Rightarrow> real) option \<Rightarrow> real option" where
  "pgm_get_min_depth ga s target wfunc =
     with_graph s (ngraph target) (-1) (\<lambda>g.
       case pgm_is_dag s (ngraph target) True of
         None \<Rightarrow> None
       | Some dag \<Rightarrow>
           if dag = 0 \<or> nnode target < 0 \<or> nnode target \<ge> int (nr_nodes g) then Some (-1)
           else min_depth_loop ga g (edge_weights g (ngraph target) wfunc 1) (nat (nnode target))
                  (source_nodes g) (dbl_max ga))"

section \<open>Paths\<close>

text \<open>A path as the list of the positions of its edges in the edge array, and its cost.\<close>

fun epath :: "(nat \<times> nat) list \<Rightarrow> nat \<Rightarrow> nat list \<Rightarrow> nat \<Rightarrow> bool" where
  "epath es u [] v \<longleftrightarrow> u = v"
| "epath es u (k # ks) v \<longleftrightarrow> k < length es \<and> fst (es ! k) = u \<and> epath es (snd (es ! k)) ks v"

definition cost :: "real list \<Rightarrow> nat list \<Rightarrow> real" where
  "cost ws ks = sum_list (map (\<lambda>k. ws ! k) ks)"

text \<open>The least value of a measure \<open>C\<close> of the paths between two vertices.\<close>

definition least_by :: "(nat list \<Rightarrow> real) \<Rightarrow> (nat \<times> nat) list \<Rightarrow> nat \<Rightarrow> nat \<Rightarrow> real \<Rightarrow> bool" where
  "least_by C es u v x \<longleftrightarrow> (\<exists>ks. epath es u ks v \<and> x = C ks) \<and> (\<forall>ks. epath es u ks v \<longrightarrow> x \<le> C ks)"

definition least_cost :: "(nat \<times> nat) list \<Rightarrow> real list \<Rightarrow> nat \<Rightarrow> nat \<Rightarrow> real \<Rightarrow> bool" where
  "least_cost es ws u v x \<longleftrightarrow> least_by (cost ws) es u v x"

text \<open>
  What the algorithms are documented to compute on a given graph: the least cost of a path from the start
  vertex, and the largest \<open>double\<close> for a vertex that cannot be reached.
\<close>

definition distances :: "graph_algs \<Rightarrow> nat \<Rightarrow> (nat \<times> nat) list \<Rightarrow> real list \<Rightarrow> nat \<Rightarrow> (nat \<Rightarrow> real) \<Rightarrow> bool" where
  "distances ga n es ws u d \<longleftrightarrow>
     (\<forall>v < n. if \<exists>ks. epath es u ks v then least_cost es ws u v (d v) else d v = dbl_max ga)"

definition bellman_ford_correct :: "graph_algs \<Rightarrow> nat \<Rightarrow> (nat \<times> nat) list \<Rightarrow> real list \<Rightarrow> bool" where
  "bellman_ford_correct ga n es ws \<longleftrightarrow>
     (\<forall>u < n. distances ga n es ws u (bellman_ford ga n es ws ((\<lambda>_. dbl_max ga)(u := 0))))"

definition dijkstra_correct :: "graph_algs \<Rightarrow> nat \<Rightarrow> (nat \<times> nat) list \<Rightarrow> real list \<Rightarrow> bool" where
  "dijkstra_correct ga n es ws \<longleftrightarrow>
     (\<forall>u < n. \<exists>d. dijkstra ga n es ws u = Some d \<and> distances ga n es ws u d)"

lemma epath_snoc: "epath es u (ks @ [k]) v \<longleftrightarrow> k < length es \<and> epath es u ks (fst (es ! k)) \<and> snd (es ! k) = v"
  by (induction ks arbitrary: u) auto

lemma epath_index: "epath es u ks v \<Longrightarrow> set ks \<subseteq> {..<length es}"
  by (induction ks arbitrary: u) auto

text \<open>Every vertex of an acyclic graph is reached from a vertex without predecessors.\<close>

lemma source_reaches:
  assumes "acyclic (set es)" and "set es \<subseteq> {..<n} \<times> {..<n}" and "v < n"
  shows "\<exists>u ks. u < n \<and> (\<forall>x. (x, u) \<notin> set es) \<and> epath es u ks v"
proof -
  have "wf (set es)"
    using assms(1) by (simp add: finite_acyclic_wf)
  then show ?thesis
    using assms(3)
  proof (induction v rule: wf_induct_rule)
    case (less v)
    show ?case
    proof (cases "\<exists>x. (x, v) \<in> set es")
      case True
      then obtain k where k: "k < length es" "snd (es ! k) = v"
        by (metis in_set_conv_nth snd_conv)
      have edge: "(fst (es ! k), v) \<in> set es"
        using k by (metis nth_mem prod.collapse)
      then have "fst (es ! k) < n"
        using assms(2) by blast
      then show ?thesis
        using less.IH [OF edge] k by (meson epath_snoc)
    next
      case False
      then show ?thesis
        using less.prems by (intro exI [of _ v] exI [of _ "[]"]) simp
    qed
  qed
qed

text \<open>The least of the distances from several sources.\<close>

lemma fold_min_least:
  fixes D :: "nat \<Rightarrow> real"
  assumes "\<forall>u \<in> set us. if \<exists>ks. epath es u ks t then least_by C es u t (D u) else D u = m"
    and "\<forall>u ks. epath es u ks t \<longrightarrow> C ks < m" and "u0 \<in> set us" and "epath es u0 ks0 t"
  defines "r \<equiv> fold (\<lambda>u x. min x (D u)) us m"
  shows "(\<exists>u ks. u \<in> set us \<and> epath es u ks t \<and> r = C ks) \<and>
    (\<forall>u ks. u \<in> set us \<longrightarrow> epath es u ks t \<longrightarrow> r \<le> C ks)"
proof -
  have fold: "fold (\<lambda>u x. min x (D u)) us y = Min (insert y (D ` set us))" for y
  proof (induction us arbitrary: y)
    case (Cons u us)
    then show ?case
      by (cases "us = []") (auto simp: Min_insert min.assoc insert_commute)
  qed simp
  have le: "r \<le> D u" if "u \<in> set us" for u
    using that unfolding r_def fold by simp
  have below: "r \<le> C ks" if "u \<in> set us" "epath es u ks t" for u ks
  proof -
    have "least_by C es u t (D u)"
      using bspec [OF assms(1) that(1)] that(2) by (metis (full_types))
    then have "D u \<le> C ks"
      using that(2) unfolding least_by_def by blast
    with le [OF that(1)] show ?thesis by linarith
  qed
  have "r \<in> insert m (D ` set us)"
    unfolding r_def fold by (rule Min_in) auto
  moreover have "r < m"
    using below [OF assms(3,4)] assms(2,4) by force
  ultimately obtain u where u: "u \<in> set us" "r = D u"
    by auto
  then have "\<exists>ks. epath es u ks t \<and> r = C ks"
    using bspec [OF assms(1) u(1)] \<open>r < m\<close> unfolding least_by_def by (metis less_irrefl)
  then show ?thesis
    using u below by blast
qed

section \<open>The forward edges of a well-formed graph\<close>

lemma succ_rel_forward: "succ_rel g True = forward_rel g"
  by (simp add: succ_rel_def forward_rel_def)

lemma set_edge_array:
  assumes "graph_inv g" and "\<And>i. i < nr_edges g \<Longrightarrow> linked g i"
  shows "set (edge_array g) = forward_rel g"
  using linkedD(1) [OF assms(1)] assms(2) by (force simp: edge_array_def forward_edges_def forward_rel_def)

lemma set_source_nodes:
  assumes "graph_inv g" and "\<And>i. i < nr_edges g \<Longrightarrow> linked g i"
  shows "u \<in> set (source_nodes g) \<longleftrightarrow> u < nr_nodes g \<and> (\<forall>x. (x, u) \<notin> set (edge_array g))"
proof (cases "u < nr_nodes g")
  case True
  show ?thesis
    using True graph_inv_lists(1) [OF assms(1) True] assms(2) linkedD(1) [OF assms(1)]
    by (auto simp: source_nodes_def count_forward_filter filter_empty_conv in_edges_of_def edge_array_def forward_edges_def)
qed (simp add: source_nodes_def)

lemma length_edge_weights [simp]: "length (edge_weights g h wfunc sign) = length (edge_array g)"
  by (simp add: edge_weights_def edge_array_def split: option.splits)

lemma cost_uminus:
  assumes "epath (edge_array g) u ks v"
  shows "cost (edge_weights g h wfunc (-1)) ks = - cost (edge_weights g h wfunc 1) ks"
proof -
  have "edge_weights g h wfunc (-1) ! k = - edge_weights g h wfunc 1 ! k" if "k < length (edge_array g)" for k
    using that by (auto simp: edge_weights_def edge_array_def split: option.splits)
  then show ?thesis
    using epath_index [OF assms] unfolding cost_def by (induction ks) auto
qed

lemma cost_nonneg:
  assumes "\<forall>x \<in> set (edge_weights g h wfunc 1). 0 \<le> x" and "epath (edge_array g) u ks v"
  shows "0 \<le> cost (edge_weights g h wfunc 1) ks"
  using epath_index [OF assms(2)] assms(1) unfolding cost_def by (induction ks) (auto simp: subset_iff)

text \<open>A node of a graph, all of whose counted edges are linked, and with terminated distinct names.\<close>

definition depth_node :: "'w pgm_state \<Rightarrow> node_t \<Rightarrow> bool" where
  "depth_node s t \<longleftrightarrow> state_inv s \<and> live_graph s (ngraph t) \<and> well_named (graph_of s (ngraph t)) \<and>
     (\<forall>i < nr_edges (graph_of s (ngraph t)). linked (graph_of s (ngraph t)) i) \<and>
     0 \<le> nnode t \<and> nnode t < int (nr_nodes (graph_of s (ngraph t)))"

lemma depth_nodeD:
  assumes "depth_node s t" and "g = graph_of s (ngraph t)"
  shows "live_graph s (ngraph t)" and "0 \<le> nnode t" and "nat (nnode t) < nr_nodes g"
    and "set (edge_array g) = forward_rel g" and "set (edge_array g) \<subseteq> {..<nr_nodes g} \<times> {..<nr_nodes g}"
    and "pgm_is_dag s (ngraph t) True = Some (if acyclic (forward_rel g) then 1 else 0)"
    and "u \<in> set (source_nodes g) \<longleftrightarrow> u < nr_nodes g \<and> (\<forall>x. (x, u) \<notin> set (edge_array g))"
proof -
  have g: "graph_inv g" "\<And>i. i < nr_edges g \<Longrightarrow> linked g i"
    using assms by (auto simp: depth_node_def state_inv_def)
  show "live_graph s (ngraph t)" and "0 \<le> nnode t" and "nat (nnode t) < nr_nodes g"
    and "pgm_is_dag s (ngraph t) True = Some (if acyclic (forward_rel g) then 1 else 0)"
    using assms pgm_is_dag_acyclic [of s "ngraph t" True] by (auto simp: depth_node_def succ_rel_forward)
  show e: "set (edge_array g) = forward_rel g"
    using set_edge_array [OF g] .
  then show "set (edge_array g) \<subseteq> {..<nr_nodes g} \<times> {..<nr_nodes g}"
    using forward_rel_nodes [OF g(1)] by auto
  show "u \<in> set (source_nodes g) \<longleftrightarrow> u < nr_nodes g \<and> (\<forall>x. (x, u) \<notin> set (edge_array g))"
    using set_source_nodes [OF g] .
qed

lemma depth_source:
  assumes "depth_node s t" and "g = graph_of s (ngraph t)" and "acyclic (forward_rel g)"
  obtains u ks where "u \<in> set (source_nodes g)" and "epath (edge_array g) u ks (nat (nnode t))"
  using source_reaches [of "edge_array g" "nr_nodes g" "nat (nnode t)"] depth_nodeD(3-5,7) [OF assms(1,2)] assms(3)
  by (metis (no_types, lifting))

section \<open>Depths are path lengths\<close>

lemma min_depth_loop_fold:
  assumes "\<And>u. u \<in> set us \<Longrightarrow> \<exists>d. dijkstra ga (nr_nodes g) (edge_array g) ws u = Some d \<and> 0 \<le> d t"
  shows "min_depth_loop ga g ws t us x =
    Some (fold (\<lambda>u x. min x (the (dijkstra ga (nr_nodes g) (edge_array g) ws u) t)) us x)"
  using assms by (induction us arbitrary: x) (fastforce simp: Let_def)+

text \<open>
  The longest path with respect to any measure of paths that is never positive, when the distances are its least
  values.
\<close>

lemma max_depth_by:
  fixes wfunc :: "(edge_t \<Rightarrow> real) option" and C :: "nat list \<Rightarrow> real"
  assumes "depth_node s t" and "g = graph_of s (ngraph t)" and "acyclic (forward_rel g)" and "0 < dbl_max ga"
    and "\<forall>u ks. epath (edge_array g) u ks (nat (nnode t)) \<longrightarrow> C ks \<le> 0"
    and "\<forall>u < nr_nodes g.
      let x = bellman_ford ga (nr_nodes g) (edge_array g) (edge_weights g (ngraph t) wfunc (-1)) ((\<lambda>_. dbl_max ga)(u := 0)) (nat (nnode t))
      in if \<exists>ks. epath (edge_array g) u ks (nat (nnode t)) then least_by C (edge_array g) u (nat (nnode t)) x else x = dbl_max ga"
  shows "\<exists>u ks. u \<in> set (source_nodes g) \<and> epath (edge_array g) u ks (nat (nnode t)) \<and>
    pgm_get_max_depth ga s t wfunc = Some (- C ks) \<and>
    (\<forall>u' ks'. u' \<in> set (source_nodes g) \<longrightarrow> epath (edge_array g) u' ks' (nat (nnode t)) \<longrightarrow> C ks \<le> C ks')"
proof -
  let ?t = "nat (nnode t)" and ?es = "edge_array g"
  note d = depth_nodeD [OF assms(1,2)]
  obtain u0 ks0 where src: "u0 \<in> set (source_nodes g)" "epath ?es u0 ks0 ?t"
    using depth_source [OF assms(1-3)] .
  define D where "D u = bellman_ford ga (nr_nodes g) ?es (edge_weights g (ngraph t) wfunc (-1)) ((\<lambda>_. dbl_max ga)(u := 0)) ?t" for u
  have D: "\<forall>u \<in> set (source_nodes g). if \<exists>ks. epath ?es u ks ?t then least_by C ?es u ?t (D u) else D u = dbl_max ga"
    using assms(6) d(7) unfolding D_def Let_def by blast
  have "(if D u > 0 then dbl_max ga else D u) = D u" if "u \<in> set (source_nodes g)" for u
    using bspec [OF D that] assms(5) unfolding least_by_def by (metis (no_types) linorder_not_less)
  then have fold: "fold (\<lambda>u x. min x (if D u > 0 then dbl_max ga else D u)) (source_nodes g) (dbl_max ga) =
      fold (\<lambda>u x. min x (D u)) (source_nodes g) (dbl_max ga)"
    by (intro fold_cong) auto
  have "\<forall>u ks. epath ?es u ks ?t \<longrightarrow> C ks < dbl_max ga"
    using assms(4,5) by fastforce
  note least = fold_min_least [OF D this src]
  have "pgm_get_max_depth ga s t wfunc = Some (- fold (\<lambda>u x. min x (D u)) (source_nodes g) (dbl_max ga))"
    using d(1-3,6) assms(3) fold unfolding D_def assms(2)
    by (simp add: pgm_get_max_depth_def Let_def nat_less_iff)
  then show ?thesis
    using least by (elim conjE exE) auto
qed

lemma max_depth_path:
  fixes wfunc :: "(edge_t \<Rightarrow> real) option"
  assumes "depth_node s t" and "g = graph_of s (ngraph t)" and "W = edge_weights g (ngraph t) wfunc 1"
    and "\<forall>x \<in> set W. 0 \<le> x" and "0 < dbl_max ga"
    and "bellman_ford_correct ga (nr_nodes g) (edge_array g) (edge_weights g (ngraph t) wfunc (-1))"
  shows "if acyclic (forward_rel g)
    then \<exists>u ks. u \<in> set (source_nodes g) \<and> epath (edge_array g) u ks (nat (nnode t)) \<and>
      pgm_get_max_depth ga s t wfunc = Some (cost W ks) \<and>
      (\<forall>u' ks'. u' \<in> set (source_nodes g) \<longrightarrow> epath (edge_array g) u' ks' (nat (nnode t)) \<longrightarrow> cost W ks' \<le> cost W ks)
    else pgm_get_max_depth ga s t wfunc = Some (-1)"
proof -
  let ?t = "nat (nnode t)" and ?es = "edge_array g" and ?N = "edge_weights g (ngraph t) wfunc (-1)"
  note d = depth_nodeD [OF assms(1,2)]
  show ?thesis
  proof (cases "acyclic (forward_rel g)")
    case True
    have neg: "\<forall>u ks. epath ?es u ks ?t \<longrightarrow> cost ?N ks \<le> 0"
      using cost_uminus cost_nonneg assms(3,4) by simp
    have D: "\<forall>u < nr_nodes g. let x = bellman_ford ga (nr_nodes g) ?es ?N ((\<lambda>_. dbl_max ga)(u := 0)) ?t
        in if \<exists>ks. epath ?es u ks ?t then least_by (cost ?N) ?es u ?t x else x = dbl_max ga"
      using assms(6) d(3) unfolding bellman_ford_correct_def distances_def Let_def least_cost_def by blast
    obtain u ks where best: "u \<in> set (source_nodes g)" "epath ?es u ks ?t" "pgm_get_max_depth ga s t wfunc = Some (- cost ?N ks)"
      "\<And>u' ks'. u' \<in> set (source_nodes g) \<Longrightarrow> epath ?es u' ks' ?t \<Longrightarrow> cost ?N ks \<le> cost ?N ks'"
      using max_depth_by [OF assms(1,2) True assms(5) neg D] by blast
    then have "cost W ks' \<le> cost W ks" if "u' \<in> set (source_nodes g)" "epath ?es u' ks' ?t" for u' ks'
      using best(4) [OF that] cost_uminus [OF that(2)] cost_uminus [OF best(2)] assms(3) by simp
    then show ?thesis
      using True best(1-3) cost_uminus [OF best(2)] assms(3) by auto
  next
    case False
    then show ?thesis
      using d(1,6) assms(2) by (simp add: pgm_get_max_depth_def)
  qed
qed

text \<open>
  C20: \<open>pgm_get_max_depth\<close> is the cost of a longest path of forward edges from a source of the graph to the node,
  for weights that are not negative (the number of its edges without a weight function), and \<open>-1\<close> when the
  forward edges have a cycle.
\<close>

theorem max_depth_longest_path:
  fixes wfunc :: "(edge_t \<Rightarrow> real) option"
  assumes "depth_node s t" and "g = graph_of s (ngraph t)" and "W = edge_weights g (ngraph t) wfunc 1"
    and "\<forall>x \<in> set W. 0 \<le> x" and "0 < dbl_max ga"
    and "bellman_ford_correct ga (nr_nodes g) (edge_array g) (edge_weights g (ngraph t) wfunc (-1))"
  shows "if acyclic (forward_rel g)
    then \<exists>u ks. u \<in> set (source_nodes g) \<and> epath (edge_array g) u ks (nat (nnode t)) \<and>
      pgm_get_max_depth ga s t wfunc = Some (cost W ks) \<and>
      (\<forall>u' ks'. u' \<in> set (source_nodes g) \<longrightarrow> epath (edge_array g) u' ks' (nat (nnode t)) \<longrightarrow> cost W ks' \<le> cost W ks)
    else pgm_get_max_depth ga s t wfunc = Some (-1)"
  by (rule max_depth_path [OF assms])

text \<open>
  C21: \<open>pgm_get_min_depth\<close> is the cost of a shortest path of forward edges from a source of the graph to the
  node, for weights that are not negative, and \<open>-1\<close> when the forward edges have a cycle.
\<close>

theorem min_depth_shortest_path:
  fixes wfunc :: "(edge_t \<Rightarrow> real) option"
  assumes "depth_node s t" and "g = graph_of s (ngraph t)" and "W = edge_weights g (ngraph t) wfunc 1"
    and "\<forall>x \<in> set W. 0 \<le> x" and "0 < dbl_max ga" and "dijkstra_correct ga (nr_nodes g) (edge_array g) W"
    and "\<forall>u ks. epath (edge_array g) u ks (nat (nnode t)) \<longrightarrow> cost W ks < dbl_max ga"
  shows "if acyclic (forward_rel g)
    then \<exists>u ks. u \<in> set (source_nodes g) \<and> epath (edge_array g) u ks (nat (nnode t)) \<and>
      pgm_get_min_depth ga s t wfunc = Some (cost W ks) \<and>
      (\<forall>u' ks'. u' \<in> set (source_nodes g) \<longrightarrow> epath (edge_array g) u' ks' (nat (nnode t)) \<longrightarrow> cost W ks \<le> cost W ks')
    else pgm_get_min_depth ga s t wfunc = Some (-1)"
proof -
  let ?t = "nat (nnode t)" and ?es = "edge_array g"
  note d = depth_nodeD [OF assms(1,2)]
  show ?thesis
  proof (cases "acyclic (forward_rel g)")
    case True
    obtain u0 ks0 where src: "u0 \<in> set (source_nodes g)" "epath ?es u0 ks0 ?t"
      using depth_source [OF assms(1,2) True] .
    have D: "\<exists>d. dijkstra ga (nr_nodes g) ?es W u = Some d \<and>
        (if \<exists>ks. epath ?es u ks ?t then least_cost ?es W u ?t (d ?t) else d ?t = dbl_max ga)"
      if "u \<in> set (source_nodes g)" for u
      using that assms(6) d(3,7) unfolding dijkstra_correct_def distances_def by blast
    have "0 \<le> x" if "least_cost ?es W u ?t x" for u x
      using that cost_nonneg assms(3,4) unfolding least_cost_def least_by_def by blast
    then have "\<exists>d. dijkstra ga (nr_nodes g) ?es W u = Some d \<and> 0 \<le> d ?t" if "u \<in> set (source_nodes g)" for u
      using D [OF that] assms(5) by (metis less_le)
    note loop = min_depth_loop_fold [of "source_nodes g", OF this]
    have run: "pgm_get_min_depth ga s t wfunc =
        Some (fold (\<lambda>u x. min x (the (dijkstra ga (nr_nodes g) ?es W u) ?t)) (source_nodes g) (dbl_max ga))"
      using d(1-3,6) True loop unfolding assms(2,3) by (simp add: pgm_get_min_depth_def nat_less_iff)
    have "\<forall>u \<in> set (source_nodes g). if \<exists>ks. epath ?es u ks ?t
        then least_cost ?es W u ?t (the (dijkstra ga (nr_nodes g) ?es W u) ?t)
        else the (dijkstra ga (nr_nodes g) ?es W u) ?t = dbl_max ga"
      using D by (metis option.sel)
    from fold_min_least [OF this [unfolded least_cost_def] assms(7) src] show ?thesis
      using run True by (simp add: if_P) metis
  next
    case False
    then show ?thesis
      using d(1,6) assms(2) by (simp add: pgm_get_min_depth_def)
  qed
qed

section \<open>Examples\<close>

text \<open>Plain edge relaxation, on the graph with nodes 0, 1 and 2 and the edge from 1 to 2.\<close>

definition relax_all :: "real \<Rightarrow> nat \<Rightarrow> (nat \<times> nat) list \<Rightarrow> real list \<Rightarrow> (nat \<Rightarrow> real) \<Rightarrow> nat \<Rightarrow> real" where
  "relax_all m n es ws d = fold (\<lambda>_. fold (\<lambda>((u, v), w) d. if d u = m then d else d(v := min (d v) (d u + w))) (zip es ws)) [0..<n] d"

definition relax_algs :: graph_algs where
  "relax_algs = \<lparr>bellman_ford = relax_all 1000000,
     dijkstra = (\<lambda>n es ws u. if \<exists>w \<in> set ws. w < 0 then None else Some (relax_all 1000000 n es ws ((\<lambda>_. 1000000)(u := 0)))),
     dbl_max = 1000000\<rparr>"

lemma abc_array: "edge_array (cycle_graph ns) = [(1, 2)]" "forward_edges (cycle_graph ns) = [0]"
  by (simp_all add: edge_array_def forward_edges_def cycle_edges cycle_edge_def full_edge_fields upt_rec numeral_2_eq_2)

lemma abc_path: "epath [(1, 2)] u ks v \<longleftrightarrow> ks = [] \<and> u = v \<or> ks = [0] \<and> u = 1 \<and> v = 2"
  by (cases ks; cases "tl ks") auto

lemma abc_relax:
  "relax_all m 3 [(1, 2)] [x] d = (if d 1 = m then d else d(2 := min (d 2) (d 1 + x)))"
proof -
  define f :: "(nat \<Rightarrow> real) \<Rightarrow> nat \<Rightarrow> real" where "f d = (if d 1 = m then d else d(2 := min (d 2) (d 1 + x)))" for d
  have idem: "f (f d) = f d"
    by (simp add: f_def)
  have "relax_all m 3 [(1, 2)] [x] d = fold (\<lambda>_. f) [0..<3] d"
    by (simp add: relax_all_def f_def [abs_def] del: One_nat_def)
  also have "\<dots> = f (f (f d))"
    by (simp add: numeral_3_eq_3)
  finally show ?thesis
    by (simp only: idem) (simp only: f_def)
qed

lemma abc_distances:
  assumes "u < 3" and "\<bar>x\<bar> < 1000000"
  shows "distances relax_algs 3 [(1, 2)] [x] u (relax_all 1000000 3 [(1, 2)] [x] ((\<lambda>_. 1000000)(u := 0)))"
proof -
  from assms(1) consider "u = 0" | "u = 1" | "u = 2" by linarith
  moreover have "min 1000000 x = x" using assms(2) by simp
  ultimately show ?thesis
    by cases (simp_all add: abc_relax distances_def least_cost_def least_by_def abc_path cost_def relax_algs_def del: One_nat_def)
qed

lemma abc_depth_node: "depth_node abc_state \<lparr>ngraph = 0, nnode = 2\<rparr>"
  using abc_well_named cycle_state_inv [of "[''a'', ''b'', ''c'']"]
  by (auto simp: depth_node_def cycle_state_live cycle_edges cycle_linked less_Suc_eq numeral_2_eq_2)

lemma abc_forward: "forward_rel (cycle_graph ns) = {(1, 2)}" "acyclic (forward_rel (cycle_graph ns))"
  using cycle_succ [of ns True] cycle_acyclic [of ns True] by (simp_all add: succ_rel_forward)

lemma abc_weights: "edge_weights (cycle_graph ns) 0 (Some (\<lambda>_. 5)) sign = [sign * 5]"
  by (simp add: edge_weights_def abc_array)

lemma abc_sources: "2 \<notin> set (source_nodes (cycle_graph [''a'', ''b'', ''c'']))"
  using depth_nodeD(7) [OF abc_depth_node, of "cycle_graph [''a'', ''b'', ''c'']" 2]
  by (auto simp: cycle_state_live abc_array)

lemma abc_graph: "cycle_graph [''a'', ''b'', ''c''] = graph_of abc_state (ngraph \<lparr>ngraph = 0, nnode = 2\<rparr>)"
  by (simp add: cycle_state_live)

lemmas abc_simps = abc_array abc_path abc_weights abc_forward(2) cycle_edges if_True nat_numeral

theorem max_depth_longest_path_witness:
  "pgm_get_max_depth relax_algs abc_state \<lparr>ngraph = 0, nnode = 2\<rparr> (Some (\<lambda>_. 5)) = Some 5"
proof -
  have "bellman_ford_correct relax_algs 3 [(1, 2)] [-5]" "0 < dbl_max relax_algs"
    using abc_distances [of _ "-5"] by (simp add: bellman_ford_correct_def) (simp_all add: relax_algs_def)
  then show ?thesis
    using max_depth_longest_path [OF abc_depth_node abc_graph refl, of "Some (\<lambda>_. 5)" relax_algs] abc_sources
    by (auto simp: abc_simps cost_def simp del: One_nat_def)
qed

theorem min_depth_shortest_path_witness:
  "pgm_get_min_depth relax_algs abc_state \<lparr>ngraph = 0, nnode = 2\<rparr> (Some (\<lambda>_. 5)) = Some 5"
proof -
  have "dijkstra_correct relax_algs 3 [(1, 2)] [5]" "dbl_max relax_algs = 1000000"
    using abc_distances [of _ 5] by (simp add: dijkstra_correct_def) (simp_all add: relax_algs_def)
  then show ?thesis
    using min_depth_shortest_path [OF abc_depth_node abc_graph refl, of "Some (\<lambda>_. 5)" relax_algs] abc_sources
    by (auto simp: abc_simps cost_def simp del: One_nat_def)
qed

end
