(* ===== verification/Pgm_Print.thy ===== *)
theory Pgm_Print
  imports Pgm_Dag
begin

text \<open>
  Printing a graph in the DOT language: \<open>edgeTypeStr\<close>, \<open>filter_ctrlchars\<close> and \<open>pgm_print_graph\<close> of
  \<^verbatim>\<open>src/src/pgm.cpp\<close>.  The result is the return code and the text written to the stream.
\<close>

section \<open>Characters\<close>

definition newline :: string where "newline = [CHR 0x0A]"
definition tab :: string where "tab = [CHR 0x09]"
definition quote :: string where "quote = [CHR 0x22]"

text \<open>The characters \<open>iscntrl\<close> accepts in the C locale.  For a \<open>char\<close> with a negative code its result is undefined; these count as printable.\<close>

definition iscntrl :: "char \<Rightarrow> bool" where
  "iscntrl c \<longleftrightarrow> (of_char c :: nat) < 32 \<or> (of_char c :: nat) = 127"

section \<open>The operations\<close>

definition edgeTypeStr :: "pgm_edge \<Rightarrow> string" where
  "edgeTypeStr e =
     (if e_ops e = Some ring_edge_ops then ''ring''
      else if e_ops e = Some fifo_edge_ops then ''fifo''
      else if e_ops e = Some mq_edge_ops then ''mq''
      else if e_ops e = Some sock_stream_edge_ops then ''stream''
      else if e_ops e = Some cv_edge_ops then ''cv''
      else ''unknown'')"

definition filter_ctrlchars :: "string \<Rightarrow> nat \<Rightarrow> string" where
  "filter_ctrlchars str len = takeWhile (\<lambda>c. \<not> iscntrl c) (take len str) @ (if \<exists>c \<in> set (take len str). iscntrl c then [] else drop len str)"

text \<open>
  A name copied into \<open>namebuf\<close> and filtered; \<open>None\<close> when it has no terminating NUL there and printing it
  would run past the array.
\<close>

definition namebuf :: "string \<Rightarrow> string option" where
  "namebuf nm = std_string (filter_ctrlchars (take PGM_NODE_NAME_LEN nm) PGM_NODE_NAME_LEN) PGM_NODE_NAME_LEN"

definition dec :: "nat \<Rightarrow> string" where
  "dec n = num_str 10 n"

definition graph_header :: "string \<Rightarrow> string list" where
  "graph_header nm = [''digraph G {'', tab @ ''rankdir=TB;'', tab @ ''size='' @ quote @ ''11,8.5'' @ quote @ '';'',
     tab @ ''label='' @ quote @ nm @ quote @ '';'']"

definition node_line :: "pgm_graph \<Rightarrow> nat \<Rightarrow> string \<Rightarrow> string" where
  "node_line g i nm =
     (let n = nodes g i;
          isSrc = (count_forward g (in_list n) = 0);
          isSink = (count_forward g (out_list n) = 0)
      in tab @ dec i @ '' [shape='' @ (if isSrc \<or> isSink then ''doublecircle'' else ''circle'') @
         '', style='' @ (if isSrc \<or> isSink then ''filled'' else quote @ quote) @
         '', color='' @ (if isSrc then quote @ ''#56A0D3'' @ quote
                        else if isSink then quote @ ''#E04050D3'' @ quote else quote @ quote) @
         '', label='' @ quote @ nm @ quote @ ''];'')"

definition threshold_label :: "pgm_edge \<Rightarrow> string" where
  "threshold_label e = take 79
     (if \<not> e_is_backedge e then ''('' @ dec (unat (nr_threshold (e_attr e))) @ '')''
      else ''('' @ dec (unat (nr_threshold (e_attr e))) @ '', '' @ dec (unat (e_nr_skips e)) @ '')'')"

definition edge_line :: "pgm_edge \<Rightarrow> string \<Rightarrow> string" where
  "edge_line e nm =
     tab @ dec (e_producer e) @ '' -> '' @ dec (e_consumer e) @
     '' [style='' @ (if \<not> e_is_backedge e then ''solid'' else ''dashed'') @
     '', color='' @ (if is_data_passing (e_attr e) then ''blue'' else ''dimgray'') @
     '', label='' @ quote @ (if is_signal_driven (e_attr e) \<and> e_ops e \<noteq> Some cv_edge_ops then ''fast_'' else []) @
       edgeTypeStr e @ ''_'' @ nm @ quote @
     '', headlabel='' @ quote @ dec (unat (nr_consume (e_attr e))) @ '' '' @ threshold_label e @ quote @
     '', taillabel='' @ quote @ dec (unat (nr_produce (e_attr e))) @ quote @ '']''"

text \<open>The lines printed for a list of indices, the name of each copied into \<open>namebuf\<close>.\<close>

fun print_each :: "(nat \<Rightarrow> string) \<Rightarrow> (nat \<Rightarrow> string \<Rightarrow> string) \<Rightarrow> nat list \<Rightarrow> string option" where
  "print_each name_of line [] = Some []"
| "print_each name_of line (i # is) =
     (case namebuf (name_of i) of
        None \<Rightarrow> None
      | Some nm \<Rightarrow> map_option (\<lambda>rest. line i nm @ newline @ rest) (print_each name_of line is))"

definition pgm_print_graph :: "'w pgm_state \<Rightarrow> graph_t \<Rightarrow> (int \<times> string) option" where
  "pgm_print_graph s graph =
     with_graph s graph (-1, []) (\<lambda>g.
       case namebuf (g_name g) of
         None \<Rightarrow> None
       | Some nm \<Rightarrow>
           (case print_each (\<lambda>i. n_name (nodes g i)) (node_line g) [0..<nr_nodes g] of
              None \<Rightarrow> None
            | Some ns \<Rightarrow>
                (case print_each (\<lambda>i. e_name (edges g i)) (\<lambda>i. edge_line (edges g i)) [0..<nr_edges g] of
                   None \<Rightarrow> None
                 | Some es \<Rightarrow> Some (0, concat (map (\<lambda>l. l @ newline) (graph_header nm)) @ ns @ es @ ''}'' @ newline))))"

section \<open>The printed lines\<close>

text \<open>The lines of a text, and the part of a name that is printed.\<close>

fun text_lines :: "string \<Rightarrow> string \<Rightarrow> string list" where
  "text_lines acc [] = (if acc = [] then [] else [rev acc])"
| "text_lines acc (c # cs) = (if c = CHR 0x0A then rev acc # text_lines [] cs else text_lines (c # acc) cs)"

definition visible :: "string \<Rightarrow> string" where
  "visible nm = takeWhile (\<lambda>c. \<not> iscntrl c) nm"

lemma text_lines_append: "CHR 0x0A \<notin> set l \<Longrightarrow> text_lines acc (l @ newline @ rest) = (rev acc @ l) # text_lines [] rest"
  by (induction l arbitrary: acc) (auto simp: newline_def)

lemma visible_plain: "CHR 0x0A \<notin> set (visible nm)"
  by (auto simp: visible_def iscntrl_def dest: set_takeWhileD)

lemma dec_plain: "CHR 0x0A \<notin> set (dec n)"
proof -
  have "CHR 0x0A \<notin> set (num_str 10 n)"
  proof (induction n rule: less_induct)
    case (less n)
    have digit: "''0123456789abcdef'' ! k \<noteq> CHR 0x0A" if "k < 16" for k
      using that by (auto simp: less_Suc_eq numeral_eq_Suc)
    have "n mod 10 < 16"
      using mod_less_divisor [of 10 n] by linarith
    then show ?case
      using less digit [of "n mod 16"] digit [of "n mod 10 mod 16"] by (subst num_str.simps) auto
  qed
  then show ?thesis by (simp add: dec_def)
qed

lemma threshold_plain: "CHR 0x0A \<notin> set (threshold_label e)"
  using dec_plain by (auto simp: threshold_label_def dest: in_set_takeD)

lemma node_line_plain: "CHR 0x0A \<notin> set (node_line g i (visible nm))"
  using dec_plain visible_plain by (simp add: node_line_def Let_def tab_def quote_def)

lemma edge_line_plain: "CHR 0x0A \<notin> set (edge_line e (visible nm))"
  using dec_plain visible_plain threshold_plain by (simp add: edge_line_def edgeTypeStr_def tab_def quote_def)

lemma namebuf_visible:
  assumes "length nm < PGM_NODE_NAME_LEN"
  shows "namebuf nm = Some (visible nm)"
  using assms length_takeWhile_le [of "\<lambda>c. \<not> iscntrl c" nm]
  by (simp add: namebuf_def filter_ctrlchars_def visible_def std_string_def)

lemma print_each_lines:
  assumes "\<And>i. i \<in> set is \<Longrightarrow> length (name_of i) < PGM_NODE_NAME_LEN"
    and "\<And>i nm. CHR 0x0A \<notin> set (line i (visible nm))"
  shows "\<exists>out. print_each name_of line is = Some out \<and>
    (\<forall>rest. text_lines [] (out @ rest) = map (\<lambda>i. line i (visible (name_of i))) is @ text_lines [] rest)"
  using assms(1)
proof (induction "is")
  case (Cons i "is")
  then obtain out where "print_each name_of line is = Some out"
    "\<And>rest. text_lines [] (out @ rest) = map (\<lambda>i. line i (visible (name_of i))) is @ text_lines [] rest"
    by auto
  then show ?case
    using Cons.prems [of i] by (simp add: namebuf_visible text_lines_append [OF assms(2)])
qed simp

lemma graph_header_lines:
  "text_lines [] (concat (map (\<lambda>l. l @ newline) (graph_header (visible nm))) @ rest) =
     graph_header (visible nm) @ text_lines [] rest"
proof -
  have "text_lines [] (concat (map (\<lambda>l. l @ newline) ls) @ rest) = ls @ text_lines [] rest"
    if "\<forall>l \<in> set ls. CHR 0x0A \<notin> set l" for ls
    using that by (induction ls) (simp_all add: text_lines_append)
  moreover have "\<forall>l \<in> set (graph_header (visible nm)). CHR 0x0A \<notin> set l"
    using visible_plain [of nm] by (simp add: graph_header_def tab_def quote_def)
  ultimately show ?thesis by blast
qed

text \<open>
  C38: printing a live graph whose names are terminated succeeds, and the text has exactly the four lines of the
  header, one line for every node and one for every edge, in the order of the arrays, and the closing line:
  whatever characters the names contain, none of them starts a line of its own.
\<close>

theorem print_graph_lines:
  assumes "live_graph s graph" and "g = graph_of s graph" and "length (g_name g) < PGM_NODE_NAME_LEN"
    and "\<forall>i < nr_nodes g. length (n_name (nodes g i)) < PGM_NODE_NAME_LEN"
    and "\<forall>i < nr_edges g. length (e_name (edges g i)) < PGM_NODE_NAME_LEN"
  shows "\<exists>out. pgm_print_graph s graph = Some (0, out) \<and>
    text_lines [] out = graph_header (visible (g_name g)) @
      map (\<lambda>i. node_line g i (visible (n_name (nodes g i)))) [0..<nr_nodes g] @
      map (\<lambda>i. edge_line (edges g i) (visible (e_name (edges g i)))) [0..<nr_edges g] @ [''}'']"
proof -
  obtain ns where ns: "print_each (\<lambda>i. n_name (nodes g i)) (node_line g) [0..<nr_nodes g] = Some ns"
    "\<And>rest. text_lines [] (ns @ rest) =
      map (\<lambda>i. node_line g i (visible (n_name (nodes g i)))) [0..<nr_nodes g] @ text_lines [] rest"
    using print_each_lines [of "[0..<nr_nodes g]" "\<lambda>i. n_name (nodes g i)" "node_line g"] assms(4) node_line_plain by auto
  obtain es where es: "print_each (\<lambda>i. e_name (edges g i)) (\<lambda>i. edge_line (edges g i)) [0..<nr_edges g] = Some es"
    "\<And>rest. text_lines [] (es @ rest) =
      map (\<lambda>i. edge_line (edges g i) (visible (e_name (edges g i)))) [0..<nr_edges g] @ text_lines [] rest"
    using print_each_lines [of "[0..<nr_edges g]" "\<lambda>i. e_name (edges g i)" "\<lambda>i. edge_line (edges g i)"] assms(5)
      edge_line_plain by auto
  have "text_lines [] (''}'' @ newline) = [''}'']"
    by (simp add: newline_def)
  then show ?thesis
    using assms(1-3) ns es namebuf_visible [OF assms(3)] by (simp add: pgm_print_graph_def graph_header_lines)
qed

theorem print_graph_lines_witness:
  "\<exists>out. pgm_print_graph abc_state 0 = Some (0, out) \<and> length (text_lines [] out) = 4 + 3 + 2 + 1"
proof -
  have "g_name (cycle_graph ns) = ''g''" for ns
    by (simp add: cycle_graph_def)
  moreover have "length (n_name (nodes (cycle_graph [''a'', ''b'', ''c'']) i)) < PGM_NODE_NAME_LEN" if "i < 3" for i
    using abc_well_named that by (simp add: well_named_def cycle_edges)
  moreover have "length (e_name (edges (cycle_graph ns) i)) < PGM_NODE_NAME_LEN" for ns i
    by (simp add: cycle_edges cycle_edge_def full_edge_fields zero_edge_def PGM_NODE_NAME_LEN_def)
  ultimately show ?thesis
    using print_graph_lines [of abc_state 0 "cycle_graph [''a'', ''b'', ''c'']"]
    by (auto simp: cycle_state_live cycle_edges graph_header_def PGM_NODE_NAME_LEN_def)
qed

end
