(* ===== verification/Pgmrt_Parse.thy ===== *)
theory Pgmrt_Parse
  imports Double Pgm_Dag Pgm_Query "HOL-Library.Char_ord" "HOL-Library.List_Lexorder"
begin

text \<open>
  The graph descriptions of the program \<^verbatim>\<open>src/tools/pgmrt.cpp\<close>: \<open>make_edge_name\<close> and
  \<open>parse_graph_description\<close>, which turns a command-line string such as \<open>a.2:b.1.4,a:c\<close> into nodes and edges.

  The routines of Boost that the program calls (\<open>boost::split\<close> with \<open>is_any_of\<close>, \<open>lexical_cast\<close>, \<open>gcd\<close> and
  \<open>lcm\<close>) are the functions of the record \<open>boost\<close>; a cast that throws is \<open>None\<close>.  A routine of the program
  returns \<open>Inl\<close> the message of an exception it throws or \<open>Inr\<close> its result; it returns \<open>None\<close> when it uses a
  variable that no call has set.  The counter \<open>errors\<close> and the messages on \<open>stderr\<close> have no effect on
  anything else and are left out.  A \<open>std::set<std::string>\<close> is a set that is traversed in lexicographic order.
\<close>

section \<open>Boost\<close>

record boost =
  b_split :: "char set \<Rightarrow> string \<Rightarrow> string list"
  b_to_int :: "string \<Rightarrow> int option"
  b_to_uint64 :: "string \<Rightarrow> 64 word option"
  b_to_double :: "string \<Rightarrow> double option"
  b_gcd :: "64 word \<Rightarrow> 64 word \<Rightarrow> 64 word"
  b_lcm :: "64 word \<Rightarrow> 64 word \<Rightarrow> 64 word"

text \<open>What \<open>boost::split\<close> is documented to return: the pieces between the separators, empty ones included.\<close>

fun tokens :: "char set \<Rightarrow> string \<Rightarrow> string list" where
  "tokens ds [] = [[]]"
| "tokens ds (c # cs) =
     (if c \<in> ds then [] # tokens ds cs
      else case tokens ds cs of [] \<Rightarrow> [[c]] | t # ts \<Rightarrow> (c # t) # ts)"

definition split_law :: "boost \<Rightarrow> bool" where
  "split_law b \<longleftrightarrow> (\<forall>ds s. b_split b ds s = tokens ds s)"

section \<open>The parser\<close>

definition make_edge_name :: "string \<Rightarrow> string \<Rightarrow> string" where
  "make_edge_name a b = ''edge_'' @ a @ ''_'' @ b"

text \<open>The set of node names: the part before the first dot of every chunk.\<close>

fun collect_names :: "boost \<Rightarrow> string list \<Rightarrow> string set \<Rightarrow> string set option" where
  "collect_names b [] names = Some names"
| "collect_names b (chunk # chunks) names =
     (case b_split b {CHR ''.''} chunk of
        [] \<Rightarrow> None
      | tok # _ \<Rightarrow> collect_names b chunks (insert tok names))"

text \<open>
  One node per name.  When \<open>pgm_init_node\<close> fails its output variable stays uninitialised and is copied
  nevertheless.
\<close>

fun create_nodes ::
  "pid_t \<Rightarrow> graph_t \<Rightarrow> string list \<Rightarrow> (string \<rightharpoonup> node_t) \<Rightarrow> node_t list \<Rightarrow> 'w pgm_state \<Rightarrow>
   ((string \<rightharpoonup> node_t) \<times> node_t list \<times> 'w pgm_state) option"
where
  "create_nodes self g [] nodeMap ns s = Some (nodeMap, ns, s)"
| "create_nodes self g (nm # nms) nodeMap ns s =
     (case pgm_init_node self True g nm s of
        Some (_, Some n, s) \<Rightarrow> create_nodes self g nms (nodeMap(nm \<mapsto> n)) (ns @ [n]) s
      | _ \<Rightarrow> None)"

text \<open>The two ends of an edge: name and numbers.  The result is the name and the counts.\<close>

definition parse_produce :: "boost \<Rightarrow> string \<Rightarrow> (string + string \<times> int) option" where
  "parse_produce b end0 =
     (case b_split b {CHR ''.''} end0 of
        [] \<Rightarrow> Some (Inr (end0, 1))
      | [_] \<Rightarrow> Some (Inr (end0, 1))
      | [nm, k] \<Rightarrow>
          (case b_to_int b k of None \<Rightarrow> Some (Inl ''bad lexical cast'') | Some p \<Rightarrow> Some (Inr (nm, p)))
      | _ \<Rightarrow> Some (Inl (''Invalid produce description: '' @ end0)))"

definition parse_consume :: "boost \<Rightarrow> string \<Rightarrow> (string + string \<times> int \<times> int) option" where
  "parse_consume b end1 =
     (let tokenDesc = b_split b {CHR ''.''} end1 in
      if length tokenDesc > 1 then
        if length tokenDesc > 4 then Some (Inl (''Invalid consume description: '' @ end1))
        else (case b_to_int b (tokenDesc ! 1) of
            None \<Rightarrow> Some (Inl ''bad lexical cast'')
          | Some c \<Rightarrow>
              if length tokenDesc = 3 then
                (case b_to_int b (tokenDesc ! 2) of
                   None \<Rightarrow> Some (Inl ''bad lexical cast'')
                 | Some t \<Rightarrow> Some (Inr (tokenDesc ! 0, c, t)))
              else Some (Inr (tokenDesc ! 0, c, 1)))
      else Some (Inr (end1, 1, 1)))"

text \<open>\<open>nodeMap[name]\<close>: a name that is not in the map is inserted with a handle of zeros.\<close>

definition node_at :: "(string \<rightharpoonup> node_t) \<Rightarrow> string \<Rightarrow> node_t" where
  "node_at nodeMap nm = (case nodeMap nm of None \<Rightarrow> \<lparr>ngraph = 0, nnode = 0\<rparr> | Some n \<Rightarrow> n)"

definition cv_attr :: "int \<Rightarrow> int \<Rightarrow> int \<Rightarrow> edge_attr" where
  "cv_attr p c t = zero_attr\<lparr>etype := pgm_cv_edge, nr_produce := of_int p, nr_consume := of_int c,
     nr_threshold := of_int t\<rparr>"

fun create_edges ::
  "boost \<Rightarrow> 'w os \<Rightarrow> pid_t \<Rightarrow> (string \<rightharpoonup> node_t) \<Rightarrow> string list \<Rightarrow> edge_t list \<Rightarrow> 'w pgm_state \<Rightarrow>
   ((string + edge_t list) \<times> 'w pgm_state) option"
where
  "create_edges b os self nodeMap [] es s = Some (Inr es, s)"
| "create_edges b os self nodeMap (desc # descs) es s =
     (case b_split b {CHR '':''} desc of
        [] \<Rightarrow> None
      | [_] \<Rightarrow> create_edges b os self nodeMap descs es s
      | [end0, end1] \<Rightarrow>
          (case parse_produce b end0 of
             None \<Rightarrow> None
           | Some (Inl ex) \<Rightarrow> Some (Inl ex, s)
           | Some (Inr (p, nr_p)) \<Rightarrow>
               (case parse_consume b end1 of
                  None \<Rightarrow> None
                | Some (Inl ex) \<Rightarrow> Some (Inl ex, s)
                | Some (Inr (c, nr_c, nr_t)) \<Rightarrow>
                    (case pgm_init_edge os self True (node_at nodeMap p) (node_at nodeMap c)
                            (make_edge_name p c) (cv_attr nr_p nr_c nr_t) s of
                       Some (_, Some e, s) \<Rightarrow> create_edges b os self nodeMap descs (es @ [e]) s
                     | _ \<Rightarrow> None)))
      | _ \<Rightarrow> Some (Inl (''Invalid edge description: '' @ desc), s))"

definition parse_graph_description ::
  "boost \<Rightarrow> 'w os \<Rightarrow> pid_t \<Rightarrow> string \<Rightarrow> graph_t \<Rightarrow> 'w pgm_state \<Rightarrow>
   ((string + node_t list \<times> edge_t list) \<times> 'w pgm_state) option"
where
  "parse_graph_description b os self desc g s =
     (case collect_names b (b_split b {CHR '','', CHR '':''} desc) {} of
        None \<Rightarrow> None
      | Some names \<Rightarrow>
          (case create_nodes self g (sorted_list_of_set names) Map.empty [] s of
             None \<Rightarrow> None
           | Some (nodeMap, ns, s) \<Rightarrow>
               (case create_edges b os self nodeMap (b_split b {CHR '',''} desc) [] s of
                  None \<Rightarrow> None
                | Some (Inl ex, s) \<Rightarrow> Some (Inl ex, s)
                | Some (Inr es, s) \<Rightarrow>
                    (case pgm_is_dag s g True of
                       None \<Rightarrow> None
                     | Some r \<Rightarrow> Some (if r = 0 then Inl ''graph is not acyclic'' else Inr (ns, es), s)))))"

section \<open>Descriptions and their text\<close>

text \<open>
  An edge description: the name of the producer with its optional count, and the name of the consumer with its
  optional count and threshold.
\<close>

record edge_desc =
  ed_producer :: string
  ed_produce :: "string list"
  ed_consumer :: string
  ed_consume :: "string list"

fun dotted :: "string \<Rightarrow> string list \<Rightarrow> string" where
  "dotted nm [] = nm"
| "dotted nm (k # ks) = nm @ CHR ''.'' # dotted k ks"

definition show_edge :: "edge_desc \<Rightarrow> string" where
  "show_edge d = dotted (ed_producer d) (ed_produce d) @ CHR '':'' # dotted (ed_consumer d) (ed_consume d)"

fun show_desc :: "edge_desc list \<Rightarrow> string" where
  "show_desc [] = []"
| "show_desc [d] = show_edge d"
| "show_desc (d # ds) = show_edge d @ CHR '','' # show_desc ds"

definition desc_names :: "edge_desc list \<Rightarrow> string set" where
  "desc_names ds = ed_producer ` set ds \<union> ed_consumer ` set ds"

definition count_at :: "boost \<Rightarrow> string list \<Rightarrow> nat \<Rightarrow> int" where
  "count_at b ks i = (if i < length ks then the (b_to_int b (ks ! i)) else 1)"

definition desc_attr :: "boost \<Rightarrow> edge_desc \<Rightarrow> edge_attr" where
  "desc_attr b d = cv_attr (count_at b (ed_produce d) 0) (count_at b (ed_consume d) 0) (count_at b (ed_consume d) 1)"

abbreviation separators :: "char set" where
  "separators \<equiv> {CHR '','', CHR '':'', CHR ''.''}"

definition plain :: "string \<Rightarrow> bool" where
  "plain t \<longleftrightarrow> set t \<inter> separators = {}"

definition desc_ok :: "boost \<Rightarrow> edge_desc \<Rightarrow> bool" where
  "desc_ok b d \<longleftrightarrow> (\<forall>nm \<in> {ed_producer d, ed_consumer d}. nm \<noteq> [] \<and> plain nm \<and> length nm < PGM_NODE_NAME_LEN) \<and>
     length (ed_produce d) \<le> 1 \<and> length (ed_consume d) \<le> 2 \<and>
     (\<forall>k \<in> set (ed_produce d @ ed_consume d). plain k \<and> b_to_int b k \<noteq> None) \<and> edge_attr_ok (desc_attr b d)"

section \<open>Splitting\<close>

lemma tokens_nonempty [simp]: "tokens ds s \<noteq> []"
  by (induction s) (auto split: list.splits)

lemma tokens_free: "set s \<inter> ds = {} \<Longrightarrow> tokens ds s = [s]"
  by (induction s) auto

lemma tokens_append:
  assumes "set s \<inter> ds = {}" and "c \<in> ds"
  shows "tokens ds (s @ c # t) = s # tokens ds t"
  using assms by (induction s) auto

lemma tokens_prefix:
  assumes "set s \<inter> ds = {}"
  shows "tokens ds (s @ t) = (s @ hd (tokens ds t)) # tl (tokens ds t)"
  using assms by (induction s) (auto split: list.splits)

lemma tokens_glue:
  assumes "c \<in> ds"
  shows "tokens ds (s @ c # t) = tokens ds s @ tokens ds t"
  using assms by (induction s) (auto split: list.splits)

lemma tokens_dotted:
  assumes "plain nm" and "\<forall>k \<in> set ks. plain k"
  shows "tokens {CHR ''.''} (dotted nm ks) = nm # ks"
    and "ds \<subseteq> {CHR '','', CHR '':''} \<Longrightarrow> set (dotted nm ks) \<inter> ds = {}"
  using assms
  by (induction ks arbitrary: nm) (auto simp: plain_def tokens_append tokens_free)

lemma tokens_show_edge:
  assumes "desc_ok b d"
  shows "tokens {CHR '':''} (show_edge d) = [dotted (ed_producer d) (ed_produce d), dotted (ed_consumer d) (ed_consume d)]"
    and "tokens {CHR '',''} (show_edge d) = [show_edge d]"
    and "tokens {CHR '','', CHR '':''} (show_edge d) = [dotted (ed_producer d) (ed_produce d), dotted (ed_consumer d) (ed_consume d)]"
proof -
  have free: "set (dotted (ed_producer d) (ed_produce d)) \<inter> ds = {}" "set (dotted (ed_consumer d) (ed_consume d)) \<inter> ds = {}"
    if "ds \<subseteq> {CHR '','', CHR '':''}" for ds
    using assms tokens_dotted(2) [OF _ _ that] by (auto simp: desc_ok_def)
  show "tokens {CHR '':''} (show_edge d) = [dotted (ed_producer d) (ed_produce d), dotted (ed_consumer d) (ed_consume d)]"
    "tokens {CHR '','', CHR '':''} (show_edge d) = [dotted (ed_producer d) (ed_produce d), dotted (ed_consumer d) (ed_consume d)]"
    unfolding show_edge_def using free by (simp_all add: tokens_append tokens_free)
  show "tokens {CHR '',''} (show_edge d) = [show_edge d]"
    using free [of "{CHR '',''}"] by (intro tokens_free) (auto simp: show_edge_def)
qed

lemma tokens_show_desc:
  assumes "\<forall>d \<in> set ds. desc_ok b d" and "ds \<noteq> []"
  shows "tokens {CHR '',''} (show_desc ds) = map show_edge ds"
    and "tokens {CHR '','', CHR '':''} (show_desc ds) =
      concat (map (\<lambda>d. [dotted (ed_producer d) (ed_produce d), dotted (ed_consumer d) (ed_consume d)]) ds)"
  using assms
  by (induction ds rule: show_desc.induct) (simp_all add: tokens_show_edge [of b] tokens_glue)

lemma collect_names_desc:
  assumes "split_law b" and "\<forall>d \<in> set ds. desc_ok b d"
  shows "collect_names b (concat (map (\<lambda>d. [dotted (ed_producer d) (ed_produce d), dotted (ed_consumer d) (ed_consume d)]) ds)) names =
    Some (names \<union> desc_names ds)"
  using assms(2)
proof (induction ds arbitrary: names)
  case (Cons d ds)
  have "b_split b {CHR ''.''} (dotted (ed_producer d) (ed_produce d)) = ed_producer d # ed_produce d"
    "b_split b {CHR ''.''} (dotted (ed_consumer d) (ed_consume d)) = ed_consumer d # ed_consume d"
    using assms(1) Cons.prems by (simp_all add: split_law_def desc_ok_def tokens_dotted)
  then show ?case
    using Cons by (simp add: desc_names_def insert_commute)
qed (simp add: desc_names_def)

lemma parse_ends:
  assumes "split_law b" and "desc_ok b d"
  shows "parse_produce b (dotted (ed_producer d) (ed_produce d)) = Some (Inr (ed_producer d, count_at b (ed_produce d) 0))"
    and "parse_consume b (dotted (ed_consumer d) (ed_consume d)) =
      Some (Inr (ed_consumer d, count_at b (ed_consume d) 0, count_at b (ed_consume d) 1))"
proof -
  have s: "b_split b {CHR ''.''} (dotted (ed_producer d) (ed_produce d)) = ed_producer d # ed_produce d"
    "b_split b {CHR ''.''} (dotted (ed_consumer d) (ed_consume d)) = ed_consumer d # ed_consume d"
    using assms by (simp_all add: split_law_def desc_ok_def tokens_dotted)
  consider "ed_produce d = []" | k where "ed_produce d = [k]" "b_to_int b k \<noteq> None"
    using assms(2) by (cases "ed_produce d") (auto simp: desc_ok_def)
  then show "parse_produce b (dotted (ed_producer d) (ed_produce d)) = Some (Inr (ed_producer d, count_at b (ed_produce d) 0))"
    by cases (use s(1) in \<open>auto simp: parse_produce_def count_at_def\<close>)
  consider "ed_consume d = []" | k where "ed_consume d = [k]" "b_to_int b k \<noteq> None"
    | k t where "ed_consume d = [k, t]" "b_to_int b k \<noteq> None" "b_to_int b t \<noteq> None"
    using assms(2) by (cases "ed_consume d" rule: remdups_adj.cases) (auto simp: desc_ok_def)
  then show "parse_consume b (dotted (ed_consumer d) (ed_consume d)) =
      Some (Inr (ed_consumer d, count_at b (ed_consume d) 0, count_at b (ed_consume d) 1))"
    by cases (use s(2) in \<open>auto simp: parse_consume_def count_at_def\<close>)
qed

section \<open>Building the graph\<close>

text \<open>
  What the state is in between: the graph has the nodes \<open>nms\<close> in this order, and for each description that was
  processed one edge, in the order of the descriptions.
\<close>

definition edge_as :: "boost \<Rightarrow> pgm_graph \<Rightarrow> pgm_edge \<Rightarrow> edge_desc \<Rightarrow> bool" where
  "edge_as b g e d \<longleftrightarrow> e_producer e < nr_nodes g \<and> n_name (nodes g (e_producer e)) = ed_producer d \<and>
     e_consumer e < nr_nodes g \<and> n_name (nodes g (e_consumer e)) = ed_consumer d \<and> e_attr e = desc_attr b d \<and>
     \<not> e_is_backedge e \<and> e_nr_pending e = 0 \<and> e_name e = take PGM_EDGE_NAME_LEN (make_edge_name (ed_producer d) (ed_consumer d))"

definition graph_as :: "boost \<Rightarrow> pgm_graph \<Rightarrow> string list \<Rightarrow> edge_desc list \<Rightarrow> bool" where
  "graph_as b g nms ds \<longleftrightarrow> nr_nodes g = length nms \<and> (\<forall>j < length nms. n_name (nodes g j) = nms ! j) \<and>
     nr_edges g = length ds \<and> (\<forall>i < length ds. edge_as b g (edges g i) (ds ! i))"

definition building :: "pid_t \<Rightarrow> graph_t \<Rightarrow> 'w pgm_state \<Rightarrow> bool" where
  "building self h s \<longleftrightarrow> state_inv s \<and> live_graph s h \<and> gIsGraphMaster s self"

lemma init_node_builds:
  assumes "building self h s" and "graph_as b (graph_of s h) nms []"
    and "nm \<noteq> []" and "length nm < PGM_NODE_NAME_LEN" and "length nms + 1 < PGM_MAX_NODES"
  shows "\<exists>s'. pgm_init_node self True h nm s = Some (0, Some \<lparr>ngraph = h, nnode = int (length nms)\<rparr>, s') \<and>
    building self h s' \<and> graph_as b (graph_of s' h) (nms @ [nm]) []"
proof -
  let ?g = "graph_of s h"
  let ?n = "zero_node\<lparr>owner := UNCLAIMED_NODE, n_name := nm, sync_ready := True\<rparr>"
  let ?s = "set_graph h (?g\<lparr>nr_nodes := nr_nodes ?g + 1, nodes := (nodes ?g)(nr_nodes ?g := ?n)\<rparr>) s"
  have live: "live_graph s h"
    using assms(1) by (simp add: building_def)
  have run: "pgm_init_node self True h nm s = Some (0, Some \<lparr>ngraph = h, nnode = int (length nms)\<rparr>, ?s)"
    using assms by (simp add: pgm_init_node_def building_def graph_as_def strnlen_def strncpy_zeroed_def Let_def PGM_NODE_NAME_LEN_def)
  have "in_use ?g"
    using live by (elim live_graphD) simp
  then have "building self h ?s"
    using assms(1) pgm_init_node_inv [OF _ run] live by (simp add: building_def)
  moreover have "graph_as b (graph_of ?s h) (nms @ [nm]) []"
    using assms(2) live by (simp add: graph_as_def nth_append)
  ultimately show ?thesis
    using run by blast
qed

lemma create_nodes_builds:
  assumes "building self h s" and "graph_as b (graph_of s h) old []"
    and "\<forall>nm \<in> set nms. nm \<noteq> [] \<and> length nm < PGM_NODE_NAME_LEN" and "length old + length nms < PGM_MAX_NODES"
  shows "\<exists>s'. create_nodes self h nms m ns s =
      Some (m(nms [\<mapsto>] map (\<lambda>j. \<lparr>ngraph = h, nnode = int j\<rparr>) [length old..<length old + length nms]),
        ns @ map (\<lambda>j. \<lparr>ngraph = h, nnode = int j\<rparr>) [length old..<length old + length nms], s') \<and>
    building self h s' \<and> graph_as b (graph_of s' h) (old @ nms) []"
  using assms
proof (induction nms arbitrary: s old m ns)
  case (Cons nm nms)
  let ?hd = "\<lambda>j. \<lparr>ngraph = h, nnode = int j\<rparr>"
  obtain s1 where s1: "pgm_init_node self True h nm s = Some (0, Some (?hd (length old)), s1)"
    "building self h s1" "graph_as b (graph_of s1 h) (old @ [nm]) []"
    using init_node_builds [OF Cons.prems(1,2), of nm] Cons.prems(3,4) by auto
  have rest: "\<forall>nm \<in> set nms. nm \<noteq> [] \<and> length nm < PGM_NODE_NAME_LEN" "length (old @ [nm]) + length nms < PGM_MAX_NODES"
    using Cons.prems(3,4) by simp_all
  have upt: "[length old..<length old + length (nm # nms)] = length old # [Suc (length old)..<Suc (length old) + length nms]"
    using upt_conv_Cons [of "length old" "length old + length (nm # nms)"] by simp
  obtain s' where "create_nodes self h nms (m(nm \<mapsto> ?hd (length old))) (ns @ [?hd (length old)]) s1 =
      Some ((m(nm \<mapsto> ?hd (length old)))(nms [\<mapsto>] map ?hd [Suc (length old)..<Suc (length old) + length nms]),
        (ns @ [?hd (length old)]) @ map ?hd [Suc (length old)..<Suc (length old) + length nms], s')"
    "building self h s'" "graph_as b (graph_of s' h) ((old @ [nm]) @ nms) []"
    using Cons.IH [OF s1(2,3) rest, of "m(nm \<mapsto> ?hd (length old))" "ns @ [?hd (length old)]"]
    unfolding length_append_singleton by blast
  then show ?case
    unfolding upt using s1(1) by simp
qed simp

text \<open>In a graph built so far the degrees of a node are the numbers of descriptions that mention it.\<close>

lemma graph_as_degrees:
  assumes "graph_inv g" and "graph_as b g nms ds" and "distinct nms" and "j < length nms"
  shows "nr_out (nodes g j) = length (filter (\<lambda>d. ed_producer d = nms ! j) ds)"
    and "nr_in (nodes g j) = length (filter (\<lambda>d. ed_consumer d = nms ! j) ds)"
proof -
  have e: "linked g i \<and> (e_producer (edges g i) = j \<longleftrightarrow> ed_producer (ds ! i) = nms ! j) \<and>
      (e_consumer (edges g i) = j \<longleftrightarrow> ed_consumer (ds ! i) = nms ! j)" if "i < length ds" for i
  proof -
    have "edge_as b g (edges g i) (ds ! i)"
      using assms(2) that by (simp add: graph_as_def)
    moreover have "n_name (nodes g k) = nms ! k" if "k < nr_nodes g" for k
      using assms(2) that by (simp add: graph_as_def)
    moreover have "nr_nodes g = length nms"
      using assms(2) by (simp add: graph_as_def)
    ultimately show ?thesis
      using nth_eq_iff_index_eq [OF assms(3)] assms(4)
      by (auto simp: edge_as_def linked_def make_edge_name_def PGM_EDGE_NAME_LEN_def)
  qed
  have idx: "filter P ds = map ((!) ds) (filter (\<lambda>i. P (ds ! i)) [0..<length ds])" for P
    by (subst map_nth [symmetric]) (simp add: filter_map o_def)
  have ne: "nr_edges g = length ds"
    using assms(2) by (simp add: graph_as_def)
  have "out_edges g j = filter (\<lambda>i. ed_producer (ds ! i) = nms ! j) [0..<length ds]"
    "in_edges_of g j = filter (\<lambda>i. ed_consumer (ds ! i) = nms ! j) [0..<length ds]"
    unfolding out_edges_def in_edges_of_def ne by (rule filter_cong [OF refl], simp add: e)+
  then show "nr_out (nodes g j) = length (filter (\<lambda>d. ed_producer d = nms ! j) ds)"
    "nr_in (nodes g j) = length (filter (\<lambda>d. ed_consumer d = nms ! j) ds)"
    using graph_inv_lists(3,4) [OF assms(1), of j] assms(2,4) idx [of "\<lambda>d. ed_producer d = nms ! j"]
      idx [of "\<lambda>d. ed_consumer d = nms ! j"] by (simp_all add: graph_as_def)
qed

lemma init_cv_edge:
  fixes producer consumer :: node_t and s :: "'w pgm_state"
  defines "h \<equiv> ngraph producer"
  assumes "building self h s" and "can_link self producer consumer nm a s" and "etype a = pgm_cv_edge"
  shows "\<exists>s'. pgm_init_edge os self True producer consumer nm a s =
      Some (0, Some \<lparr>egraph = h, eedge = int (nr_edges (graph_of s h))\<rparr>, s') \<and> building self h s' \<and>
    nr_nodes (graph_of s' h) = nr_nodes (graph_of s h) \<and> (\<forall>j. n_name (nodes (graph_of s' h) j) = n_name (nodes (graph_of s h) j)) \<and>
    nr_edges (graph_of s' h) = nr_edges (graph_of s h) + 1 \<and>
    edges (graph_of s' h) = (edges (graph_of s h))(nr_edges (graph_of s h) :=
      (fresh_edge producer consumer nm a False 0)\<lparr>e_nr_pending := params a\<rparr>)"
proof -
  let ?g = "graph_of s h" and ?e = "fresh_edge producer consumer nm a False 0"
  let ?i = "nr_edges ?g"
  let ?l = "link_edge ?i ?e (?g\<lparr>nr_edges := ?i + 1\<rparr>)"
  let ?s = "set_graph h (upd_edge ?i (\<lambda>_. ?e\<lparr>e_nr_pending := params a\<rparr>) ?l) s"
  have live: "live_graph s h" and inv: "state_inv s"
    using assms(2) by (simp_all add: building_def)
  have "nr_nodes ?g \<le> PGM_MAX_NODES"
    using state_invD [OF inv live] by (simp add: graph_inv_def)
  moreover have "select_ops pgm_cv_edge = Some cv_edge_ops"
    by (simp add: select_ops_def edge_type_defs)
  ultimately have run: "init_edge os self True producer consumer nm a False 0 s = Some (0, Some \<lparr>egraph = h, eedge = int ?i\<rparr>, ?s)"
    using init_edge_link [OF assms(3), of os False 0] assms(4)
    by (simp add: h_def Let_def cv_create_def attr_nr_init_def)
  have "in_use ?g"
    using live by (elim live_graphD) simp
  then have "building self h ?s"
    using assms(2) init_edge_inv [OF inv run] live by (simp add: building_def upd_edge_def)
  then show ?thesis
    using run live by (intro exI [of _ ?s]) (simp add: pgm_init_edge_def upd_edge_def link_edge_nodes Let_def)
qed

text \<open>One description adds one edge.\<close>

lemma edge_as_cong:
  assumes "nr_nodes g' = nr_nodes g" and "\<And>j. n_name (nodes g' j) = n_name (nodes g j)"
  shows "edge_as b g' = edge_as b g"
  using assms by (intro ext) (simp add: edge_as_def)

lemma desc_edge_builds:
  fixes s :: "'w pgm_state"
  assumes "building self h s" and "graph_as b (graph_of s h) nms ds" and "distinct nms" and "desc_ok b d"
    and "p < length nms" and "nms ! p = ed_producer d" and "c < length nms" and "nms ! c = ed_consumer d"
    and "length ds + 1 < PGM_MAX_EDGES"
    and "length (filter (\<lambda>x. ed_producer x = ed_producer d) (ds @ [d])) < PGM_MAX_OUT_DEGREE"
    and "length (filter (\<lambda>x. ed_consumer x = ed_consumer d) (ds @ [d])) < PGM_MAX_IN_DEGREE"
  shows "\<exists>s'. pgm_init_edge os self True \<lparr>ngraph = h, nnode = int p\<rparr> \<lparr>ngraph = h, nnode = int c\<rparr>
      (make_edge_name (ed_producer d) (ed_consumer d)) (desc_attr b d) s =
      Some (0, Some \<lparr>egraph = h, eedge = int (length ds)\<rparr>, s') \<and> building self h s' \<and> graph_as b (graph_of s' h) nms (ds @ [d])"
proof -
  let ?p = "\<lparr>ngraph = h, nnode = int p\<rparr>" and ?c = "\<lparr>ngraph = h, nnode = int c\<rparr>"
  let ?g = "graph_of s h" and ?nm = "make_edge_name (ed_producer d) (ed_consumer d)" and ?a = "desc_attr b d"
  have live: "live_graph s h" and inv: "graph_inv ?g"
    using assms(1) state_invD by (auto simp: building_def)
  note deg = graph_as_degrees [OF inv assms(2,3)]
  have "nr_out (nodes ?g p) + 1 \<noteq> PGM_MAX_OUT_DEGREE" "nr_in (nodes ?g c) + 1 \<noteq> PGM_MAX_IN_DEGREE"
    using deg(1) [OF assms(5)] deg(2) [OF assms(7)] assms(6,8,10,11) by simp_all
  then have link: "can_link self ?p ?c ?nm ?a s"
    using assms(1,2,4,5,7,9) by (simp add: can_link_def building_def graph_as_def desc_ok_def make_edge_name_def Let_def)
  have "etype ?a = pgm_cv_edge" "params ?a = 0"
    by (simp_all add: desc_attr_def cv_attr_def zero_attr_def)
  then obtain s' where s': "pgm_init_edge os self True ?p ?c ?nm ?a s = Some (0, Some \<lparr>egraph = h, eedge = int (length ds)\<rparr>, s')"
    "building self h s'" "nr_nodes (graph_of s' h) = nr_nodes ?g"
    "\<And>j. n_name (nodes (graph_of s' h) j) = n_name (nodes ?g j)" "nr_edges (graph_of s' h) = length ds + 1"
    "edges (graph_of s' h) = (edges ?g)(length ds := (fresh_edge ?p ?c ?nm ?a False 0)\<lparr>e_nr_pending := 0\<rparr>)"
    using init_cv_edge [OF _ link, of os] assms(1,2) by (auto simp: graph_as_def)
  have "edge_as b (graph_of s' h) (edges (graph_of s' h) i) ((ds @ [d]) ! i)" if "i < length ds + 1" for i
    using assms(2,5-8) that unfolding edge_as_cong [OF s'(3,4)] s'(6)
    by (auto simp: graph_as_def nth_append edge_as_def)
  then have "graph_as b (graph_of s' h) nms (ds @ [d])"
    using assms(2) s'(3-5) by (simp add: graph_as_def)
  then show ?thesis
    using s'(1,2) by blast
qed

abbreviation node_handles :: "graph_t \<Rightarrow> nat \<Rightarrow> node_t list" where
  "node_handles h n \<equiv> map (\<lambda>j. \<lparr>ngraph = h, nnode = int j\<rparr>) [0..<n]"

lemma node_at_handles:
  assumes "distinct nms" and "p < length nms"
  shows "node_at (Map.empty(nms [\<mapsto>] node_handles h (length nms))) (nms ! p) = \<lparr>ngraph = h, nnode = int p\<rparr>"
proof -
  have "distinct (map fst (rev (zip nms (node_handles h (length nms)))))"
    using assms(1) by (simp add: rev_map [symmetric])
  moreover have "(nms ! p, \<lparr>ngraph = h, nnode = int p\<rparr>) \<in> set (zip nms (node_handles h (length nms)))"
    using assms(2) by (auto simp: set_zip intro!: exI [of _ p])
  ultimately have "(Map.empty(nms [\<mapsto>] node_handles h (length nms))) (nms ! p) = Some \<lparr>ngraph = h, nnode = int p\<rparr>"
    unfolding map_upds_def by (simp add: map_of_eq_Some_iff)
  then show ?thesis
    by (simp add: node_at_def)
qed

definition degrees_ok :: "edge_desc list \<Rightarrow> bool" where
  "degrees_ok ds \<longleftrightarrow> (\<forall>nm. length (filter (\<lambda>d. ed_producer d = nm) ds) < PGM_MAX_OUT_DEGREE \<and>
     length (filter (\<lambda>d. ed_consumer d = nm) ds) < PGM_MAX_IN_DEGREE)"

lemma degrees_ok_prefix: "degrees_ok (ds @ ds') \<Longrightarrow> degrees_ok ds"
  unfolding degrees_ok_def filter_append length_append by (metis add_lessD1)

lemma create_edges_builds:
  fixes s :: "'w pgm_state"
  assumes "split_law b" and "distinct nms" and "building self h s" and "graph_as b (graph_of s h) nms done"
    and "\<forall>d \<in> set ds. desc_ok b d" and "desc_names ds \<subseteq> set nms"
    and "length done + length ds < PGM_MAX_EDGES" and "degrees_ok (done @ ds)"
  shows "\<exists>s'. create_edges b os self (Map.empty(nms [\<mapsto>] node_handles h (length nms))) (map show_edge ds) es s =
      Some (Inr (es @ map (\<lambda>i. \<lparr>egraph = h, eedge = int i\<rparr>) [length done..<length done + length ds]), s') \<and>
    building self h s' \<and> graph_as b (graph_of s' h) nms (done @ ds)"
  using assms(3-8)
proof (induction ds arbitrary: s "done" es)
  case (Cons d ds)
  let ?m = "Map.empty(nms [\<mapsto>] node_handles h (length nms))" and ?eh = "\<lambda>i. \<lparr>egraph = h, eedge = int i\<rparr>"
  obtain p c where pc: "p < length nms" "nms ! p = ed_producer d" "c < length nms" "nms ! c = ed_consumer d"
    using Cons.prems(4) by (auto simp: desc_names_def in_set_conv_nth)
  have ok: "desc_ok b d" and deg: "degrees_ok (done @ [d])"
    using Cons.prems(3,6) degrees_ok_prefix [of "done @ [d]" ds] by simp_all
  have deg': "length (filter (\<lambda>x. ed_producer x = ed_producer d) (done @ [d])) < PGM_MAX_OUT_DEGREE"
    "length (filter (\<lambda>x. ed_consumer x = ed_consumer d) (done @ [d])) < PGM_MAX_IN_DEGREE"
    using deg unfolding degrees_ok_def by blast+
  obtain s1 where s1: "pgm_init_edge os self True \<lparr>ngraph = h, nnode = int p\<rparr> \<lparr>ngraph = h, nnode = int c\<rparr>
      (make_edge_name (ed_producer d) (ed_consumer d)) (desc_attr b d) s = Some (0, Some (?eh (length done)), s1)"
    "building self h s1" "graph_as b (graph_of s1 h) nms (done @ [d])"
    using desc_edge_builds [OF Cons.prems(1,2) assms(2) ok pc _ deg', of os] Cons.prems(5) by auto
  have step: "create_edges b os self ?m (map show_edge (d # ds)) es s = create_edges b os self ?m (map show_edge ds) (es @ [?eh (length done)]) s1"
  proof -
    have "b_split b {CHR '':''} (show_edge d) = [dotted (ed_producer d) (ed_produce d), dotted (ed_consumer d) (ed_consume d)]"
      using assms(1) tokens_show_edge(1) [OF ok] by (simp add: split_law_def)
    then show ?thesis
      using s1(1) node_at_handles [OF assms(2) pc(1), of h, unfolded pc(2)] node_at_handles [OF assms(2) pc(3), of h, unfolded pc(4)]
      by (simp add: parse_ends [OF assms(1) ok] desc_attr_def del: fun_upd_apply)
  qed
  have rest: "\<forall>d \<in> set ds. desc_ok b d" "desc_names ds \<subseteq> set nms" "length (done @ [d]) + length ds < PGM_MAX_EDGES"
    "degrees_ok ((done @ [d]) @ ds)"
    using Cons.prems(3-6) by (auto simp: desc_names_def)
  have upt: "[length done..<length done + length (d # ds)] = length done # [length (done @ [d])..<length (done @ [d]) + length ds]"
    using upt_conv_Cons [of "length done" "length done + length (d # ds)"] by simp
  show ?case
    unfolding step upt using Cons.IH [OF s1(2,3) rest, of "es @ [?eh (length done)]"] by simp
qed simp

lemma acyclic_inv_image: "acyclic r \<Longrightarrow> r' \<subseteq> inv_image r f \<Longrightarrow> acyclic r'"
proof -
  assume r: "acyclic r" "r' \<subseteq> inv_image r f"
  have "(f x, f y) \<in> r\<^sup>+" if "(x, y) \<in> r'\<^sup>+" for x y
    using that by (induction rule: trancl_induct) (use r(2) in \<open>auto intro: trancl_into_trancl\<close>)
  then show "acyclic r'"
    using r(1) by (auto simp: acyclic_def)
qed

definition desc_rel :: "edge_desc list \<Rightarrow> string rel" where
  "desc_rel ds = (\<lambda>d. (ed_producer d, ed_consumer d)) ` set ds"

lemma graph_as_acyclic:
  assumes "graph_inv g" and "graph_as b g nms ds" and "distinct nms"
  shows "acyclic (succ_rel g True) \<longleftrightarrow> acyclic (desc_rel ds)"
proof
  have e: "edge_as b g (edges g i) (ds ! i)" "linked g i" if "i < length ds" for i
    using assms(2) that by (auto simp: graph_as_def edge_as_def linked_def make_edge_name_def PGM_EDGE_NAME_LEN_def)
  have nms: "n_name (nodes g j) = nms ! j" "nr_nodes g = length nms" if "j < nr_nodes g" for j
    using assms(2) that by (auto simp: graph_as_def)
  assume "acyclic (succ_rel g True)"
  moreover have "desc_rel ds \<subseteq> inv_image (succ_rel g True) (\<lambda>nm. THE j. j < length nms \<and> nms ! j = nm)"
  proof -
    have the: "(THE k. k < length nms \<and> nms ! k = nms ! j) = j" if "j < length nms" for j
      using that assms(3) nth_eq_iff_index_eq by (intro the_equality) auto
    show ?thesis
    proof (clarsimp simp: desc_rel_def in_set_conv_nth)
      fix i assume i: "i < length ds"
      let ?e = "edges g i"
      have "e_producer ?e < length nms" "nms ! e_producer ?e = ed_producer (ds ! i)"
        "e_consumer ?e < length nms" "nms ! e_consumer ?e = ed_consumer (ds ! i)" "\<not> e_is_backedge ?e"
        using e(1) [OF i] nms by (auto simp: edge_as_def)
      then show "(THE j. j < length nms \<and> nms ! j = ed_producer (ds ! i), THE j. j < length nms \<and> nms ! j = ed_consumer (ds ! i))
          \<in> succ_rel g True"
        using the [of "e_producer ?e"] the [of "e_consumer ?e"] e(2) [OF i] unfolding succ_rel_def by auto
    qed
  qed
  ultimately show "acyclic (desc_rel ds)"
    by (rule acyclic_inv_image)
next
  assume "acyclic (desc_rel ds)"
  moreover have "succ_rel g True \<subseteq> inv_image (desc_rel ds) (\<lambda>j. n_name (nodes g j))"
  proof (clarsimp simp: succ_rel_def)
    fix i assume "linked g i"
    then have "i < length ds" "edge_as b g (edges g i) (ds ! i)"
      using linkedD(1) [OF assms(1)] assms(2) by (auto simp: graph_as_def)
    then show "(n_name (nodes g (e_producer (edges g i))), n_name (nodes g (e_consumer (edges g i)))) \<in> desc_rel ds"
      unfolding desc_rel_def by (intro image_eqI [of _ _ "ds ! i"]) (auto simp: edge_as_def)
  qed
  ultimately show "acyclic (succ_rel g True)"
    by (rule acyclic_inv_image)
qed

lemma finite_desc_names [simp]: "finite (desc_names ds)"
  by (simp add: desc_names_def)

lemma graph_as_empty: "nr_nodes g = 0 \<Longrightarrow> nr_edges g = 0 \<Longrightarrow> graph_as b g [] []"
  by (simp add: graph_as_def)

lemma description_builds:
  fixes s :: "'w pgm_state"
  defines "nms \<equiv> \<lambda>ds. sorted_list_of_set (desc_names ds)"
  assumes "split_law b" and "building self h s" and "nr_nodes (graph_of s h) = 0" and "nr_edges (graph_of s h) = 0"
    and "ds \<noteq> []" and "\<forall>d \<in> set ds. desc_ok b d" and "card (desc_names ds) < PGM_MAX_NODES"
    and "length ds < PGM_MAX_EDGES" and "degrees_ok ds"
  shows "\<exists>s'. parse_graph_description b os self (show_desc ds) h s =
      Some (if acyclic (desc_rel ds) then Inr (node_handles h (card (desc_names ds)), map (\<lambda>i. \<lparr>egraph = h, eedge = int i\<rparr>) [0..<length ds])
            else Inl ''graph is not acyclic'', s') \<and>
    building self h s' \<and> graph_as b (graph_of s' h) (nms ds) ds"
proof -
  have len: "length (nms ds) = card (desc_names ds)" and set: "set (nms ds) = desc_names ds" and dist: "distinct (nms ds)"
    by (simp_all add: nms_def)
  have names: "\<forall>nm \<in> set (nms ds). nm \<noteq> [] \<and> length nm < PGM_NODE_NAME_LEN"
    unfolding set using assms(7) by (auto simp: desc_names_def desc_ok_def)
  obtain s1 where s1: "create_nodes self h (nms ds) Map.empty [] s =
      Some (Map.empty(nms ds [\<mapsto>] node_handles h (length (nms ds))), node_handles h (length (nms ds)), s1)"
    "building self h s1" "graph_as b (graph_of s1 h) (nms ds) []"
    using create_nodes_builds [OF assms(3) graph_as_empty [OF assms(4,5), of b] names, of Map.empty "[]"] assms(8) len by auto
  obtain s2 where s2: "create_edges b os self (Map.empty(nms ds [\<mapsto>] node_handles h (length (nms ds)))) (map show_edge ds) [] s1 =
      Some (Inr (map (\<lambda>i. \<lparr>egraph = h, eedge = int i\<rparr>) [0..<length ds]), s2)"
    "building self h s2" "graph_as b (graph_of s2 h) (nms ds) ds"
    using create_edges_builds [OF assms(2) dist s1(2,3) assms(7), of os "[]"] assms(9,10) set by auto
  have inv: "state_inv s2" "live_graph s2 h" "graph_inv (graph_of s2 h)"
    using s2(2) state_invD by (auto simp: building_def)
  have "well_named (graph_of s2 h)"
    using s2(3) dist names by (auto simp: well_named_def graph_as_def inj_on_def nth_eq_iff_index_eq)
  then have "pgm_is_dag s2 h True = Some (if acyclic (desc_rel ds) then 1 else 0)"
    using pgm_is_dag_acyclic [OF inv(1,2)] graph_as_acyclic [OF inv(3) s2(3) dist] by simp
  moreover have "collect_names b (b_split b {CHR '','', CHR '':''} (show_desc ds)) {} = Some (desc_names ds)"
    "b_split b {CHR '',''} (show_desc ds) = map show_edge ds"
    using assms(2) tokens_show_desc [OF assms(7,6)] collect_names_desc [OF assms(2,7), of "{}"] by (simp_all add: split_law_def)
  ultimately have "parse_graph_description b os self (show_desc ds) h s =
      Some (if acyclic (desc_rel ds) then Inr (node_handles h (card (desc_names ds)), map (\<lambda>i. \<lparr>egraph = h, eedge = int i\<rparr>) [0..<length ds])
            else Inl ''graph is not acyclic'', s2)"
    using s1(1) s2(1) len unfolding parse_graph_description_def nms_def by simp
  then show ?thesis
    using s2(2,3) by blast
qed

text \<open>
  C13: a description that is written as the help text says is read back.  In an empty graph the parser makes one
  node per name, in lexicographic order, and one edge per description with its ends and counts, and returns their
  handles; it reports an error exactly when the described edges form a cycle.
\<close>

theorem description_roundtrip:
  fixes s :: "'w pgm_state"
  assumes "split_law b" and "state_inv s" and "live_graph s h" and "gIsGraphMaster s self"
    and "nr_nodes (graph_of s h) = 0" and "nr_edges (graph_of s h) = 0"
    and "ds \<noteq> []" and "\<forall>d \<in> set ds. desc_ok b d" and "card (desc_names ds) < PGM_MAX_NODES"
    and "length ds < PGM_MAX_EDGES" and "degrees_ok ds"
  shows "\<exists>s' g'. parse_graph_description b os self (show_desc ds) h s =
      Some (if acyclic (desc_rel ds) then Inr (node_handles h (nr_nodes g'), map (\<lambda>i. \<lparr>egraph = h, eedge = int i\<rparr>) [0..<nr_edges g'])
            else Inl ''graph is not acyclic'', s') \<and>
    g' = graph_of s' h \<and> map (\<lambda>j. n_name (nodes g' j)) [0..<nr_nodes g'] = sorted_list_of_set (desc_names ds) \<and>
    nr_edges g' = length ds \<and> (\<forall>i < length ds. edge_as b g' (edges g' i) (ds ! i))"
proof -
  have "building self h s"
    using assms(2-4) by (simp add: building_def)
  then obtain s' where s': "parse_graph_description b os self (show_desc ds) h s =
      Some (if acyclic (desc_rel ds) then Inr (node_handles h (card (desc_names ds)), map (\<lambda>i. \<lparr>egraph = h, eedge = int i\<rparr>) [0..<length ds])
            else Inl ''graph is not acyclic'', s')"
    "graph_as b (graph_of s' h) (sorted_list_of_set (desc_names ds)) ds"
    using description_builds [OF assms(1) _ assms(5-11)] by blast
  then have "map (\<lambda>j. n_name (nodes (graph_of s' h) j)) [0..<nr_nodes (graph_of s' h)] = sorted_list_of_set (desc_names ds)"
    by (intro nth_equalityI) (simp_all add: graph_as_def)
  then show ?thesis
    using s' by (intro exI [of _ s'] exI [of _ "graph_of s' h"]) (simp add: graph_as_def)
qed

section \<open>Forms that are documented and fail\<close>

lemma create_nodes_unnamed: "[] \<in> set nms \<Longrightarrow> create_nodes self h nms m ns s = None"
proof (induction nms arbitrary: m ns s)
  case (Cons nm nms)
  have "n = None" if "pgm_init_node self True h [] s = Some (r, n, s')" for r n s'
    using that by (auto simp: pgm_init_node_def with_graph_def strnlen_def split: option.splits if_splits)
  then show ?case
    using Cons by (auto split: option.splits)
qed simp

lemma parse_unnamed:
  assumes "split_law b" and "[] \<in> set (tokens {CHR '','', CHR '':''} desc)"
  shows "parse_graph_description b os self desc h s = None"
proof -
  have "\<exists>names. collect_names b chunks acc = Some names \<and> finite names \<and> acc \<subseteq> names \<and> ([] \<in> set chunks \<longrightarrow> [] \<in> names)"
    if "finite acc" for chunks acc
    using that
  proof (induction chunks arbitrary: acc)
    case (Cons c chunks)
    obtain t ts where t: "tokens {CHR ''.''} c = t # ts"
      using tokens_nonempty by (metis list.exhaust)
    moreover have "c = [] \<Longrightarrow> t = []"
      using t by simp
    ultimately show ?case
      using Cons.IH [of "insert t acc"] Cons.prems assms(1) by (auto simp: split_law_def)
  qed simp
  then obtain names where "collect_names b (b_split b {CHR '','', CHR '':''} desc) {} = Some names" "finite names" "[] \<in> names"
    using assms unfolding split_law_def by (metis finite.emptyI)
  then show ?thesis
    by (simp add: parse_graph_description_def create_nodes_unnamed)
qed

lemma tokens_last_sep: "c \<in> ds \<Longrightarrow> [] \<in> set (tokens ds (s @ [c]))"
  by (simp add: tokens_glue)

lemma edge_attr_refused:
  assumes "\<not> edge_attr_ok a" and "pgm_init_edge os self True p c nm a s = Some (r, e, s')"
  shows "e = None"
  using assms unfolding pgm_init_edge_def init_edge_def with_graph_def
  by (auto simp: Let_def split: option.splits if_splits)

lemma create_edges_refused:
  assumes "split_law b" and "desc_ok b (d\<lparr>ed_consume := []\<rparr>)" and "ed_consume d = [k]" and "plain k"
    and "b_to_int b k = Some c" and "1 < c" and "c < 2 ^ 31"
  shows "create_edges b os self m (show_edge d # descs) es s = None"
proof -
  let ?fin = "dotted (ed_consumer d) [k]"
  have plain: "plain (ed_producer d)" "plain (ed_consumer d)" "\<forall>k \<in> set (ed_produce d). plain k"
    using assms(2) by (simp_all add: desc_ok_def)
  have free: "set (dotted (ed_producer d) (ed_produce d)) \<inter> {CHR '':''} = {}" "set ?fin \<inter> {CHR '':''} = {}"
    using tokens_dotted(2) [OF plain(1,3), of "{CHR '':''}"] tokens_dotted(2) [OF plain(2), of "[k]" "{CHR '':''}"] assms(4) by simp_all
  have "b_split b {CHR '':''} (show_edge d) = [dotted (ed_producer d) (ed_produce d), ?fin]"
    using assms(1,3) free by (simp add: split_law_def show_edge_def tokens_append tokens_free)
  moreover have "b_split b {CHR ''.''} ?fin = [ed_consumer d, k]"
    using assms(1,4) plain(2) tokens_dotted(1) [of "ed_consumer d" "[k]"] by (simp add: split_law_def)
  then have "parse_consume b ?fin = Some (Inr (ed_consumer d, c, 1))"
    using assms(5) by (simp add: parse_consume_def Let_def)
  moreover have "parse_produce b (dotted (ed_producer d) (ed_produce d)) = Some (Inr (ed_producer d, count_at b (ed_produce d) 0))"
    using parse_ends(1) [OF assms(1,2)] by simp
  moreover have "\<not> edge_attr_ok (cv_attr p c 1)" for p
  proof -
    obtain n where n: "c = int n"
      using assms(6) zero_le_imp_eq_int [of c] by auto
    then have "n < 2 ^ 64" "1 < n"
      using assms(6,7) by simp_all
    then have "(1 :: 64 word) < of_int c"
      unfolding n by (simp add: word_less_nat_alt unat_of_nat)
    then show ?thesis
      by (simp add: edge_attr_ok_def cv_attr_def)
  qed
  ultimately show ?thesis
    by (fastforce split: option.splits dest: edge_attr_refused)
qed

text \<open>
  C39: three forms that the help text of the option documents are not handled: \<open>name:\<close> for a graph with a single
  node, a description that ends with a comma, and an edge that consumes more than one token and gives no
  threshold.  In each case \<open>pgm_init_node\<close> or \<open>pgm_init_edge\<close> fails and a handle that was never set is used.
\<close>

theorem documented_forms_undefined:
  assumes "split_law b"
  shows "parse_graph_description b os self (nm @ '':'') h s = None \<and>
    parse_graph_description b os self (desc @ '','') h s = None \<and>
    (desc_ok b d \<and> ed_consume d = [] \<and> plain k \<and> b_to_int b k = Some c \<and> 1 < c \<and> c < 2 ^ 31 \<longrightarrow>
      parse_graph_description b os self (show_edge (d\<lparr>ed_consume := [k]\<rparr>)) h s = None)"
proof (intro conjI)
  show "parse_graph_description b os self (nm @ '':'') h s = None" "parse_graph_description b os self (desc @ '','') h s = None"
    by (rule parse_unnamed [OF assms tokens_last_sep], simp)+
  show "desc_ok b d \<and> ed_consume d = [] \<and> plain k \<and> b_to_int b k = Some c \<and> 1 < c \<and> c < 2 ^ 31 \<longrightarrow>
      parse_graph_description b os self (show_edge (d\<lparr>ed_consume := [k]\<rparr>)) h s = None"
  proof clarify
    let ?d = "d\<lparr>ed_consume := [k]\<rparr>"
    assume d: "desc_ok b d" "ed_consume d = []" "plain k" "b_to_int b k = Some c" "1 < c" "c < 2 ^ 31"
    then have same: "?d\<lparr>ed_consume := []\<rparr> = d"
      by simp
    have plain: "plain (ed_producer d)" "plain (ed_consumer d)" "\<forall>k \<in> set (ed_produce d). plain k"
      using d(1) by (simp_all add: desc_ok_def)
    have "set (show_edge ?d) \<inter> {CHR '',''} = {}"
      using tokens_dotted(2) [OF plain(1,3), of "{CHR '',''}"] tokens_dotted(2) [OF plain(2), of "[k]" "{CHR '',''}"] d(3)
      by (auto simp: show_edge_def)
    then have "b_split b {CHR '',''} (show_edge ?d) = [show_edge ?d]"
      using assms by (simp add: split_law_def tokens_free)
    moreover have "create_edges b os self m (show_edge ?d # []) es t = None" for m es t
      using create_edges_refused [OF assms, of ?d k c] d same by simp
    ultimately show "parse_graph_description b os self (show_edge ?d) h s = None"
      unfolding parse_graph_description_def by (simp split: option.splits prod.splits)
  qed
qed

section \<open>Examples\<close>

definition demo_boost :: boost where
  "demo_boost = \<lparr>b_split = tokens, b_to_int = map_of [(''1'', 1), (''2'', 2), (''4'', 4)],
     b_to_uint64 = map_of [(''1'', 1), (''2'', 2)], b_to_double = map_of [(''10'', Some 10), (''20'', Some 20)],
     b_gcd = (\<lambda>x y. of_nat (gcd (unat x) (unat y))), b_lcm = (\<lambda>x y. of_nat (lcm (unat x) (unat y)))\<rparr>"

text \<open>An empty graph.\<close>

definition one_graph :: "addr pgm_state" where
  "one_graph = sample_state\<lparr>gGraphs := Some ((\<lambda>_. zero_graph)(0 := zero_graph\<lparr>in_use := True, g_name := ''g''\<rparr>))\<rparr>"

lemma one_graph_building: "building 1 0 one_graph" "graph_of one_graph 0 = zero_graph\<lparr>in_use := True, g_name := ''g''\<rparr>"
proof -
  have g: "graph_of one_graph 0 = zero_graph\<lparr>in_use := True, g_name := ''g''\<rparr>"
    by (simp add: graph_of_def one_graph_def)
  have live: "live_graph one_graph h \<longleftrightarrow> h = 0" for h
    by (auto simp: live_graph_def is_valid_graph_def is_valid_handle_def one_graph_def zero_graph_def PGM_MAX_GRAPHS_def split: if_splits)
  then have "state_inv one_graph"
    using graph_inv_empty [where b = True and nm = "''g''"] by (simp add: state_inv_def g)
  then show "building 1 0 one_graph" "graph_of one_graph 0 = zero_graph\<lparr>in_use := True, g_name := ''g''\<rparr>"
    using live g by (simp_all add: building_def one_graph_def sample_state_def)
qed

definition demo_descs :: "edge_desc list" where
  "demo_descs = [\<lparr>ed_producer = ''b'', ed_produce = [''2''], ed_consumer = ''a'', ed_consume = [''1'', ''4'']\<rparr>,
     \<lparr>ed_producer = ''b'', ed_produce = [], ed_consumer = ''c'', ed_consume = []\<rparr>]"

lemma demo_descs_ok: "\<forall>d \<in> set demo_descs. desc_ok demo_boost d"
proof -
  have "edge_attr_ok (cv_attr 2 1 4)" "edge_attr_ok (cv_attr 1 1 1)"
    by (simp_all add: cv_attr_def edge_attr_ok_def zero_attr_def edge_type_defs word_less_nat_alt)
  then show ?thesis
    by (simp add: demo_descs_def desc_ok_def plain_def demo_boost_def desc_attr_def count_at_def PGM_NODE_NAME_LEN_def)
qed

lemma demo_names: "desc_names demo_descs = {''a'', ''b'', ''c''}"
  by (simp add: desc_names_def demo_descs_def insert_commute)

lemma demo_degrees: "degrees_ok demo_descs"
  unfolding degrees_ok_def pgm_limits
proof
  fix nm
  have "length (filter P demo_descs) \<le> 2" for P
    using length_filter_le [of P demo_descs] by (simp add: demo_descs_def)
  from this [of "\<lambda>d. ed_producer d = nm"] this [of "\<lambda>d. ed_consumer d = nm"]
  show "length (filter (\<lambda>d. ed_producer d = nm) demo_descs) < 32 \<and> length (filter (\<lambda>d. ed_consumer d = nm) demo_descs) < 32"
    by linarith
qed

lemma demo_acyclic: "acyclic (desc_rel demo_descs)"
proof -
  have "desc_rel demo_descs \<subseteq> measure (\<lambda>s. if s = ''b'' then 0 else 1)"
    by (simp add: desc_rel_def demo_descs_def)
  then show ?thesis
    by (rule acyclic_subset [rotated]) (simp add: wf_acyclic)
qed

theorem description_roundtrip_witness:
  "\<exists>s'. show_desc demo_descs = ''b.2:a.1.4,b:c'' \<and>
    parse_graph_description demo_boost sample_os 1 (show_desc demo_descs) 0 one_graph =
      Some (Inr (node_handles 0 3, [\<lparr>egraph = 0, eedge = 0\<rparr>, \<lparr>egraph = 0, eedge = 1\<rparr>]), s') \<and>
    map (\<lambda>j. n_name (nodes (graph_of s' 0) j)) [0..<3] = [''a'', ''b'', ''c'']"
proof -
  have laws: "split_law demo_boost" "state_inv one_graph" "live_graph one_graph 0" "gIsGraphMaster one_graph 1"
    "nr_nodes (graph_of one_graph 0) = 0" "nr_edges (graph_of one_graph 0) = 0"
    using one_graph_building by (simp_all add: split_law_def demo_boost_def building_def zero_graph_def)
  have shown: "show_desc demo_descs = ''b.2:a.1.4,b:c''" and "demo_descs \<noteq> []" "length demo_descs = 2"
    by (simp_all add: demo_descs_def show_edge_def)
  moreover have sorted: "sorted_list_of_set {''a'', ''b'', ''c''} = [''a'', ''b'', ''c'']"
    by (simp add: less_char_def)
  ultimately obtain s' where s': "parse_graph_description demo_boost sample_os 1 (show_desc demo_descs) 0 one_graph =
      Some (Inr (node_handles 0 (nr_nodes (graph_of s' 0)), map (\<lambda>i. \<lparr>egraph = 0, eedge = int i\<rparr>) [0..<nr_edges (graph_of s' 0)]), s')"
    "map (\<lambda>j. n_name (nodes (graph_of s' 0) j)) [0..<nr_nodes (graph_of s' 0)] = [''a'', ''b'', ''c'']" "nr_edges (graph_of s' 0) = 2"
    using description_roundtrip [OF laws _ demo_descs_ok _ _ demo_degrees, of sample_os] demo_acyclic
    unfolding demo_names sorted by (auto simp: pgm_limits)
  have "nr_nodes (graph_of s' 0) = 3"
    using arg_cong [OF s'(2), of length] by simp
  then show ?thesis
    using s' shown by (intro exI [of _ s']) (simp add: upt_rec)
qed

theorem documented_forms_undefined_witness:
  "parse_graph_description demo_boost sample_os 1 ''a:'' 0 one_graph = None \<and>
   parse_graph_description demo_boost sample_os 1 ''b.2:a.1.4,b:c,'' 0 one_graph = None \<and>
   parse_graph_description demo_boost sample_os 1 ''b:c.2'' 0 one_graph = None"
proof -
  have law: "split_law demo_boost"
    by (simp add: split_law_def demo_boost_def)
  let ?d = "\<lparr>ed_producer = ''b'', ed_produce = [], ed_consumer = ''c'', ed_consume = []\<rparr>"
  have "desc_ok demo_boost ?d"
    using demo_descs_ok by (simp add: demo_descs_def)
  moreover have "plain ''2''" "b_to_int demo_boost ''2'' = Some 2"
    by (simp_all add: plain_def demo_boost_def)
  ultimately have "parse_graph_description demo_boost sample_os 1 (show_edge (?d\<lparr>ed_consume := [''2'']\<rparr>)) 0 one_graph = None"
    using documented_forms_undefined [OF law, of sample_os 1 _ 0 one_graph _ ?d "''2''" 2] by simp
  then show ?thesis
    using documented_forms_undefined [OF law, of sample_os 1 "''a''" 0 one_graph "''b.2:a.1.4,b:c''"]
    by (simp add: show_edge_def)
qed

end
