(* ===== verification/Pgmrt_Rates.thy ===== *)
theory Pgmrt_Rates
  imports Pgmrt_Parse "HOL-Library.Monad_Syntax"
begin

text \<open>
  The rates of the nodes in \<^verbatim>\<open>src/tools/pgmrt.cpp\<close>: \<open>rate\<close>, \<open>validate_rate\<close> and \<open>parse_graph_rates\<close>.  A rate
  of \<open>x\<close> arrivals in an interval of \<open>y\<close> microseconds is given for the sources of the graph and propagated along
  the edges with a worklist of node names; the result are the periods of the nodes in milliseconds.

  The numbers are \<open>uint64_t\<close>, with their wrap-around; a division by zero and the use of a handle that no lookup
  has set give \<open>None\<close>.  The floating-point numbers are those of \<open>Double\<close>, rounded after every operation;
  \<open>calloc\<close> succeeds, and what \<open>validate_rate\<close> prints is represented by the flag it computes.

  Shown here: on every graph without cycles the worklist becomes empty, whatever the numbers do; and when the
  graph has consistent rates and the numbers stay below \<open>2 ^ 64\<close>, no rate is reported as incompatible and every node reachable from the
  given ones gets exactly its rate, and as its period the quotient of these numbers, rounded twice.
\<close>

section \<open>The computation\<close>

record rate =
  ry :: "64 word"
  rx :: "64 word"

definition rate_eq :: "rate \<Rightarrow> rate \<Rightarrow> bool" where
  "rate_eq r other \<longleftrightarrow> rx r * ry other = rx other * ry r"

text \<open>The result of a lookup that is used whether or not it succeeded; an array filled by a listing routine.\<close>

definition lookup_node :: "'w pgm_state \<Rightarrow> graph_t \<Rightarrow> string \<Rightarrow> node_t option" where
  "lookup_node s g nm = Option.bind (pgm_find_node True g nm s) snd"

definition name_of :: "'w pgm_state \<Rightarrow> node_t \<Rightarrow> string option" where
  "name_of s n = do {nm \<leftarrow> pgm_get_name s n; nm \<leftarrow> nm; std_string nm PGM_NODE_NAME_LEN}"

definition lookup_edge :: "'w pgm_state \<Rightarrow> node_t \<Rightarrow> node_t \<Rightarrow> edge_t option" where
  "lookup_edge s p c =
     do {pn \<leftarrow> name_of s p; cn \<leftarrow> name_of s c;
         r \<leftarrow> pgm_find_edge True p c (Some (make_edge_name pn cn)) False s;
         fst (snd r)}"

definition handle_array :: "int \<Rightarrow> node_t list \<Rightarrow> node_t list" where
  "handle_array n listed = listed @ replicate (nat n - length listed) \<lparr>ngraph = 0, nnode = 0\<rparr>"

definition uint_div :: "64 word \<Rightarrow> 64 word \<Rightarrow> 64 word option" where
  "uint_div a d = (if d = 0 then None else Some (a div d))"

text \<open>The predecessors of a node that have a rate, and the product of their intervals.\<close>

fun rated_preds ::
  "'w pgm_state \<Rightarrow> (string \<rightharpoonup> rate) \<Rightarrow> node_t list \<Rightarrow> 64 word \<Rightarrow> (node_t \<times> rate) list \<Rightarrow> (64 word \<times> (node_t \<times> rate) list) option"
where
  "rated_preds s rates [] scale ps = Some (scale, ps)"
| "rated_preds s rates (n # ns) scale ps =
     do {nm \<leftarrow> name_of s n;
         case rates nm of
           None \<Rightarrow> rated_preds s rates ns scale ps
         | Some r \<Rightarrow> rated_preds s rates ns (scale * ry r) (ps @ [(n, r)])}"

text \<open>Two neighbouring predecessors are compared; the two quotients are only printed, but they are computed.\<close>

definition compatible :: "'w pgm_state \<Rightarrow> node_t \<Rightarrow> 64 word \<Rightarrow> node_t \<times> rate \<Rightarrow> node_t \<times> rate \<Rightarrow> bool option" where
  "compatible s n scale prev cur =
     do {e_prev \<leftarrow> lookup_edge s (fst prev) n;
         e_cur \<leftarrow> lookup_edge s (fst cur) n;
         p_prev \<leftarrow> pgm_get_nr_produce s e_prev; c_prev \<leftarrow> pgm_get_nr_consume s e_prev;
         p_cur \<leftarrow> pgm_get_nr_produce s e_cur; c_cur \<leftarrow> pgm_get_nr_consume s e_cur;
         let a = \<lparr>ry = of_int p_prev * rx (snd prev) * scale, rx = ry (snd prev) * of_int c_prev\<rparr>;
         let b = \<lparr>ry = of_int p_cur * rx (snd cur) * scale, rx = ry (snd cur) * of_int c_cur\<rparr>;
         q1 \<leftarrow> uint_div scale (ry (snd prev));
         p1 \<leftarrow> uint_div (of_int p_prev * rx (snd prev) * q1) (of_int c_prev);
         q2 \<leftarrow> uint_div scale (ry (snd cur));
         p2 \<leftarrow> uint_div (of_int p_cur * rx (snd cur) * q2) (of_int c_cur);
         Some (rate_eq a b)}"

fun check_rates :: "'w pgm_state \<Rightarrow> node_t \<Rightarrow> 64 word \<Rightarrow> (node_t \<times> rate) list \<Rightarrow> bool \<Rightarrow> bool option" where
  "check_rates s n scale (prev # cur # ps) valid =
     do {ok \<leftarrow> compatible s n scale prev cur;
         check_rates s n scale (cur # ps) (if ok then valid else False)}"
| "check_rates s n scale ps valid = Some valid"

definition validate_rate :: "'w pgm_state \<Rightarrow> node_t \<Rightarrow> (string \<rightharpoonup> rate) \<Rightarrow> bool option" where
  "validate_rate s n rates =
     do {nr_preds \<leftarrow> pgm_get_degree_in s n True;
         listed \<leftarrow> pgm_get_predecessors n True nr_preds True s;
         sp \<leftarrow> rated_preds s rates (take (nat nr_preds) (handle_array nr_preds (snd listed))) 1 [];
         check_rates s n (fst sp) (snd sp) True}"

text \<open>The new rate of a successor: the interval and then the number of arrivals.\<close>

definition next_y :: "boost \<Rightarrow> int \<Rightarrow> int \<Rightarrow> rate \<Rightarrow> 64 word option" where
  "next_y b produce consume r = uint_div (of_int consume * ry r) (b_gcd b (of_int produce * rx r) (of_int consume))"

definition next_rate :: "64 word \<Rightarrow> int \<Rightarrow> int \<Rightarrow> rate \<Rightarrow> rate option" where
  "next_rate y produce consume r =
     do {x \<leftarrow> uint_div (y * of_int produce * rx r) (of_int consume * ry r);
         Some \<lparr>ry = y, rx = x\<rparr>}"

definition visit_succ ::
  "boost \<Rightarrow> 'w pgm_state \<Rightarrow> node_t \<Rightarrow> rate \<Rightarrow> node_t \<Rightarrow> (string \<rightharpoonup> rate) \<times> string set \<Rightarrow> ((string \<rightharpoonup> rate) \<times> string set) option"
where
  "visit_succ b s n r c st =
     do {let (rateMap, tovisit) = st;
         sname \<leftarrow> name_of s c;
         if sname = [] then None else do {
           e \<leftarrow> lookup_edge s n c;
           produce \<leftarrow> pgm_get_nr_produce s e;
           consume \<leftarrow> pgm_get_nr_consume s e;
           y \<leftarrow> next_y b produce consume r;
           case rateMap sname of
             Some old \<Rightarrow> do {
               valid \<leftarrow> validate_rate s c rateMap;
               let y = b_lcm b y (ry old);
               if y \<noteq> ry old then do {
                 new \<leftarrow> next_rate y produce consume r;
                 Some (rateMap(sname \<mapsto> new), insert sname tovisit)}
               else Some (rateMap, tovisit)}
           | None \<Rightarrow> do {
               new \<leftarrow> next_rate y produce consume r;
               Some (rateMap(sname \<mapsto> new), insert sname tovisit)}}}"

fun visit_succs ::
  "boost \<Rightarrow> 'w pgm_state \<Rightarrow> node_t \<Rightarrow> rate \<Rightarrow> node_t list \<Rightarrow> (string \<rightharpoonup> rate) \<times> string set \<Rightarrow> ((string \<rightharpoonup> rate) \<times> string set) option"
where
  "visit_succs b s n r [] st = Some st"
| "visit_succs b s n r (c # cs) st = do {st' \<leftarrow> visit_succ b s n r c st; visit_succs b s n r cs st'}"

definition rates_visit ::
  "boost \<Rightarrow> graph_t \<Rightarrow> 'w pgm_state \<Rightarrow> (string \<rightharpoonup> rate) \<times> string set \<Rightarrow> ((string \<rightharpoonup> rate) \<times> string set) option"
where
  "rates_visit b g s st =
     do {let (rateMap, tovisit) = st;
         let thisNode = Min tovisit;
         let r = (case rateMap thisNode of None \<Rightarrow> \<lparr>ry = 0, rx = 0\<rparr> | Some r \<Rightarrow> r);
         n \<leftarrow> lookup_node s g thisNode;
         num \<leftarrow> pgm_get_degree_out s n True;
         listed \<leftarrow> pgm_get_successors n True num True s;
         visit_succs b s n r (take (nat num) (handle_array num (snd listed)))
           (rateMap(thisNode \<mapsto> r), tovisit - {thisNode})}"

text \<open>The loop; the outer \<open>None\<close> would be a loop that does not end, \<open>Some None\<close> is a visit that is undefined.\<close>

partial_function (option) rates_loop ::
  "boost \<Rightarrow> graph_t \<Rightarrow> 'w pgm_state \<Rightarrow> (string \<rightharpoonup> rate) \<Rightarrow> string set \<Rightarrow> (string \<rightharpoonup> rate) option option"
where
  "rates_loop b g s rateMap tovisit =
     (if tovisit = {} then Some (Some rateMap)
      else case rates_visit b g s (rateMap, tovisit) of
          None \<Rightarrow> Some None
        | Some st \<Rightarrow> rates_loop b g s (fst st) (snd st))"

text \<open>Reading the given rates; \<open>round\<close> rounds halves away from zero, and \<open>map::insert\<close> keeps an old entry.\<close>

definition c_round :: "real \<Rightarrow> int" where
  "c_round d = (if 0 \<le> d then \<lfloor>d + 1 / 2\<rfloor> else - \<lfloor>1 / 2 - d\<rfloor>)"

definition double_to_uint64 :: "double \<Rightarrow> 64 word option" where
  "double_to_uint64 d =
     (case d of None \<Rightarrow> None | Some x \<Rightarrow> if 0 \<le> c_round x \<and> c_round x < 2 ^ 64 then Some (of_int (c_round x)) else None)"

definition ms2us :: "double \<Rightarrow> double" where
  "ms2us ms = d_mult ms 1000"

definition us2ms :: "double \<Rightarrow> double" where
  "us2ms us = d_div us 1000"

fun given_rates ::
  "boost \<Rightarrow> string list \<Rightarrow> (string \<rightharpoonup> rate) \<Rightarrow> string set \<Rightarrow> (string + (string \<rightharpoonup> rate) \<times> string set) option"
where
  "given_rates b [] rateMap tovisit = Some (Inr (rateMap, tovisit))"
| "given_rates b (tok # toks) rateMap tovisit =
     (case b_split b {CHR '':''} tok of
        [nm, xs, ys] \<Rightarrow>
          (case (b_to_double b ys, b_to_uint64 b xs) of
             (Some d, Some x) \<Rightarrow>
               (case double_to_uint64 (ms2us d) of
                  None \<Rightarrow> None
                | Some y \<Rightarrow> given_rates b toks (if nm \<in> dom rateMap then rateMap else rateMap(nm \<mapsto> \<lparr>ry = y, rx = x\<rparr>))
                     (insert nm tovisit))
           | (Some d, None) \<Rightarrow> (case double_to_uint64 (ms2us d) of None \<Rightarrow> None | Some y \<Rightarrow> Some (Inl ''bad lexical cast''))
           | (None, _) \<Rightarrow> Some (Inl ''bad lexical cast''))
      | _ \<Rightarrow> Some (Inl (''Invalid rate: '' @ tok)))"

text \<open>An arrival count of zero gives a period that is not finite.\<close>

fun set_periods ::
  "'w pgm_state \<Rightarrow> graph_t \<Rightarrow> (string \<rightharpoonup> rate) \<Rightarrow> string list \<Rightarrow> (node_t \<rightharpoonup> double) \<Rightarrow> (node_t \<rightharpoonup> double) option"
where
  "set_periods s g rateMap [] periods = Some periods"
| "set_periods s g rateMap (nm # nms) periods =
     do {n \<leftarrow> lookup_node s g nm;
         r \<leftarrow> rateMap nm;
         set_periods s g rateMap nms
           (periods(n \<mapsto> us2ms (d_div (to_double (real (unat (ry r)))) (nearest (real (unat (rx r)))))))}"

definition parse_graph_rates ::
  "boost \<Rightarrow> string \<Rightarrow> graph_t \<Rightarrow> 'w pgm_state \<Rightarrow> (node_t \<rightharpoonup> double) \<Rightarrow> (string + (node_t \<rightharpoonup> double)) option option"
where
  "parse_graph_rates b rateString g s periods =
     (case given_rates b (b_split b {CHR '',''} rateString) Map.empty {} of
        None \<Rightarrow> Some None
      | Some (Inl ex) \<Rightarrow> Some (Some (Inl ex))
      | Some (Inr (rateMap, tovisit)) \<Rightarrow>
          (case rates_loop b g s rateMap tovisit of
             None \<Rightarrow> None
           | Some None \<Rightarrow> Some None
           | Some (Some rateMap) \<Rightarrow>
               Some (map_option Inr (set_periods s g rateMap (sorted_list_of_set (dom rateMap)) periods))))"

section \<open>Lookups in the graphs that pgmrt builds\<close>

text \<open>
  The nodes are in the lexicographic order of their names, so that the lookup of a node by a prefix comparison
  finds the node with exactly this name; there are no backedges, and each edge has the name made from its ends.
\<close>

definition rt_graph :: "'w pgm_state \<Rightarrow> graph_t \<Rightarrow> bool" where
  "rt_graph s g \<longleftrightarrow> state_inv s \<and> live_graph s g \<and>
     sorted_wrt (<) (map (\<lambda>j. n_name (nodes (graph_of s g) j)) [0..<nr_nodes (graph_of s g)]) \<and>
     (\<forall>j < nr_nodes (graph_of s g). length (n_name (nodes (graph_of s g) j)) < PGM_NODE_NAME_LEN) \<and>
     (\<forall>i. linked (graph_of s g) i \<longrightarrow> \<not> e_is_backedge (edges (graph_of s g) i) \<and>
       e_name (edges (graph_of s g) i) = take PGM_EDGE_NAME_LEN (make_edge_name
         (n_name (nodes (graph_of s g) (e_producer (edges (graph_of s g) i))))
         (n_name (nodes (graph_of s g) (e_consumer (edges (graph_of s g) i))))))"

abbreviation node_hd :: "graph_t \<Rightarrow> nat \<Rightarrow> node_t" where
  "node_hd g j \<equiv> \<lparr>ngraph = g, nnode = int j\<rparr>"

lemma building_rt_graph:
  assumes "building self h s" and "graph_as b (graph_of s h) (sorted_list_of_set (desc_names ds)) ds"
    and "\<forall>d \<in> set ds. desc_ok b d"
  shows "rt_graph s h"
proof -
  let ?G = "graph_of s h" and ?nms = "sorted_list_of_set (desc_names ds)"
  have inv: "state_inv s" "live_graph s h" "graph_inv ?G"
    using assms(1) state_invD by (auto simp: building_def)
  have n: "nr_nodes ?G = length ?nms" "\<And>j. j < length ?nms \<Longrightarrow> n_name (nodes ?G j) = ?nms ! j"
    using assms(2) by (simp_all add: graph_as_def)
  then have "map (\<lambda>j. n_name (nodes ?G j)) [0..<nr_nodes ?G] = ?nms"
    by (intro nth_equalityI) simp_all
  then have "sorted_wrt (<) (map (\<lambda>j. n_name (nodes ?G j)) [0..<nr_nodes ?G])"
    by simp
  moreover have "length (n_name (nodes ?G j)) < PGM_NODE_NAME_LEN" if "j < nr_nodes ?G" for j
  proof -
    have "n_name (nodes ?G j) \<in> desc_names ds"
      using that n nth_mem [of j ?nms] by simp
    then show ?thesis
      using assms(3) by (auto simp: desc_names_def desc_ok_def)
  qed
  moreover have "edge_as b ?G (edges ?G i) (ds ! i)" if "linked ?G i" for i
    using linkedD(1) [OF inv(3) that] assms(2) by (simp add: graph_as_def)
  ultimately show ?thesis
    using inv(1,2) unfolding rt_graph_def edge_as_def by auto
qed

lemma prefix_le: "take k xs \<le> xs" for xs :: "'a::linorder list"
  by (induction xs arbitrary: k) (auto simp: take_Cons')

lemma rt_graphD:
  assumes "rt_graph s g"
  shows "state_inv s" and "live_graph s g" and "graph_inv (graph_of s g)"
    and "j < nr_nodes (graph_of s g) \<Longrightarrow> length (n_name (nodes (graph_of s g) j)) < PGM_NODE_NAME_LEN"
    and "i < j \<Longrightarrow> j < nr_nodes (graph_of s g) \<Longrightarrow> n_name (nodes (graph_of s g) i) < n_name (nodes (graph_of s g) j)"
    and "linked (graph_of s g) k \<Longrightarrow> \<not> e_is_backedge (edges (graph_of s g) k)"
  using assms state_invD [of s g] unfolding rt_graph_def sorted_wrt_iff_nth_less by auto

lemma rt_names_nonempty: "rt_graph s g \<Longrightarrow> j < nr_nodes (graph_of s g) \<Longrightarrow> n_name (nodes (graph_of s g) j) \<noteq> []"
  using rt_graphD(3) by (auto simp: graph_inv_def)

lemma rt_names_inj:
  assumes "rt_graph s g" and "i < nr_nodes (graph_of s g)" and "j < nr_nodes (graph_of s g)"
    and "n_name (nodes (graph_of s g) i) = n_name (nodes (graph_of s g) j)"
  shows "i = j"
  using rt_graphD(5) [OF assms(1), of i j] rt_graphD(5) [OF assms(1), of j i] assms(2-4) by (cases i j rule: linorder_cases) auto

lemma lookup_node_index: "lookup_node s g nm = Some n \<Longrightarrow> live_graph s g \<Longrightarrow> \<exists>j < nr_nodes (graph_of s g). n = node_hd g j"
  by (auto simp: lookup_node_def pgm_find_node_def Let_def split: if_splits option.splits dest!: first_index_Some)

lemma lookup_node_exact:
  assumes "rt_graph s g" and "j < nr_nodes (graph_of s g)"
  shows "lookup_node s g (n_name (nodes (graph_of s g) j)) = Some (node_hd g j)"
proof -
  let ?G = "graph_of s g"
  let ?nm = "n_name (nodes ?G j)"
  have len: "strnlen ?nm PGM_NODE_NAME_LEN = length ?nm" "?nm \<noteq> []" "\<not> length ?nm > PGM_NODE_NAME_LEN"
    using rt_graphD(4) [OF assms(1,2)] rt_names_nonempty [OF assms] by (simp_all add: strnlen_def)
  let ?P = "\<lambda>i. strncmp_eq (n_name (nodes ?G i)) ?nm (length ?nm)"
  have "\<not> ?P i" if "i < j" for i
  proof
    assume "?P i"
    then have "take (length ?nm) (n_name (nodes ?G i)) = ?nm"
      by (simp add: strncmp_eq_def)
    then have "?nm \<le> n_name (nodes ?G i)"
      using prefix_le [of "length ?nm" "n_name (nodes ?G i)"] by simp
    then show False
      using rt_graphD(5) [OF assms(1) that assms(2)] by simp
  qed
  moreover obtain k where k: "first_index ?P (nr_nodes ?G) = Some k"
    using first_index_None [of ?P "nr_nodes ?G"] assms(2) by (cases "first_index ?P (nr_nodes ?G)") auto
  ultimately have "k = j"
    using first_index_Some [OF k] assms(2) by (metis linorder_neqE_nat strncmp_eq_refl)
  then show ?thesis
    using k len rt_graphD(2) [OF assms(1)] by (simp add: lookup_node_def pgm_find_node_def)
qed

lemma name_of_node:
  assumes "rt_graph s g" and "j < nr_nodes (graph_of s g)"
  shows "name_of s (node_hd g j) = Some (n_name (nodes (graph_of s g) j))"
  using rt_graphD(2,4) [OF assms(1)] assms(2)
  by (simp add: name_of_def pgm_get_name_def std_string_def live_node_index [OF rt_graphD(3) [OF assms(1)]])

text \<open>The edge found between two adjacent nodes is the first one; it joins the same nodes.\<close>

lemma lookup_edge_linked:
  assumes "rt_graph s g" and "linked (graph_of s g) i"
    and "e_producer (edges (graph_of s g) i) = p" and "e_consumer (edges (graph_of s g) i) = c"
  shows "\<exists>k. lookup_edge s (node_hd g p) (node_hd g c) = Some \<lparr>egraph = g, eedge = int k\<rparr> \<and> linked (graph_of s g) k \<and>
    e_producer (edges (graph_of s g) k) = p \<and> e_consumer (edges (graph_of s g) k) = c"
proof -
  let ?G = "graph_of s g"
  let ?nm = "make_edge_name (n_name (nodes ?G p)) (n_name (nodes ?G c))"
  let ?len = "strnlen ?nm PGM_EDGE_NAME_LEN"
  let ?P = "\<lambda>i. joins (edges ?G i) (node_hd g p) (node_hd g c) \<and> strncmp_eq (e_name (edges ?G i)) ?nm ?len"
  note inv = rt_graphD(3) [OF assms(1)]
  have pc: "p < nr_nodes ?G" "c < nr_nodes ?G" and i: "i < nr_edges ?G"
    using linkedD(1-3) [OF inv assms(2)] assms(3,4) by auto
  have nm: "?nm \<noteq> []" "?len \<noteq> 0" "\<not> PGM_EDGE_NAME_LEN < ?len"
    by (simp_all add: make_edge_name_def strnlen_def PGM_EDGE_NAME_LEN_def)
  have "e_name (edges ?G i) = take PGM_EDGE_NAME_LEN ?nm"
    using assms unfolding rt_graph_def by blast
  then have "?P i"
    using assms(3,4) by (simp add: joins_def strncmp_eq_def strnlen_def)
  then obtain k where k: "first_index ?P (nr_edges ?G) = Some k"
    using first_index_None [of ?P "nr_edges ?G"] i by (cases "first_index ?P (nr_edges ?G)") auto
  then have kP: "k < nr_edges ?G" "?P k"
    using first_index_Some [OF k] by blast+
  then have ends: "e_producer (edges ?G k) = p" "e_consumer (edges ?G k) = c"
    by (simp_all add: joins_def)
  have "linked ?G k"
    using kP(2) nm by (auto simp: linked_def strncmp_eq_def)
  then have "k \<in> set (out_list (nodes ?G p))" "k \<in> set (in_list (nodes ?G c))"
    using graph_inv_lists(1,2) [OF inv] pc kP(1) ends by (auto simp: out_edges_def in_edges_of_def)
  then have "lookup_edge s (node_hd g p) (node_hd g c) = Some \<lparr>egraph = g, eedge = int k\<rparr>"
    using k nm rt_graphD(2) [OF assms(1)] name_of_node [OF assms(1)] pc by (simp add: lookup_edge_def pgm_find_edge_def)
  then show ?thesis
    using \<open>linked ?G k\<close> ends by blast
qed

lemma edge_counts:
  assumes "rt_graph s g" and "linked (graph_of s g) k"
  shows "pgm_get_nr_produce s \<lparr>egraph = g, eedge = int k\<rparr> = Some (to_int (nr_produce (e_attr (edges (graph_of s g) k))))"
    and "pgm_get_nr_consume s \<lparr>egraph = g, eedge = int k\<rparr> = Some (to_int (nr_consume (e_attr (edges (graph_of s g) k))))"
  using rt_graphD(2,3) [OF assms(1)] linkedD(1) [OF rt_graphD(3) [OF assms(1)] assms(2)]
  by (simp_all add: pgm_get_nr_produce_def pgm_get_nr_consume_def with_edge_def in_edges_def graph_inv_def)

text \<open>The neighbours that are listed.\<close>

definition succs :: "pgm_graph \<Rightarrow> nat \<Rightarrow> nat list" where
  "succs g j = map (\<lambda>i. e_consumer (edges g i)) (out_edges g j)"

definition preds :: "pgm_graph \<Rightarrow> nat \<Rightarrow> nat list" where
  "preds g j = map (\<lambda>i. e_producer (edges g i)) (in_edges_of g j)"

lemma set_succs:
  "c \<in> set (succs g j) \<longleftrightarrow> (\<exists>i. i < nr_edges g \<and> linked g i \<and> e_producer (edges g i) = j \<and> e_consumer (edges g i) = c)"
  "p \<in> set (preds g j) \<longleftrightarrow> (\<exists>i. i < nr_edges g \<and> linked g i \<and> e_consumer (edges g i) = j \<and> e_producer (edges g i) = p)"
  by (auto simp: succs_def preds_def out_edges_def in_edges_of_def)

lemma listed_neighbours:
  assumes "rt_graph s g" and "j < nr_nodes (graph_of s g)"
  shows "pgm_get_degree_out s (node_hd g j) True = Some (int (length (succs (graph_of s g) j)))"
    and "pgm_get_degree_in s (node_hd g j) True = Some (int (length (preds (graph_of s g) j)))"
    and "pgm_get_successors (node_hd g j) True (int (length (succs (graph_of s g) j))) True s =
      Some (int (length (succs (graph_of s g) j)), map (node_hd g) (succs (graph_of s g) j))"
    and "pgm_get_predecessors (node_hd g j) True (int (length (preds (graph_of s g) j))) True s =
      Some (int (length (preds (graph_of s g) j)), map (node_hd g) (preds (graph_of s g) j))"
proof -
  let ?G = "graph_of s g"
  have fwd: "fwd_out ?G True j = out_edges ?G j" "fwd_in ?G True j = in_edges_of ?G j"
    using rt_graphD(6) [OF assms(1)] by (auto simp: fwd_out_def fwd_in_def out_edges_def in_edges_of_def intro!: filter_cong)
  note l = listing_eqs [of s "node_hd g j", simplified, OF rt_graphD(1,2) [OF assms(1)] assms(2), unfolded fwd]
  note n = graph_inv_lists(3,4) [OF rt_graphD(3) [OF assms(1)] assms(2)]
  show "pgm_get_degree_out s (node_hd g j) True = Some (int (length (succs ?G j)))"
    "pgm_get_degree_in s (node_hd g j) True = Some (int (length (preds ?G j)))"
    "pgm_get_successors (node_hd g j) True (int (length (succs ?G j))) True s =
      Some (int (length (succs ?G j)), map (node_hd g) (succs ?G j))"
    "pgm_get_predecessors (node_hd g j) True (int (length (preds ?G j))) True s =
      Some (int (length (preds ?G j)), map (node_hd g) (preds ?G j))"
    using l n by (simp_all add: fwd succs_def preds_def o_def)
qed

section \<open>The worklist becomes empty\<close>

lemma visit_succ_tovisit:
  assumes "visit_succ b s n r c (rm, tv) = Some (rm', tv')"
  shows "tv' \<subseteq> tv \<union> {nm. name_of s c = Some nm}"
  using assms by (auto simp: visit_succ_def bind_eq_Some_conv Let_def split: if_splits option.splits)

lemma visit_succs_tovisit:
  assumes "visit_succs b s n r cs (rm, tv) = Some (rm', tv')"
  shows "tv' \<subseteq> tv \<union> {nm. \<exists>c \<in> set cs. name_of s c = Some nm}"
  using assms
proof (induction cs arbitrary: rm tv)
  case (Cons c cs)
  then obtain rm1 tv1 where "visit_succ b s n r c (rm, tv) = Some (rm1, tv1)" "visit_succs b s n r cs (rm1, tv1) = Some (rm', tv')"
    by (auto simp: bind_eq_Some_conv)
  then show ?case
    using visit_succ_tovisit Cons.IH by fastforce
qed simp

lemma take_handle_array: "take (nat (int (length xs))) (handle_array (int (length xs)) xs) = xs"
  by (simp add: handle_array_def)

lemma rates_visit_unfold:
  assumes "rt_graph s g" and "lookup_node s g (Min tv) = Some (node_hd g j)" and "j < nr_nodes (graph_of s g)"
  shows "rates_visit b g s (rm, tv) =
    (let r = (case rm (Min tv) of None \<Rightarrow> \<lparr>ry = 0, rx = 0\<rparr> | Some r \<Rightarrow> r) in
     visit_succs b s (node_hd g j) r (map (node_hd g) (succs (graph_of s g) j)) (rm(Min tv \<mapsto> r), tv - {Min tv}))"
  using assms listed_neighbours(1,3) [OF assms(1,3)] take_handle_array [of "map (node_hd g) (succs (graph_of s g) j)"]
  by (simp add: rates_visit_def Let_def)

lemma rates_visit_tovisit:
  assumes "rt_graph s g" and "rates_visit b g s (rm, tv) = Some (rm', tv')"
  shows "\<exists>j < nr_nodes (graph_of s g). lookup_node s g (Min tv) = Some (node_hd g j) \<and>
    tv' \<subseteq> tv - {Min tv} \<union> (\<lambda>c. n_name (nodes (graph_of s g) c)) ` set (succs (graph_of s g) j)"
proof -
  obtain n where "lookup_node s g (Min tv) = Some n"
    using assms(2) by (auto simp: rates_visit_def bind_eq_Some_conv Let_def)
  then obtain j where j: "j < nr_nodes (graph_of s g)" "lookup_node s g (Min tv) = Some (node_hd g j)"
    using lookup_node_index rt_graphD(2) [OF assms(1)] by blast
  have "name_of s (node_hd g c) = Some (n_name (nodes (graph_of s g) c))" if "c \<in> set (succs (graph_of s g) j)" for c
    using that linkedD(3) [OF rt_graphD(3) [OF assms(1)]] by (intro name_of_node [OF assms(1)]) (auto simp: set_succs)
  then have "{nm. \<exists>c \<in> set (map (node_hd g) (succs (graph_of s g) j)). name_of s c = Some nm} \<subseteq>
      (\<lambda>c. n_name (nodes (graph_of s g) c)) ` set (succs (graph_of s g) j)"
    by auto
  then show ?thesis
    using j visit_succs_tovisit [OF assms(2) [unfolded rates_visit_unfold [OF assms(1) j(2,1)] Let_def]] by blast
qed

text \<open>
  A node weighs 32 to the power of the number of nodes behind it, more than its successors, of which there are
  at most 31, together.
\<close>

definition node_weight :: "pgm_graph \<Rightarrow> nat \<Rightarrow> nat" where
  "node_weight g j = 32 ^ card ((succ_rel g True)\<^sup>+ `` {j})"

lemma succ_rel_finite:
  assumes "graph_inv g"
  shows "finite (succ_rel g ign)"
proof (rule finite_subset)
  show "succ_rel g ign \<subseteq> {..<nr_nodes g} \<times> {..<nr_nodes g}"
    using linkedD(2,3) [OF assms] by (auto simp: succ_rel_def)
qed simp

lemma node_weight_succ:
  assumes "graph_inv g" and "acyclic (succ_rel g True)" and "(j, c) \<in> succ_rel g True"
  shows "32 * node_weight g c \<le> node_weight g j"
proof -
  let ?R = "succ_rel g True"
  have "finite (?R\<^sup>+ `` {j})"
    using succ_rel_finite [OF assms(1)] finite_Range [of "?R\<^sup>+"] by (auto simp: Image_def intro: finite_subset [of _ "Range (?R\<^sup>+)"])
  moreover have "?R\<^sup>+ `` {c} \<subset> ?R\<^sup>+ `` {j}"
    using assms(2,3) by (auto simp: acyclic_def intro: trancl_into_trancl2)
  ultimately have "Suc (card (?R\<^sup>+ `` {c})) \<le> card (?R\<^sup>+ `` {j})"
    by (metis Suc_leI psubset_card_mono)
  then show ?thesis
    unfolding node_weight_def by (metis power_Suc power_increasing one_le_numeral)
qed

definition name_weight :: "'w pgm_state \<Rightarrow> graph_t \<Rightarrow> string \<Rightarrow> nat" where
  "name_weight s g nm = (case lookup_node s g nm of None \<Rightarrow> 1 | Some n \<Rightarrow> node_weight (graph_of s g) (nat (nnode n)))"

lemma rates_visit_weight:
  assumes rt: "rt_graph s g" and acyc: "acyclic (succ_rel (graph_of s g) True)" and "finite tv" and "tv \<noteq> {}"
    and visit: "rates_visit b g s (rm, tv) = Some (rm', tv')"
  shows "finite tv' \<and> sum (name_weight s g) tv' < sum (name_weight s g) tv"
proof -
  let ?G = "graph_of s g" and ?W = "name_weight s g"
  note inv = rt_graphD(3) [OF rt]
  obtain j where j: "j < nr_nodes ?G" "lookup_node s g (Min tv) = Some (node_hd g j)"
    and sub: "tv' \<subseteq> tv - {Min tv} \<union> (\<lambda>c. n_name (nodes ?G c)) ` set (succs ?G j)"
    using rates_visit_tovisit [OF rt visit] by blast
  let ?S = "(\<lambda>c. n_name (nodes ?G c)) ` set (succs ?G j)"
  have w: "32 * ?W x \<le> node_weight ?G j" if x: "x \<in> ?S" for x
  proof -
    obtain c where c: "x = n_name (nodes ?G c)" "c \<in> set (succs ?G j)"
      using x by blast
    then have "c < nr_nodes ?G" "(j, c) \<in> succ_rel ?G True"
      using linkedD(3) [OF inv] rt_graphD(6) [OF rt] by (auto simp: set_succs succ_rel_def)
    then show ?thesis
      using c(1) lookup_node_exact [OF rt] node_weight_succ [OF inv acyc] by (simp add: name_weight_def)
  qed
  have "card ?S \<le> length (succs ?G j)"
    by (metis card_image_le card_length finite_set le_trans)
  also have "\<dots> \<le> 31"
    using j(1) inv graph_inv_lists(4) [OF inv j(1)] by (auto simp: graph_inv_def node_ok_def pgm_limits succs_def)
  finally have card: "card ?S \<le> 31" .
  have "32 * sum ?W ?S = (\<Sum>x \<in> ?S. 32 * ?W x)"
    by (simp add: sum_distrib_left)
  also have "\<dots> \<le> card ?S * node_weight ?G j"
    using sum_bounded_above [of ?S "\<lambda>x. 32 * ?W x"] w by (metis of_nat_id)
  also have "\<dots> \<le> 31 * node_weight ?G j"
    using card by simp
  also have "\<dots> < 32 * node_weight ?G j"
    by (simp add: node_weight_def)
  finally have small: "sum ?W ?S < node_weight ?G j"
    by simp
  have min: "Min tv \<in> tv"
    using assms(3,4) by simp
  have "sum ?W tv' \<le> sum ?W (tv - {Min tv} \<union> ?S)"
    using sub assms(3) by (intro sum_mono2) auto
  also have "\<dots> \<le> sum ?W (tv - {Min tv}) + sum ?W ?S"
    using assms(3) by (simp add: sum_Un_nat)
  also have "\<dots> < sum ?W (tv - {Min tv}) + ?W (Min tv)"
    using small j(2) by (simp add: name_weight_def)
  also have "\<dots> = sum ?W tv"
    using sum.remove [OF assms(3) min, of ?W] by simp
  finally show ?thesis
    using sub assms(3) finite_subset [OF sub] by simp
qed

lemma rates_loop_ends:
  assumes "rt_graph s g" and "acyclic (succ_rel (graph_of s g) True)" and "finite tv"
  shows "\<exists>r. rates_loop b g s rm tv = Some r"
  using assms(3)
proof (induction "sum (name_weight s g) tv" arbitrary: rm tv rule: less_induct)
  case less
  show ?case
  proof (cases "tv = {} \<or> rates_visit b g s (rm, tv) = None")
    case False
    then obtain rm' tv' where v: "rates_visit b g s (rm, tv) = Some (rm', tv')" "tv \<noteq> {}"
      by auto
    then show ?thesis
      using less.hyps [of tv' rm'] rates_visit_weight [OF assms(1,2) less.prems v(2,1)]
      by (subst rates_loop.simps) simp
  qed (subst rates_loop.simps, auto)
qed

section \<open>Consistent rates\<close>

text \<open>
  A graph is balanced by \<open>X\<close> and \<open>L\<close> when node \<open>j\<close> can run \<open>X j\<close> times in an interval of length \<open>L\<close> without
  tokens piling up or running short on any edge, and when the products the program computes stay below \<open>2 ^ 64\<close>.
\<close>

definition balanced :: "pgm_graph \<Rightarrow> (nat \<Rightarrow> nat) \<Rightarrow> nat \<Rightarrow> bool" where
  "balanced g X L \<longleftrightarrow> 0 < L \<and> (\<forall>j < nr_nodes g. 0 < X j) \<and>
     (\<forall>i. linked g i \<longrightarrow>
       (let p = e_producer (edges g i); c = e_consumer (edges g i);
            a = unat (nr_produce (e_attr (edges g i))); d = unat (nr_consume (e_attr (edges g i)))
        in X c * d = X p * a \<and> a < 2 ^ 31 \<and> d < 2 ^ 31 \<and> L * a * X p < 2 ^ 64 \<and> d * L < 2 ^ 64))"

definition good_rate :: "(nat \<Rightarrow> nat) \<Rightarrow> nat \<Rightarrow> nat \<Rightarrow> rate \<Rightarrow> bool" where
  "good_rate X L j r \<longleftrightarrow> ry r \<noteq> 0 \<and> unat (ry r) dvd L \<and> unat (rx r) * L = X j * unat (ry r)"

definition gcd_laws :: "boost \<Rightarrow> bool" where
  "gcd_laws b \<longleftrightarrow> (\<forall>x y. unat (b_gcd b x y) = gcd (unat x) (unat y)) \<and>
     (\<forall>x y. lcm (unat x) (unat y) < 2 ^ 64 \<longrightarrow> unat (b_lcm b x y) = lcm (unat x) (unat y))"

text \<open>The interval of a successor still divides \<open>L\<close>, and its number of arrivals in any multiple of it is exact.\<close>

lemma next_interval:
  fixes L :: nat
  assumes "0 < y" and "y dvd L" and "0 < L" and "x * L = Xp * y" and "Xc * c = Xp * a" and "0 < c"
  defines "Y \<equiv> c * y div gcd (a * x) c"
  shows "0 < Y" and "Y dvd L" and "Y dvd Z \<Longrightarrow> (Z * a * x div (c * y)) * L = Xc * Z"
proof -
  let ?g = "gcd (a * x) c"
  have g: "0 < ?g"
    using assms(6) by simp
  then obtain m c' where mc: "a * x = m * ?g" "c = c' * ?g" "coprime m c'"
    using gcd_coprime_exists [of "a * x" c] by auto
  have Y: "Y = c' * y"
  proof -
    have "c * y = ?g * (c' * y)"
      by (subst mc(2)) (simp add: ac_simps)
    then show ?thesis
      using g unfolding Y_def by (metis nonzero_mult_div_cancel_left not_gr_zero)
  qed
  show "0 < Y"
    using assms(1,6) mc(2) by (cases c') (simp_all add: Y)
  obtain k where k: "L = y * k"
    using assms(2) by blast
  then have Xp: "x * k = Xp"
    using assms(1,4) by simp
  have "?g * (Xc * c') = Xc * c"
    by (subst (2) mc(2)) (simp add: ac_simps)
  also have "\<dots> = (a * x) * k"
    by (simp add: assms(5) Xp [symmetric] ac_simps)
  also have "\<dots> = ?g * (m * k)"
    by (subst mc(1)) (simp add: ac_simps)
  finally have mk: "Xc * c' = m * k"
    using assms(6) by simp
  then have "c' dvd m * k"
    by (metis dvd_triv_right)
  then have "c' dvd k"
    using mc(3) by (simp add: coprime_dvd_mult_right_iff coprime_commute)
  then show "Y dvd L"
    by (simp add: Y k mult.commute mult_dvd_mono)
  assume "Y dvd Z"
  then obtain n where n: "Z = c' * y * n"
    by (auto simp: Y)
  have "Z * a * x = (a * x) * Z"
    by (simp add: ac_simps)
  also have "\<dots> = (c' * ?g * y) * (m * n)"
    unfolding n by (subst mc(1)) (simp add: ac_simps)
  also have "\<dots> = (c * y) * (m * n)"
    by (subst (2) mc(2)) simp
  finally have "Z * a * x div (c * y) = m * n"
    using assms(1,6) by simp
  moreover have "m * n * L = Xc * Z"
    using arg_cong [OF mk, of "\<lambda>t. t * (y * n)"] by (auto simp: n k ac_simps)
  ultimately show "(Z * a * x div (c * y)) * L = Xc * Z"
    by simp
qed

lemma to_int_small:
  assumes "unat w < 2 ^ 31"
  shows "to_int w = int (unat w)"
proof -
  have "int (unat w) < int (2 ^ 31)"
    using assms by (simp only: of_nat_less_iff)
  then have "int (unat w) < 2 ^ 31"
    by (simp only: of_nat_power of_nat_numeral)
  moreover have "- (2 ^ 31) \<le> int (unat w)"
    by (rule order_trans [OF _ of_nat_0_le_iff]) simp
  ultimately have "signed_take_bit 31 (int (unat w)) = int (unat w)"
    by (intro signed_take_bit_int_eq_self)
  moreover have "(ucast w :: 32 word) = of_nat (unat w)"
    by simp
  ultimately show ?thesis
    unfolding to_int_def by (simp only: signed_of_nat) simp
qed

lemma of_int_to_int: "unat w < 2 ^ 31 \<Longrightarrow> of_int (to_int w) = (w :: 64 word)"
  by (simp add: to_int_small)

lemma unat_mult_small: "unat (a :: 64 word) * unat d < 2 ^ 64 \<Longrightarrow> unat (a * d) = unat a * unat d"
  by (simp add: unat_word_ariths)

text \<open>One edge, from \<open>p\<close> to \<open>c\<close>, with its two counts as words.\<close>

lemma balancedD:
  assumes "balanced g X L" and "graph_inv g" and "linked g i"
  defines "a \<equiv> nr_produce (e_attr (edges g i))" and "d \<equiv> nr_consume (e_attr (edges g i))"
  shows "X (e_consumer (edges g i)) * unat d = X (e_producer (edges g i)) * unat a" and "unat a < 2 ^ 31" and "unat d < 2 ^ 31"
    and "L * unat a * X (e_producer (edges g i)) < 2 ^ 64" and "unat d * L < 2 ^ 64" and "0 < unat d" and "d \<noteq> 0"
proof -
  show "d \<noteq> 0"
    using linkedD(4) [OF assms(2,3)] unfolding edge_attr_ok_def d_def by simp
  then show "0 < unat d"
    by (simp add: unat_gt_0)
  show "X (e_consumer (edges g i)) * unat d = X (e_producer (edges g i)) * unat a" "unat a < 2 ^ 31" "unat d < 2 ^ 31"
    "L * unat a * X (e_producer (edges g i)) < 2 ^ 64" "unat d * L < 2 ^ 64"
    using assms(1,3) unfolding balanced_def a_def d_def Let_def by blast+
qed

lemma good_rate_bounds:
  assumes "good_rate X L j r" and "0 < L"
  shows "0 < unat (ry r)" and "unat (ry r) \<le> L" and "unat (rx r) \<le> X j"
proof -
  show y: "0 < unat (ry r)" "unat (ry r) \<le> L"
    using assms by (auto simp: good_rate_def dvd_imp_le unat_gt_0)
  have "unat (rx r) * L \<le> X j * L"
    using assms(1) y(2) by (simp add: good_rate_def)
  then show "unat (rx r) \<le> X j"
    using assms(2) by simp
qed

lemma next_rate_good:
  assumes laws: "gcd_laws b" and bal: "balanced g X L" and inv: "graph_inv g" and i: "linked g i"
    and good: "good_rate X L (e_producer (edges g i)) r"
  defines "a \<equiv> to_int (nr_produce (e_attr (edges g i)))" and "d \<equiv> to_int (nr_consume (e_attr (edges g i)))"
  obtains y where "next_y b a d r = Some y" and "y \<noteq> 0" and "unat y dvd L"
    and "\<And>z. unat y dvd unat z \<Longrightarrow> unat z dvd L \<Longrightarrow>
      \<exists>r'. next_rate z a d r = Some r' \<and> ry r' = z \<and> (z \<noteq> 0 \<longrightarrow> good_rate X L (e_consumer (edges g i)) r')"
proof -
  let ?p = "e_producer (edges g i)" and ?c = "e_consumer (edges g i)"
  let ?a = "nr_produce (e_attr (edges g i))" and ?d = "nr_consume (e_attr (edges g i))"
  note e = balancedD [OF bal inv i]
  have L: "0 < L" and pos: "0 < X ?p"
    using bal linkedD(2) [OF inv i] by (simp_all add: balanced_def)
  note r = good_rate_bounds [OF good L]
  have ad: "of_int a = ?a" "of_int d = ?d"
    using of_int_to_int [OF e(2)] of_int_to_int [OF e(3)] by (simp_all add: a_def d_def)
  have "1 * (unat ?a * unat (rx r)) \<le> L * (unat ?a * X ?p)"
    by (intro mult_le_mono) (use L r(3) in auto)
  then have "unat ?a * unat (rx r) \<le> L * unat ?a * X ?p"
    by (simp add: mult.assoc)
  then have ax: "unat (?a * rx r) = unat ?a * unat (rx r)"
    using e(4) by (intro unat_mult_small) (rule order.strict_trans1)
  have "unat ?d * unat (ry r) \<le> unat ?d * L"
    using r(2) by simp
  then have dy: "unat (?d * ry r) = unat ?d * unat (ry r)"
    using e(5) by (intro unat_mult_small) (rule order.strict_trans1)
  have g: "unat (b_gcd b (?a * rx r) ?d) = gcd (unat ?a * unat (rx r)) (unat ?d)"
    using laws ax by (simp add: gcd_laws_def)
  have g0: "b_gcd b (?a * rx r) ?d \<noteq> 0"
  proof
    assume "b_gcd b (?a * rx r) ?d = 0"
    then show False
      using g e(6) by simp
  qed
  let ?y = "?d * ry r div b_gcd b (?a * rx r) ?d"
  have y: "unat ?y = unat ?d * unat (ry r) div gcd (unat ?a * unat (rx r)) (unat ?d)"
    by (simp add: unat_div dy g)
  have good': "unat (ry r) dvd L" "unat (rx r) * L = X ?p * unat (ry r)"
    using good by (simp_all add: good_rate_def)
  note n = next_interval [OF r(1) good'(1) L good'(2) e(1,6), folded y]
  show ?thesis
  proof (rule that [of ?y])
    show "next_y b a d r = Some ?y"
      using g0 by (simp add: next_y_def uint_div_def ad)
    show "?y \<noteq> 0" "unat ?y dvd L"
      using n(1,2) by (auto simp: unat_gt_0)
    fix z :: "64 word" assume z: "unat ?y dvd unat z" "unat z dvd L"
    have "unat z \<le> L"
      using z(2) L by (rule dvd_imp_le)
    then have le: "unat z * unat ?a \<le> L * unat ?a" "unat z * unat ?a * unat (rx r) \<le> L * unat ?a * X ?p"
      using r(3) by (simp_all add: mult_le_mono)
    have La: "L * unat ?a \<le> L * unat ?a * X ?p"
      using pos by (simp add: Suc_le_eq)
    have "unat z * unat ?a < 2 ^ 64"
      using order.strict_trans1 [OF order.trans [OF le(1) La] e(4)] .
    then have za: "unat (z * ?a) = unat z * unat ?a"
      by (rule unat_mult_small)
    then have "unat (z * ?a) * unat (rx r) < 2 ^ 64"
      using order.strict_trans1 [OF le(2) e(4)] by (simp only:)
    then have "unat (z * ?a * rx r) = unat z * unat ?a * unat (rx r)"
      using unat_mult_small [of "z * ?a" "rx r"] za by simp
    then have "unat (z * ?a * rx r div (?d * ry r)) * L = X ?c * unat z"
      using n(3) [OF z(1)] by (simp add: unat_div dy)
    moreover have "?d * ry r \<noteq> 0"
    proof
      assume "?d * ry r = 0"
      then show False
        using dy e(6) r(1) by simp
    qed
    ultimately show "\<exists>r'. next_rate z a d r = Some r' \<and> ry r' = z \<and> (z \<noteq> 0 \<longrightarrow> good_rate X L ?c r')"
      using z(2) by (simp add: next_rate_def uint_div_def ad good_rate_def)
  qed
qed

text \<open>All entries of the map belong to nodes and are their rates.\<close>

definition rates_good :: "pgm_graph \<Rightarrow> (nat \<Rightarrow> nat) \<Rightarrow> nat \<Rightarrow> (string \<rightharpoonup> rate) \<Rightarrow> bool" where
  "rates_good g X L rm \<longleftrightarrow> (\<forall>nm r. rm nm = Some r \<longrightarrow>
     (\<exists>j < nr_nodes g. nm = n_name (nodes g j) \<and> good_rate X L j r))"

lemma rates_goodD:
  assumes "rt_graph s g" and "rates_good (graph_of s g) X L rm" and "j < nr_nodes (graph_of s g)"
    and "rm (n_name (nodes (graph_of s g) j)) = Some r"
  shows "good_rate X L j r"
  using assms(2-4) rt_names_inj [OF assms(1)] unfolding rates_good_def by metis

lemma rated_preds_good:
  assumes "rt_graph s g" and "rates_good (graph_of s g) X L rm" and "\<forall>p \<in> set js. p < nr_nodes (graph_of s g)"
  shows "\<exists>scale' qs. rated_preds s rm (map (node_hd g) js) scale ps = Some (scale', ps @ map (\<lambda>(j, r). (node_hd g j, r)) qs) \<and>
    (\<forall>(j, r) \<in> set qs. j \<in> set js \<and> good_rate X L j r)"
  using assms(3)
proof (induction js arbitrary: scale ps)
  case (Cons j js)
  then have nm: "name_of s (node_hd g j) = Some (n_name (nodes (graph_of s g) j))"
    by (intro name_of_node [OF assms(1)]) simp
  show ?case
  proof (cases "rm (n_name (nodes (graph_of s g) j))")
    case None
    then show ?thesis
      using nm Cons.IH [of scale ps] Cons.prems by fastforce
  next
    case (Some r)
    then have "good_rate X L j r"
      using rates_goodD [OF assms(1,2)] Cons.prems by simp
    moreover obtain scale' qs where "rated_preds s rm (map (node_hd g) js) (scale * ry r) (ps @ [(node_hd g j, r)]) =
        Some (scale', (ps @ [(node_hd g j, r)]) @ map (\<lambda>(j, r). (node_hd g j, r)) qs)"
      "\<forall>(j, r) \<in> set qs. j \<in> set js \<and> good_rate X L j r"
      using Cons.IH [of "scale * ry r" "ps @ [(node_hd g j, r)]"] Cons.prems by auto
    ultimately show ?thesis
      using nm Some by (intro exI [of _ scale'] exI [of _ "(j, r) # qs"]) auto
  qed
qed (simp add: exI [of _ "[]"])

lemma rates_compatible:
  fixes L :: nat
  assumes "0 < L" and "x1 * L = P1 * y1" and "x2 * L = P2 * y2" and "C * d1 = P1 * a1" and "C * d2 = P2 * a2"
  shows "(y1 * d1) * (a2 * x2) = (y2 * d2) * (a1 * x1)"
proof -
  have "(y1 * d1) * (a2 * x2) * L = y1 * d1 * a2 * (x2 * L)"
    by (simp add: ac_simps)
  also have "\<dots> = y1 * d1 * y2 * (P2 * a2)"
    by (subst assms(3)) (simp add: ac_simps)
  also have "\<dots> = y2 * d2 * y1 * (C * d1)"
    by (subst assms(5) [symmetric]) (simp add: ac_simps)
  also have "\<dots> = y2 * d2 * a1 * (P1 * y1)"
    by (subst assms(4)) (simp add: ac_simps)
  also have "\<dots> = (y2 * d2) * (a1 * x1) * L"
    by (subst assms(2) [symmetric]) (simp add: ac_simps)
  finally show ?thesis
    using assms(1) by simp
qed

lemma compatible_good:
  assumes rt: "rt_graph s g" and bal: "balanced (graph_of s g) X L"
    and "p \<in> set (preds (graph_of s g) c)" and "good_rate X L p r" and "q \<in> set (preds (graph_of s g) c)" and "good_rate X L q t"
  shows "compatible s (node_hd g c) scale (node_hd g p, r) (node_hd g q, t) = Some True"
proof -
  let ?G = "graph_of s g"
  note inv = rt_graphD(3) [OF rt]
  obtain i i' where i: "linked ?G i" "e_producer (edges ?G i) = p" "e_consumer (edges ?G i) = c"
    and i': "linked ?G i'" "e_producer (edges ?G i') = q" "e_consumer (edges ?G i') = c"
    using assms(3,5) by (auto simp: set_succs)
  obtain k where k: "lookup_edge s (node_hd g p) (node_hd g c) = Some \<lparr>egraph = g, eedge = int k\<rparr>" "linked ?G k"
    "e_producer (edges ?G k) = p" "e_consumer (edges ?G k) = c"
    using lookup_edge_linked [OF rt i] by blast
  obtain l where l: "lookup_edge s (node_hd g q) (node_hd g c) = Some \<lparr>egraph = g, eedge = int l\<rparr>" "linked ?G l"
    "e_producer (edges ?G l) = q" "e_consumer (edges ?G l) = c"
    using lookup_edge_linked [OF rt i'] by blast
  let ?a = "\<lambda>i. nr_produce (e_attr (edges ?G i))" and ?d = "\<lambda>i. nr_consume (e_attr (edges ?G i))"
  note ek = balancedD [OF bal inv k(2), unfolded k(3,4)] and el = balancedD [OF bal inv l(2), unfolded l(3,4)]
  have "0 < L"
    using bal by (simp add: balanced_def)
  then have "(unat (ry r) * unat (?d k)) * (unat (?a l) * unat (rx t)) = (unat (ry t) * unat (?d l)) * (unat (?a k) * unat (rx r))"
    using assms(4,6) ek(1) el(1) unfolding good_rate_def by (intro rates_compatible [of L _ "X p" _ _ "X q" _ "X c"]) simp_all
  from arg_cong [OF this, of "of_nat :: nat \<Rightarrow> 64 word"]
  have "(ry r * ?d k) * (?a l * rx t) = (ry t * ?d l) * (?a k * rx r)"
    by simp
  from arg_cong [OF this, of "\<lambda>w. w * scale"]
  have "(ry r * ?d k) * (?a l * rx t * scale) = (ry t * ?d l) * (?a k * rx r * scale)"
    by (simp only: mult.assoc)
  moreover have "ry r \<noteq> 0" "ry t \<noteq> 0"
    using assms(4,6) by (simp_all add: good_rate_def)
  ultimately show ?thesis
    using k(1) l(1) edge_counts [OF rt k(2)] edge_counts [OF rt l(2)] ek(2,3,7) el(2,3,7)
    by (simp add: compatible_def rate_eq_def uint_div_def of_int_to_int)
qed

lemma check_rates_good:
  assumes "rt_graph s g" and "balanced (graph_of s g) X L"
    and "\<forall>(j, r) \<in> set qs. j \<in> set (preds (graph_of s g) c) \<and> good_rate X L j r"
  shows "check_rates s (node_hd g c) scale (map (\<lambda>(j, r). (node_hd g j, r)) qs) True = Some True"
  using assms(3)
proof (induction qs rule: induct_list012)
  case (3 p q qs)
  then show ?case
    using compatible_good [OF assms(1,2), of "fst p" c "snd p" "fst q" "snd q" scale] by (simp split: prod.splits)
qed auto

lemma validate_rate_good:
  assumes "rt_graph s g" and "balanced (graph_of s g) X L" and "rates_good (graph_of s g) X L rm" and "c < nr_nodes (graph_of s g)"
  shows "validate_rate s (node_hd g c) rm = Some True"
proof -
  have "\<forall>p \<in> set (preds (graph_of s g) c). p < nr_nodes (graph_of s g)"
    using linkedD(2) [OF rt_graphD(3) [OF assms(1)]] by (auto simp: set_succs)
  from rated_preds_good [OF assms(1,3) this, of 1 "[]"]
  obtain scale qs where "rated_preds s rm (map (node_hd g) (preds (graph_of s g) c)) 1 [] = Some (scale, map (\<lambda>(j, r). (node_hd g j, r)) qs)"
    "\<forall>(j, r) \<in> set qs. j \<in> set (preds (graph_of s g) c) \<and> good_rate X L j r"
    by auto
  then show ?thesis
    using listed_neighbours(2,4) [OF assms(1,4)] take_handle_array [of "map (node_hd g) (preds (graph_of s g) c)"]
      check_rates_good [OF assms(1,2), of qs c scale] by (simp add: validate_rate_def)
qed

text \<open>
  What the visit of successors does to the map and the worklist: it defines the rates of all of them, keeps what
  was there, and puts every newly rated node on the worklist.
\<close>

abbreviation node_name :: "pgm_graph \<Rightarrow> nat \<Rightarrow> string" where
  "node_name g j \<equiv> n_name (nodes g j)"

definition extends ::
  "pgm_graph \<Rightarrow> nat set \<Rightarrow> (string \<rightharpoonup> rate) \<times> string set \<Rightarrow> (string \<rightharpoonup> rate) \<times> string set \<Rightarrow> bool"
where
  "extends g C st st' \<longleftrightarrow> dom (fst st') = dom (fst st) \<union> node_name g ` C \<and>
     snd st \<subseteq> snd st' \<and> snd st' \<subseteq> snd st \<union> node_name g ` C \<and> dom (fst st') \<subseteq> dom (fst st) \<union> snd st'"

lemma visit_succ_good:
  assumes rt: "rt_graph s g" and laws: "gcd_laws b" and bal: "balanced (graph_of s g) X L"
    and rm: "rates_good (graph_of s g) X L rm" and r: "good_rate X L j r" and c: "c \<in> set (succs (graph_of s g) j)"
  shows "\<exists>st. visit_succ b s (node_hd g j) r (node_hd g c) (rm, tv) = Some st \<and>
    rates_good (graph_of s g) X L (fst st) \<and> extends (graph_of s g) {c} (rm, tv) st"
proof -
  let ?G = "graph_of s g"
  let ?nm = "node_name ?G c"
  note inv = rt_graphD(3) [OF rt]
  obtain i where i: "linked ?G i" "e_producer (edges ?G i) = j" "e_consumer (edges ?G i) = c"
    using c by (auto simp: set_succs)
  obtain k where k: "lookup_edge s (node_hd g j) (node_hd g c) = Some \<lparr>egraph = g, eedge = int k\<rparr>" "linked ?G k"
    "e_producer (edges ?G k) = j" "e_consumer (edges ?G k) = c"
    using lookup_edge_linked [OF rt i] by blast
  have cn: "c < nr_nodes ?G"
    using linkedD(3) [OF inv k(2)] k(4) by simp
  have r': "good_rate X L (e_producer (edges ?G k)) r"
    using r k(3) by simp
  obtain y where y: "next_y b (to_int (nr_produce (e_attr (edges ?G k)))) (to_int (nr_consume (e_attr (edges ?G k)))) r = Some y"
    "y \<noteq> 0" "unat y dvd L"
    and nxt: "\<And>z. unat y dvd unat z \<Longrightarrow> unat z dvd L \<Longrightarrow> \<exists>r'.
      next_rate z (to_int (nr_produce (e_attr (edges ?G k)))) (to_int (nr_consume (e_attr (edges ?G k)))) r = Some r' \<and>
      ry r' = z \<and> (z \<noteq> 0 \<longrightarrow> good_rate X L c r')"
    using next_rate_good [OF laws bal inv k(2) r', unfolded k(4)] by blast
  note run = k(1) edge_counts [OF rt k(2)] name_of_node [OF rt cn] rt_names_nonempty [OF rt cn] y(1)
  have upd: "rates_good ?G X L (rm(?nm \<mapsto> new))" if "good_rate X L c new" for new
    using rm cn that unfolding rates_good_def by (auto split: if_splits)
  show ?thesis
  proof (cases "rm ?nm")
    case None
    obtain new where "next_rate y (to_int (nr_produce (e_attr (edges ?G k)))) (to_int (nr_consume (e_attr (edges ?G k)))) r = Some new"
      "good_rate X L c new"
      using nxt [of y] y(2,3) by auto
    then show ?thesis
      using run None upd [of new] by (auto simp: visit_succ_def extends_def)
  next
    case (Some old)
    note old = rates_goodD [OF rt rm cn Some]
    let ?z = "b_lcm b y (ry old)"
    have L: "0 < L" "unat (ry old) dvd L"
      using bal old by (simp_all add: balanced_def good_rate_def)
    have dvd: "lcm (unat y) (unat (ry old)) dvd L"
      using y(3) L(2) by (rule lcm_least)
    have "L < 2 ^ 64"
    proof -
      have "1 * L \<le> unat (nr_consume (e_attr (edges ?G k))) * L"
        using balancedD(6) [OF bal inv k(2)] by (intro mult_le_mono1) simp
      then show ?thesis
        using order.strict_trans1 [OF _ balancedD(5) [OF bal inv k(2)]] by simp
    qed
    then have z: "unat ?z = lcm (unat y) (unat (ry old))"
      using laws dvd_imp_le [OF dvd L(1)] by (simp add: gcd_laws_def)
    have "?z \<noteq> 0"
    proof
      assume "?z = 0"
      then show False
        using z y(2) old by (simp add: good_rate_def unat_eq_zero)
    qed
    then obtain new where "next_rate ?z (to_int (nr_produce (e_attr (edges ?G k)))) (to_int (nr_consume (e_attr (edges ?G k)))) r = Some new"
      "good_rate X L c new"
      using nxt [of ?z] z dvd by auto
    then show ?thesis
      using run Some upd [of new] rm validate_rate_good [OF rt bal rm cn] by (auto simp: visit_succ_def extends_def Let_def)
  qed
qed

lemma extends_trans:
  assumes "extends g C st st'" and "extends g D st' st''"
  shows "extends g (C \<union> D) st st''"
proof -
  note 1 = assms(1) [unfolded extends_def] and 2 = assms(2) [unfolded extends_def]
  have "dom (fst st'') = dom (fst st) \<union> node_name g ` (C \<union> D)"
    using 1 [THEN conjunct1] 2 [THEN conjunct1] by (simp add: image_Un Un_assoc)
  moreover have "snd st \<subseteq> snd st''"
    using 1 2 order.trans [of "snd st" "snd st'" "snd st''"] by simp
  moreover have "snd st'' \<subseteq> snd st \<union> node_name g ` (C \<union> D)"
    using 1 [THEN conjunct2] 2 [THEN conjunct2] by (auto simp: image_Un)
  moreover have "dom (fst st'') \<subseteq> dom (fst st) \<union> snd st''"
  proof
    fix nm assume "nm \<in> dom (fst st'')"
    then have "nm \<in> dom (fst st') \<or> nm \<in> snd st''"
      using 2 by blast
    moreover have "nm \<in> dom (fst st') \<Longrightarrow> nm \<in> dom (fst st) \<or> nm \<in> snd st'"
      using 1 by blast
    moreover have "nm \<in> snd st' \<Longrightarrow> nm \<in> snd st''"
      using 2 by blast
    ultimately show "nm \<in> dom (fst st) \<union> snd st''"
      by blast
  qed
  ultimately show ?thesis
    by (simp add: extends_def)
qed

lemma visit_succs_good:
  assumes "rt_graph s g" and "gcd_laws b" and "balanced (graph_of s g) X L"
    and "rates_good (graph_of s g) X L rm" and "good_rate X L j r" and "set cs \<subseteq> set (succs (graph_of s g) j)"
  shows "\<exists>st. visit_succs b s (node_hd g j) r (map (node_hd g) cs) (rm, tv) = Some st \<and>
    rates_good (graph_of s g) X L (fst st) \<and> extends (graph_of s g) (set cs) (rm, tv) st"
  using assms(4,6)
proof (induction cs arbitrary: rm tv)
  case (Cons c cs)
  obtain rm1 tv1 where 1: "visit_succ b s (node_hd g j) r (node_hd g c) (rm, tv) = Some (rm1, tv1)"
    "rates_good (graph_of s g) X L rm1" "extends (graph_of s g) {c} (rm, tv) (rm1, tv1)"
    using visit_succ_good [OF assms(1-3) Cons.prems(1) assms(5), of c tv] Cons.prems(2) by auto
  obtain st where "visit_succs b s (node_hd g j) r (map (node_hd g) cs) (rm1, tv1) = Some st"
    "rates_good (graph_of s g) X L (fst st)" "extends (graph_of s g) (set cs) (rm1, tv1) st"
    using Cons.IH [OF 1(2), of tv1] Cons.prems(2) by auto
  then show ?case
    using 1(1) extends_trans [OF 1(3), of "set cs" st] by auto
qed (simp add: extends_def)

text \<open>
  The invariant of the loop, for the set \<open>D\<close> of nodes whose rates are given: only nodes reachable from them get a
  rate, and the successors of every rated node that is not on the worklist are rated.
\<close>

definition loop_ok :: "pgm_graph \<Rightarrow> (nat \<Rightarrow> nat) \<Rightarrow> nat \<Rightarrow> nat set \<Rightarrow> (string \<rightharpoonup> rate) \<Rightarrow> string set \<Rightarrow> bool" where
  "loop_ok g X L D rm tv \<longleftrightarrow> rates_good g X L rm \<and> finite tv \<and> tv \<subseteq> dom rm \<and> node_name g ` D \<subseteq> dom rm \<and>
     dom rm \<subseteq> node_name g ` ((succ_rel g True)\<^sup>* `` D) \<and>
     (\<forall>j < nr_nodes g. node_name g j \<in> dom rm - tv \<longrightarrow> node_name g ` set (succs g j) \<subseteq> dom rm)"

lemma succs_succ_rel: "rt_graph s g \<Longrightarrow> c \<in> set (succs (graph_of s g) j) \<longleftrightarrow> (j, c) \<in> succ_rel (graph_of s g) True"
  using rt_graphD(6) linkedD(1) [OF rt_graphD(3)] unfolding set_succs succ_rel_def by blast

lemma reach_nodes:
  assumes "graph_inv g" and "D \<subseteq> {..<nr_nodes g}"
  shows "(succ_rel g True)\<^sup>* `` D \<subseteq> {..<nr_nodes g}"
proof -
  have "c < nr_nodes g" if "(j, c) \<in> (succ_rel g True)\<^sup>*" "j < nr_nodes g" for j c
    using that by (induction rule: rtrancl_induct) (auto simp: succ_rel_def dest: linkedD(3) [OF assms(1)])
  then show ?thesis
    using assms(2) by auto
qed

lemma rates_visit_good:
  assumes rt: "rt_graph s g" and laws: "gcd_laws b" and bal: "balanced (graph_of s g) X L"
    and D: "D \<subseteq> {..<nr_nodes (graph_of s g)}" and ok: "loop_ok (graph_of s g) X L D rm tv" and "tv \<noteq> {}"
  shows "\<exists>rm' tv'. rates_visit b g s (rm, tv) = Some (rm', tv') \<and> loop_ok (graph_of s g) X L D rm' tv'"
proof -
  let ?G = "graph_of s g"
  let ?nm = "Min tv"
  have good: "rates_good ?G X L rm" and fin: "finite tv" and sub: "tv \<subseteq> dom rm" "node_name ?G ` D \<subseteq> dom rm"
    and reach: "dom rm \<subseteq> node_name ?G ` ((succ_rel ?G True)\<^sup>* `` D)"
    and closed: "\<And>j. j < nr_nodes ?G \<Longrightarrow> node_name ?G j \<in> dom rm - tv \<Longrightarrow> node_name ?G ` set (succs ?G j) \<subseteq> dom rm"
    using ok unfolding loop_ok_def by (elim conjE; blast)+
  have "?nm \<in> tv"
    using fin \<open>tv \<noteq> {}\<close> by simp
  then have "?nm \<in> dom rm"
    using sub(1) by blast
  then obtain j where j: "?nm = node_name ?G j" "j \<in> (succ_rel ?G True)\<^sup>* `` D"
    using reach by blast
  then have jn: "j < nr_nodes ?G"
    using reach_nodes [OF rt_graphD(3) [OF rt] D] by auto
  obtain r where r: "rm ?nm = Some r" "good_rate X L j r"
    using \<open>?nm \<in> dom rm\<close> rates_goodD [OF rt good jn] j(1) by auto
  have look: "lookup_node s g ?nm = Some (node_hd g j)"
    using lookup_node_exact [OF rt jn] j(1) by simp
  obtain rm' tv' where st: "visit_succs b s (node_hd g j) r (map (node_hd g) (succs ?G j)) (rm, tv - {?nm}) = Some (rm', tv')"
    "rates_good ?G X L rm'" and ext: "extends ?G (set (succs ?G j)) (rm, tv - {?nm}) (rm', tv')"
    using visit_succs_good [OF rt laws bal good r(2), of "succs ?G j" "tv - {?nm}"] by auto
  have e: "dom rm' = dom rm \<union> node_name ?G ` set (succs ?G j)" "tv - {?nm} \<subseteq> tv'"
    "tv' \<subseteq> (tv - {?nm}) \<union> node_name ?G ` set (succs ?G j)" "dom rm' \<subseteq> dom rm \<union> tv'"
    using ext unfolding extends_def fst_conv snd_conv by (elim conjE; blast)+
  have "rates_visit b g s (rm, tv) = Some (rm', tv')"
    using rates_visit_unfold [OF rt look jn, of b rm] st(1) r(1) by (simp add: fun_upd_idem)
  moreover have "loop_ok ?G X L D rm' tv'"
    unfolding loop_ok_def
  proof (intro conjI allI impI)
    show "finite tv'"
      using finite_subset [OF e(3)] fin by simp
    show "tv' \<subseteq> dom rm'" "node_name ?G ` D \<subseteq> dom rm'"
      using e(1,3) sub by auto
    have "set (succs ?G j) \<subseteq> (succ_rel ?G True)\<^sup>* `` D"
      using j(2) succs_succ_rel [OF rt] by (auto intro: rtrancl_into_rtrancl)
    then show "dom rm' \<subseteq> node_name ?G ` ((succ_rel ?G True)\<^sup>* `` D)"
      using e(1) reach by blast
    fix i assume i: "i < nr_nodes ?G" "node_name ?G i \<in> dom rm' - tv'"
    then have "node_name ?G i \<in> dom rm - tv \<or> node_name ?G i = ?nm"
      using e(2,4) by blast
    then show "node_name ?G ` set (succs ?G i) \<subseteq> dom rm'"
      using closed [OF i(1)] rt_names_inj [OF rt i(1) jn] j(1) e(1) by auto
  qed (rule st(2))
  ultimately show ?thesis
    by blast
qed

lemma rates_loop_good:
  assumes rt: "rt_graph s g" and acyc: "acyclic (succ_rel (graph_of s g) True)" and laws: "gcd_laws b"
    and bal: "balanced (graph_of s g) X L" and D: "D \<subseteq> {..<nr_nodes (graph_of s g)}" and ok: "loop_ok (graph_of s g) X L D rm tv"
  shows "\<exists>rm'. rates_loop b g s rm tv = Some (Some rm') \<and> rates_good (graph_of s g) X L rm' \<and>
    dom rm' = node_name (graph_of s g) ` ((succ_rel (graph_of s g) True)\<^sup>* `` D)"
  using ok
proof (induction "sum (name_weight s g) tv" arbitrary: rm tv rule: less_induct)
  case less
  let ?G = "graph_of s g"
  show ?case
  proof (cases "tv = {}")
    case True
    have "node_name ?G c \<in> dom rm" if c: "(j, c) \<in> (succ_rel ?G True)\<^sup>*" "j \<in> D" for j c
      using c
    proof (induction rule: rtrancl_induct)
      case base
      then show ?case
        using less.prems by (auto simp: loop_ok_def)
    next
      case (step c d)
      then have "c < nr_nodes ?G" "d \<in> set (succs ?G c)"
        using reach_nodes [OF rt_graphD(3) [OF rt] D] succs_succ_rel [OF rt] by auto
      then show ?case
        using step less.prems True unfolding loop_ok_def by blast
    qed
    then have "node_name ?G ` ((succ_rel ?G True)\<^sup>* `` D) \<subseteq> dom rm"
      by auto
    then show ?thesis
      using less.prems True by (subst rates_loop.simps) (auto simp: loop_ok_def)
  next
    case False
    obtain rm' tv' where v: "rates_visit b g s (rm, tv) = Some (rm', tv')" "loop_ok ?G X L D rm' tv'"
      using rates_visit_good [OF rt laws bal D less.prems False] by blast
    have "finite tv"
      using less.prems by (simp add: loop_ok_def)
    then show ?thesis
      using less.hyps [OF _ v(2)] rates_visit_weight [OF rt acyc _ False v(1)] v(1) False by (subst rates_loop.simps) simp
  qed
qed

section \<open>Rates and periods as text\<close>

type_synonym rate_desc = "string \<times> string \<times> string"

fun show_rate :: "rate_desc \<Rightarrow> string" where
  "show_rate (nm, xs, ys) = nm @ CHR '':'' # xs @ CHR '':'' # ys"

fun show_rates :: "rate_desc list \<Rightarrow> string" where
  "show_rates [] = []"
| "show_rates [e] = show_rate e"
| "show_rates (e # es) = show_rate e @ CHR '','' # show_rates es"

definition rate_ok :: "boost \<Rightarrow> pgm_graph \<Rightarrow> (nat \<Rightarrow> nat) \<Rightarrow> nat \<Rightarrow> rate_desc \<Rightarrow> bool" where
  "rate_ok b g X L e \<longleftrightarrow> (case e of (nm, xs, ys) \<Rightarrow>
     (\<forall>t \<in> {nm, xs, ys}. set t \<inter> {CHR '','', CHR '':''} = {}) \<and>
     (\<exists>j d x y. j < nr_nodes g \<and> nm = node_name g j \<and> b_to_double b ys = Some d \<and> b_to_uint64 b xs = Some x \<and>
       double_to_uint64 (ms2us d) = Some y \<and> good_rate X L j \<lparr>ry = y, rx = x\<rparr>))"

lemma tokens_show_rate:
  assumes "rate_ok b g X L (nm, xs, ys)"
  shows "tokens {CHR '':''} (show_rate (nm, xs, ys)) = [nm, xs, ys]"
    and "tokens {CHR '',''} (show_rate (nm, xs, ys)) = [show_rate (nm, xs, ys)]"
proof -
  have "set t \<inter> {CHR '':''} = {}" "set t \<inter> {CHR '',''} = {}" if "t \<in> {nm, xs, ys}" for t
    using assms that by (auto simp: rate_ok_def)
  then show "tokens {CHR '':''} (show_rate (nm, xs, ys)) = [nm, xs, ys]"
    "tokens {CHR '',''} (show_rate (nm, xs, ys)) = [show_rate (nm, xs, ys)]"
    by (simp_all add: tokens_append tokens_free)
qed

lemma tokens_show_rates:
  assumes "\<forall>e \<in> set es. rate_ok b g X L e" and "es \<noteq> []"
  shows "tokens {CHR '',''} (show_rates es) = map show_rate es"
  using assms
proof (induction es rule: show_rates.induct)
  case (2 e)
  then show ?case
    using tokens_show_rate(2) [of b g X L] by (cases e) (simp del: show_rate.simps)
next
  case (3 e e' es)
  then show ?case
    using tokens_show_rate(2) [of b g X L] by (cases e) (simp add: tokens_glue del: show_rate.simps)
qed simp

lemma given_rates_good:
  assumes "split_law b" and "\<forall>e \<in> set es. rate_ok b g X L e" and "rates_good g X L rm"
  shows "\<exists>rm'. given_rates b (map show_rate es) rm tv = Some (Inr (rm', tv \<union> fst ` set es)) \<and> rates_good g X L rm' \<and>
    dom rm' = dom rm \<union> fst ` set es"
  using assms(2,3)
proof (induction es arbitrary: rm tv)
  case (Cons e es)
  obtain nm xs ys where e: "e = (nm, xs, ys)"
    by (cases e)
  then have ok: "rate_ok b g X L (nm, xs, ys)"
    using Cons.prems(1) by simp
  then obtain j d x y where j: "j < nr_nodes g" "nm = node_name g j" "b_to_double b ys = Some d" "b_to_uint64 b xs = Some x"
    "double_to_uint64 (ms2us d) = Some y" "good_rate X L j \<lparr>ry = y, rx = x\<rparr>"
    unfolding rate_ok_def by auto
  let ?rm = "if nm \<in> dom rm then rm else rm(nm \<mapsto> \<lparr>ry = y, rx = x\<rparr>)"
  have split: "b_split b {CHR '':''} (show_rate e) = [nm, xs, ys]"
    using assms(1) tokens_show_rate(1) [OF ok] unfolding e split_law_def by simp
  have "rates_good g X L ?rm"
    using Cons.prems(2) j(1,2,6) unfolding rates_good_def by (auto split: if_splits)
  then obtain rm' where "given_rates b (map show_rate es) ?rm (insert nm tv) = Some (Inr (rm', insert nm tv \<union> fst ` set es))"
    "rates_good g X L rm'" "dom rm' = dom ?rm \<union> fst ` set es"
    using Cons.IH [of ?rm "insert nm tv"] Cons.prems(1) by auto
  moreover have "given_rates b (map show_rate (e # es)) rm tv = given_rates b (map show_rate es) ?rm (insert nm tv)"
    using split j(3-5) by simp
  moreover have "dom ?rm = insert nm (dom rm)"
    by auto
  ultimately show ?case
    using e by simp
qed simp

lemma ratio_eq:
  fixes x y L X :: nat
  assumes "x * L = X * y" and "0 < x" and "0 < X"
  shows "real y / real x = real L / real X"
  using arg_cong [OF assms(1), of real] assms(2,3) by (simp add: field_simps)

lemma close_divide: "close k a b \<Longrightarrow> close k (a / 1000) (b / 1000)"
  using close_scale [of k a b "1 / 1000"] by simp

text \<open>The period of a node that is executed \<open>x\<close> times in \<open>L\<close> microseconds, as it is computed.\<close>

definition period_ms :: "nat \<Rightarrow> nat \<Rightarrow> real" where
  "period_ms L x = nearest (nearest (real L / real x) / 1000)"

lemma nearest_of_nat: "n \<le> 2 ^ 53 \<Longrightarrow> nearest (real n) = real n"
  using nearest_of_int [of "int n"] of_nat_mono [of n "2 ^ 53", where 'a = int] by simp

lemma to_double_of_nat:
  assumes "n \<le> 2 ^ 53"
  shows "to_double (real n) = Some (real n)"
proof -
  have "real n \<le> 2 ^ 53"
    using of_nat_mono [OF assms, where 'a = real] by simp
  moreover have "(2 :: real) ^ 53 \<le> 2 ^ 1000"
    by (rule power_increasing) simp_all
  ultimately have "\<bar>real n\<bar> \<le> 2 ^ 1000"
    by linarith
  then show ?thesis
    using nearest_of_nat [OF assms] by (simp add: to_double_finite)
qed

lemma small_powers: "(2 :: real) powr (-1000) \<le> 2 powr (-63)" "(2 :: real) powr (-63) \<le> 2 powr (-53) / 1000" "(2 :: real) powr (-53) = 1 / 2 ^ 53"
proof -
  show "(2 :: real) powr (-1000) \<le> 2 powr (-63)" and p: "(2 :: real) powr (-53) = 1 / 2 ^ 53"
    using powr_minus_divide [of "2 :: real" 53] powr_realpow [of 2 53] by simp_all
  moreover have "(2 :: real) powr (-63) = 1 / 2 ^ 63"
    using powr_minus_divide [of "2 :: real" 63] powr_realpow [of 2 63] by simp
  ultimately show "(2 :: real) powr (-63) \<le> 2 powr (-53) / 1000"
    by simp
qed

lemma ratio_bounds:
  assumes "0 < L" and "L \<le> 2 ^ 53" and "0 < x" and "x \<le> 2 ^ 53"
  shows "2 powr (-53) \<le> real L / real x" and "real L / real x \<le> 2 ^ 53"
proof -
  have x: "1 \<le> real x" "real x \<le> 2 ^ 53" and L: "1 \<le> real L" "real L \<le> 2 ^ 53"
    using assms of_nat_mono [OF assms(4), where 'a = real] of_nat_mono [OF assms(2), where 'a = real] by simp_all
  have "1 / 2 ^ 53 \<le> real L / real x"
    using x L by (intro frac_le) simp_all
  then show "2 powr (-53) \<le> real L / real x"
    by (simp only: small_powers(3))
  have "real L / real x \<le> 2 ^ 53 / 1"
    using x L by (intro frac_le) simp_all
  then show "real L / real x \<le> 2 ^ 53"
    by simp
qed

lemma period_ms_close:
  assumes "0 < L" and "L \<le> 2 ^ 53" and "0 < x" and "x \<le> 2 ^ 53"
  shows "close 2 (period_ms L x) (real L / real x / 1000)" and "2 powr (-63) \<le> period_ms L x" and "period_ms L x \<le> 2 ^ 53"
    and "us2ms (to_double (real L / real x)) = Some (period_ms L x)"
proof -
  define q where "q = real L / real x"
  have q: "2 powr (-53) \<le> q" "q \<le> 2 ^ 53"
    using ratio_bounds [OF assms] by (simp_all add: q_def)
  have "sizable q"
    using q(1) small_powers(1,2) powr_ge_zero [of 2 "-53"] unfolding sizable_def by linarith
  note c = close_nearest(1) [OF this]
  have n: "2 powr (-53) \<le> nearest q"
    using nearest_ge_power [of "-53" q] q(1) by simp
  then have m: "2 powr (-63) \<le> nearest q / 1000"
    using small_powers(2) by linarith
  then have "sizable (nearest q / 1000)"
    using small_powers(1) unfolding sizable_def by linarith
  note c' = close_nearest(1) [OF this]
  show cl: "close 2 (period_ms L x) (real L / real x / 1000)"
    using close_trans [OF c' close_divide [OF c]] by (simp add: period_ms_def q_def numeral_2_eq_2)
  show "2 powr (-63) \<le> period_ms L x"
    using nearest_ge_power [of "-63", OF _ _] m by (simp add: period_ms_def q_def)
  have "period_ms L x - q / 1000 \<le> real 2 * (q / 1000) / 2 ^ 52"
    by (rule abs_le_D1) (use close_error [OF cl] in \<open>simp add: q_def\<close>)
  moreover have "0 \<le> q"
    using q(1) powr_ge_zero [of 2 "-53"] by linarith
  ultimately show "period_ms L x \<le> 2 ^ 53"
    using q(2) by simp
  have "nearest q - q \<le> real 1 * q / 2 ^ 52"
    by (rule abs_le_D1) (use close_error [OF c] in simp)
  then have "nearest q \<le> 2 ^ 54"
    using q(2) by simp
  moreover have "0 \<le> nearest q" "0 \<le> q"
    using n q(1) powr_ge_zero [of 2 "-53"] by linarith+
  moreover have "(2 :: real) ^ 54 \<le> 2 ^ 1000"
    by (rule power_increasing) simp_all
  ultimately have "\<bar>q\<bar> \<le> 2 ^ 1000" "\<bar>nearest q / 1000\<bar> \<le> 2 ^ 1000"
    using q(2) by simp_all
  then show "us2ms (to_double (real L / real x)) = Some (period_ms L x)"
    by (simp add: us2ms_def d_div_def to_double_finite period_ms_def flip: q_def)
qed

lemma good_rate_period:
  assumes "good_rate X L j r" and "0 < L" and "L \<le> 2 ^ 53" and "0 < X j" and "X j \<le> 2 ^ 53"
  shows "us2ms (d_div (to_double (real (unat (ry r)))) (nearest (real (unat (rx r))))) = Some (period_ms L (X j))"
proof -
  note r = good_rate_bounds [OF assms(1,2)]
  have eq: "unat (rx r) * L = X j * unat (ry r)"
    using assms(1) by (simp add: good_rate_def)
  then have x: "0 < unat (rx r)"
    using r(1) assms(4) by (metis mult_is_0 not_gr_zero)
  have le: "unat (ry r) \<le> 2 ^ 53" "unat (rx r) \<le> 2 ^ 53"
    using r(2,3) assms(3,5) by linarith+
  then have "d_div (to_double (real (unat (ry r)))) (nearest (real (unat (rx r)))) = to_double (real L / real (X j))"
    unfolding to_double_of_nat [OF le(1)] nearest_of_nat [OF le(2)] d_div_def
    using ratio_eq [OF eq x assms(4)] of_nat_0_less_iff [THEN iffD2, OF x, where 'a1 = real] by (simp only: option.case) simp
  then show ?thesis
    using period_ms_close(4) [OF assms(2-5)] by simp
qed

definition exact_counts :: "pgm_graph \<Rightarrow> (nat \<Rightarrow> nat) \<Rightarrow> nat \<Rightarrow> bool" where
  "exact_counts g X L \<longleftrightarrow> L \<le> 2 ^ 53 \<and> (\<forall>j < nr_nodes g. X j \<le> 2 ^ 53)"

lemma set_periods_good:
  assumes rt: "rt_graph s g" and bal: "balanced (graph_of s g) X L" and exact: "exact_counts (graph_of s g) X L" and good: "rates_good (graph_of s g) X L rm"
    and js: "set js \<subseteq> {..<nr_nodes (graph_of s g)}" "node_name (graph_of s g) ` set js \<subseteq> dom rm"
  shows "\<exists>P'. set_periods s g rm (map (node_name (graph_of s g)) js) P = Some P' \<and>
    (\<forall>j \<in> set js. P' (node_hd g j) = Some (Some (period_ms L (X j)))) \<and>
    (\<forall>n. n \<notin> node_hd g ` set js \<longrightarrow> P' n = P n)"
  using js
proof (induction js arbitrary: P)
  case (Cons j js)
  let ?G = "graph_of s g"
  have j: "j < nr_nodes ?G"
    using Cons.prems(1) by simp
  obtain r where r: "rm (node_name ?G j) = Some r" "good_rate X L j r"
    using Cons.prems(2) rates_goodD [OF rt good j] by auto
  have pos: "0 < L" "L \<le> 2 ^ 53" "0 < X j" "X j \<le> 2 ^ 53"
    using bal exact j by (simp_all add: balanced_def exact_counts_def)
  note p = good_rate_period [OF r(2) pos]
  have rest: "set js \<subseteq> {..<nr_nodes ?G}" "node_name ?G ` set js \<subseteq> dom rm"
    using Cons.prems by simp_all
  let ?P = "P(node_hd g j \<mapsto> Some (period_ms L (X j)))"
  obtain P' where P': "set_periods s g rm (map (node_name ?G) js) ?P = Some P'"
    "\<forall>j \<in> set js. P' (node_hd g j) = Some (Some (period_ms L (X j)))" "\<forall>n. n \<notin> node_hd g ` set js \<longrightarrow> P' n = ?P n"
    using Cons.IH [OF rest, of ?P] by blast
  have "P' (node_hd g j) = Some (Some (period_ms L (X j)))"
    using P'(2) P'(3) [THEN spec, of "node_hd g j"] by (cases "j \<in> set js") auto
  moreover have "set_periods s g rm (map (node_name ?G) (j # js)) P = Some P'"
    using lookup_node_exact [OF rt j] r(1) p P'(1) by simp
  ultimately show ?case
    using P'(2,3) by auto
qed simp

lemma list_in_image: "set ys \<subseteq> f ` A \<Longrightarrow> \<exists>xs. ys = map f xs \<and> set xs \<subseteq> A"
proof (induction ys)
  case (Cons y ys)
  then obtain x xs where "y = f x" "x \<in> A" "ys = map f xs" "set xs \<subseteq> A"
    by auto
  then show ?case
    by (intro exI [of _ "x # xs"]) simp
qed simp

section \<open>Properties\<close>

lemma given_rates_finite: "given_rates b toks rm tv = Some (Inr (rm', tv')) \<Longrightarrow> finite tv \<Longrightarrow> finite tv'"
  by (induction toks arbitrary: rm tv) (auto split: list.splits option.splits)

lemma parse_graph_rates_ends:
  assumes "rt_graph s g" and "acyclic (succ_rel (graph_of s g) True)"
  shows "\<exists>r. parse_graph_rates b str g s P = Some r"
proof (cases "given_rates b (b_split b {CHR '',''} str) Map.empty {}")
  case (Some r)
  show ?thesis
  proof (cases r)
    case (Inr st)
    then obtain rm tv where st: "given_rates b (b_split b {CHR '',''} str) Map.empty {} = Some (Inr (rm, tv))"
      using Some by (cases st) auto
    obtain r' where "rates_loop b g s rm tv = Some r'"
      using rates_loop_ends [OF assms given_rates_finite [OF st]] by auto
    then show ?thesis
      using st by (auto simp: parse_graph_rates_def split: option.splits)
  qed (use Some in \<open>simp add: parse_graph_rates_def\<close>)
qed (simp add: parse_graph_rates_def)

text \<open>
  The computation of the rates ends.  On every graph that was built from a description and accepted, and
  for every rate string, \<open>parse_graph_rates\<close> returns, throws or does something undefined; it never loops, although
  its numbers may wrap around and a node may be put back on the worklist many times.
\<close>

lemma parse_graph_rates_returns:
  fixes s :: "'w pgm_state"
  assumes "split_law b" and "state_inv s" and "live_graph s h" and "gIsGraphMaster s self"
    and "nr_nodes (graph_of s h) = 0" and "nr_edges (graph_of s h) = 0"
    and "ds \<noteq> []" and "\<forall>d \<in> set ds. desc_ok b d" and "card (desc_names ds) < PGM_MAX_NODES"
    and "length ds < PGM_MAX_EDGES" and "degrees_ok ds"
    and "parse_graph_description b os self (show_desc ds) h s = Some (Inr r, s')"
  shows "\<exists>result. parse_graph_rates b rateString h s' periods = Some result"
proof -
  have "building self h s"
    using assms(2-4) by (simp add: building_def)
  then have s': "building self h s'" "graph_as b (graph_of s' h) (sorted_list_of_set (desc_names ds)) ds" "acyclic (desc_rel ds)"
    using description_builds [OF assms(1) _ assms(5-11), of self os] assms(12) by (auto split: if_splits)
  then have "graph_inv (graph_of s' h)"
    using state_invD by (auto simp: building_def)
  then have "acyclic (succ_rel (graph_of s' h) True)"
    using graph_as_acyclic [OF _ s'(2)] s'(3) by simp
  then show ?thesis
    using parse_graph_rates_ends [OF building_rt_graph [OF s'(1,2) assms(8)]] by blast
qed

text \<open>The last loop sets a period for every node with a rate, and for no other.\<close>

lemma set_periods_all:
  fixes s :: "'w pgm_state" and g :: graph_t
  defines "G \<equiv> graph_of s g"
  assumes "rt_graph s g" and "balanced G X L" and "exact_counts G X L" and "rates_good G X L rm'" and "dom rm' = node_name G ` R" and R: "R \<subseteq> {..<nr_nodes G}"
  shows "\<exists>P. set_periods s g rm' (sorted_list_of_set (dom rm')) Map.empty = Some P \<and> dom P = node_hd g ` R \<and>
    (\<forall>j \<in> R. P (node_hd g j) = Some (Some (period_ms L (X j))))"
proof -
  have fin: "finite (dom rm')"
    using assms(6) finite_subset [OF R] by simp
  then obtain js where js: "sorted_list_of_set (dom rm') = map (node_name G) js" "set js \<subseteq> R"
    using list_in_image [of "sorted_list_of_set (dom rm')" "node_name G" R] assms(6) by auto
  moreover have "R \<subseteq> set js"
  proof
    fix j assume j: "j \<in> R"
    have "node_name G ` R = node_name G ` set js"
      using assms(6) arg_cong [OF js(1), of set] fin by simp
    then have "node_name G j \<in> node_name G ` set js"
      using imageI [OF j, of "node_name G"] by simp
    then obtain k where k: "k \<in> set js" "node_name G j = node_name G k"
      by blast
    then show "j \<in> set js"
      using rt_names_inj [OF assms(2), folded G_def, of j k] subsetD [OF R j] subsetD [OF R subsetD [OF js(2) k(1)]] by simp
  qed
  ultimately have set: "set js = R"
    by blast
  have "set js \<subseteq> {..<nr_nodes G}" "node_name G ` set js \<subseteq> dom rm'"
    using R set assms(6) by simp_all
  then obtain P where P: "set_periods s g rm' (sorted_list_of_set (dom rm')) Map.empty = Some P"
    "\<forall>j \<in> R. P (node_hd g j) = Some (Some (period_ms L (X j)))" "\<forall>n. n \<notin> node_hd g ` R \<longrightarrow> P n = None"
    using set_periods_good [OF assms(2) assms(3-5) [unfolded G_def], folded G_def, of js Map.empty]
    unfolding js(1) set by auto
  have "dom P = node_hd g ` R"
  proof
    show "dom P \<subseteq> node_hd g ` R"
    proof (rule subsetI, rule ccontr)
      fix n assume "n \<in> dom P" "n \<notin> node_hd g ` R"
      then show False
        using P(3) [THEN spec, of n] by (simp only: domIff simp_thms)
    qed
    show "node_hd g ` R \<subseteq> dom P"
      using P(2) by (intro image_subsetI) (simp only: domIff option.distinct not_False_eq_True)
  qed
  then show ?thesis
    by (intro exI [of _ P] conjI P(1,2))
qed

text \<open>Reading the rates, propagating them and setting the periods, one after the other.\<close>

lemma rates_periods:
  fixes s :: "'w pgm_state" and g :: graph_t
  defines "G \<equiv> graph_of s g"
  assumes "split_law b" and "gcd_laws b" and "rt_graph s g" and "acyclic (succ_rel G True)" and "balanced G X L"
    and "exact_counts G X L" and "es \<noteq> []" and "\<forall>e \<in> set es. rate_ok b G X L e"
  shows "\<exists>P. parse_graph_rates b (show_rates es) g s Map.empty = Some (Some (Inr P)) \<and>
    (let R = (succ_rel G True)\<^sup>* `` {j. j < nr_nodes G \<and> node_name G j \<in> fst ` set es}
     in dom P = node_hd g ` R \<and> (\<forall>j \<in> R. P (node_hd g j) = Some (Some (period_ms L (X j)))))"
proof -
  let ?D = "{j. j < nr_nodes G \<and> node_name G j \<in> fst ` set es}"
  let ?R = "(succ_rel G True)\<^sup>* `` ?D"
  have D: "?D \<subseteq> {..<nr_nodes G}"
    by auto
  have split: "b_split b {CHR '',''} (show_rates es) = map show_rate es"
    using assms(2) tokens_show_rates [OF assms(9,8)] by (simp add: split_law_def)
  obtain rm where rm: "given_rates b (map show_rate es) Map.empty {} = Some (Inr (rm, fst ` set es))"
    "rates_good G X L rm" "dom rm = fst ` set es"
    using given_rates_good [OF assms(2,9), of Map.empty "{}"] by (auto simp: rates_good_def)
  have "node_name G ` ?D = fst ` set es"
    using assms(9) by (auto simp: rate_ok_def image_iff split: prod.splits) (metis fst_conv)
  moreover have "node_name G ` ?D \<subseteq> node_name G ` ?R"
    by (intro image_mono) auto
  ultimately have ok: "loop_ok G X L ?D rm (fst ` set es)"
    using rm by (simp add: loop_ok_def)
  obtain rm' where rm': "rates_loop b g s rm (fst ` set es) = Some (Some rm')" "rates_good G X L rm'" "dom rm' = node_name G ` ?R"
    using rates_loop_good [OF assms(4) assms(5) [unfolded G_def] assms(3) assms(6) [unfolded G_def], folded G_def, OF D ok] by blast
  have R: "?R \<subseteq> {..<nr_nodes G}"
    using reach_nodes [OF rt_graphD(3) [OF assms(4)], folded G_def, OF D] by simp
  obtain P where "set_periods s g rm' (sorted_list_of_set (dom rm')) Map.empty = Some P" "dom P = node_hd g ` ?R"
    "\<forall>j \<in> ?R. P (node_hd g j) = Some (Some (period_ms L (X j)))"
    using set_periods_all [OF assms(4) assms(6,7) [unfolded G_def] rm'(2) [unfolded G_def], folded G_def, OF rm'(3) R]
    by (elim exE conjE) (rule that)
  then show ?thesis
    using split rm(1) rm'(1) by (intro exI [of _ P]) (simp add: parse_graph_rates_def Let_def)
qed

text \<open>
  C16: the periods are right.  On a graph without cycles that is balanced by \<open>X j\<close> executions of each node in \<open>L\<close>
  microseconds, let rates be given for some nodes that agree with these numbers.  Then \<open>parse_graph_rates\<close> returns;
  nothing overflows and no division by zero happens.  Exactly the nodes reachable from the given ones get a
  period, and it is \<open>L / X j\<close> microseconds as a \<open>double\<close> in milliseconds, rounded after each of the two divisions,
  so that its relative error is at most 2 to the \<open>-51\<close>.  The numbers \<open>L\<close> and \<open>X j\<close> must be at most 2 to the 53.
\<close>

theorem rates_give_periods:
  fixes s :: "'w pgm_state" and g :: graph_t
  defines "G \<equiv> graph_of s g"
  assumes "split_law b" and "gcd_laws b" and "rt_graph s g" and "acyclic (succ_rel G True)" and "balanced G X L"
    and "exact_counts G X L" and "es \<noteq> []" and "\<forall>e \<in> set es. rate_ok b G X L e"
  shows "\<exists>P. parse_graph_rates b (show_rates es) g s Map.empty = Some (Some (Inr P)) \<and>
    (let R = (succ_rel G True)\<^sup>* `` {j. j < nr_nodes G \<and> node_name G j \<in> fst ` set es}
     in dom P = node_hd g ` R \<and> (\<forall>j \<in> R. \<exists>p. P (node_hd g j) = Some (Some p) \<and>
       p = nearest (nearest (real L / real (X j)) / 1000) \<and>
       \<bar>p - real L / real (X j) / 1000\<bar> \<le> real L / real (X j) / 1000 / 2 ^ 51))"
proof -
  let ?R = "(succ_rel G True)\<^sup>* `` {j. j < nr_nodes G \<and> node_name G j \<in> fst ` set es}"
  obtain P where P: "parse_graph_rates b (show_rates es) g s Map.empty = Some (Some (Inr P))" "dom P = node_hd g ` ?R"
    "\<forall>j \<in> ?R. P (node_hd g j) = Some (Some (period_ms L (X j)))"
    using rates_periods [OF assms(2-4), folded G_def, OF assms(5-9)] unfolding Let_def by (elim exE conjE) (rule that)
  have "\<bar>period_ms L (X j) - real L / real (X j) / 1000\<bar> \<le> real L / real (X j) / 1000 / 2 ^ 51" if "j \<in> ?R" for j
  proof -
    have "?R \<subseteq> {..<nr_nodes G}"
      by (rule reach_nodes [OF rt_graphD(3) [OF assms(4)], folded G_def]) auto
    then have "j < nr_nodes G"
      using that by blast
    then have "0 < L" "L \<le> 2 ^ 53" "0 < X j" "X j \<le> 2 ^ 53"
      using assms(6,7) by (simp_all add: balanced_def exact_counts_def)
    from close_error [OF period_ms_close(1) [OF this]] show ?thesis
      by simp
  qed
  then show ?thesis
    using P unfolding Let_def by (intro exI [of _ P] conjI ballI) (auto simp: period_ms_def)
qed

section \<open>Examples\<close>

text \<open>The graph of the example description, and the numbers of executions that balance it.\<close>

lemma demo_graph:
  "\<exists>s. parse_graph_description demo_boost sample_os 1 (show_desc demo_descs) 0 one_graph =
      Some (Inr (node_handles 0 3, map (\<lambda>i. \<lparr>egraph = 0, eedge = int i\<rparr>) [0..<2]), s) \<and> building 1 0 s \<and>
    graph_as demo_boost (graph_of s 0) [''a'', ''b'', ''c''] demo_descs"
proof -
  have law: "split_law demo_boost" "nr_nodes (graph_of one_graph 0) = 0" "nr_edges (graph_of one_graph 0) = 0"
    "demo_descs \<noteq> []" "length demo_descs < PGM_MAX_EDGES" "length demo_descs = 2"
    using one_graph_building(2) by (simp_all add: split_law_def demo_boost_def zero_graph_def demo_descs_def PGM_MAX_EDGES_def)
  have "sorted_list_of_set {''a'', ''b'', ''c''} = [''a'', ''b'', ''c'']"
    by (simp add: less_char_def)
  then show ?thesis
    using description_builds [OF law(1) one_graph_building(1) law(2-4) demo_descs_ok _ law(5) demo_degrees, of sample_os] demo_acyclic law(6)
    unfolding demo_names by (auto simp: PGM_MAX_NODES_def upt_rec)
qed

definition demo_runs :: "nat \<Rightarrow> nat" where
  "demo_runs j = (if j = 0 then 2 else 1)"

lemma demo_edges:
  assumes "graph_as demo_boost g [''a'', ''b'', ''c''] demo_descs"
  shows "nr_nodes g = 3" "node_name g 0 = ''a''" "node_name g 1 = ''b''" "node_name g 2 = ''c''" "nr_edges g = 2"
    and "e_producer (edges g 0) = 1" "e_consumer (edges g 0) = 0" "e_producer (edges g 1) = 1" "e_consumer (edges g 1) = 2"
    and "e_attr (edges g 0) = cv_attr 2 1 4" "e_attr (edges g 1) = cv_attr 1 1 1"
    and "\<not> e_is_backedge (edges g 0)" "\<not> e_is_backedge (edges g 1)" "linked g 0" "linked g 1"
proof -
  have n: "nr_nodes g = 3" "node_name g 0 = ''a''" "node_name g 1 = ''b''" "node_name g 2 = ''c''" "nr_edges g = 2"
    using assms by (simp_all add: graph_as_def demo_descs_def numeral_2_eq_2 less_Suc_eq all_conj_distrib)
  then show "nr_nodes g = 3" "node_name g 0 = ''a''" "node_name g 1 = ''b''" "node_name g 2 = ''c''" "nr_edges g = 2"
    by simp_all
  have idx: "j = 0 \<longleftrightarrow> node_name g j = ''a''" "j = 1 \<longleftrightarrow> node_name g j = ''b''" "j = 2 \<longleftrightarrow> node_name g j = ''c''" if "j < 3" for j
    using that n(2-4) by (auto simp: less_Suc_eq numeral_3_eq_3 numeral_2_eq_2)
  have "length demo_descs = 2"
    by (simp add: demo_descs_def)
  then have e: "edge_as demo_boost g (edges g 0) (demo_descs ! 0)" "edge_as demo_boost g (edges g 1) (demo_descs ! 1)"
    using assms by (simp_all add: graph_as_def)
  then show "e_producer (edges g 0) = 1" "e_consumer (edges g 0) = 0" "e_producer (edges g 1) = 1" "e_consumer (edges g 1) = 2"
    using n(1) idx [of "e_producer (edges g 0)"] idx [of "e_consumer (edges g 0)"] idx [of "e_producer (edges g 1)"]
      idx [of "e_consumer (edges g 1)"] by (simp_all add: edge_as_def demo_descs_def)
  show "e_attr (edges g 0) = cv_attr 2 1 4" "e_attr (edges g 1) = cv_attr 1 1 1"
    "\<not> e_is_backedge (edges g 0)" "\<not> e_is_backedge (edges g 1)" "linked g 0" "linked g 1"
    using e by (simp_all add: edge_as_def demo_descs_def desc_attr_def count_at_def demo_boost_def linked_def make_edge_name_def
        PGM_EDGE_NAME_LEN_def)
qed

lemma demo_balanced:
  assumes "graph_inv g" and "graph_as demo_boost g [''a'', ''b'', ''c''] demo_descs"
  shows "balanced g demo_runs 10000"
proof -
  note e = demo_edges [OF assms(2)]
  have i: "i = 0 \<or> i = 1" if "linked g i" for i
    using linkedD(1) [OF assms(1) that] e(5) by auto
  show "balanced g demo_runs 10000"
    unfolding balanced_def Let_def
  proof (rule conjI, simp, rule conjI, simp add: demo_runs_def, intro allI impI)
    fix i assume "linked g i"
    then consider "i = 0" | "i = 1"
      using i by blast
    then show "demo_runs (e_consumer (edges g i)) * unat (nr_consume (e_attr (edges g i))) =
        demo_runs (e_producer (edges g i)) * unat (nr_produce (e_attr (edges g i))) \<and>
      unat (nr_produce (e_attr (edges g i))) < 2 ^ 31 \<and> unat (nr_consume (e_attr (edges g i))) < 2 ^ 31 \<and>
      10000 * unat (nr_produce (e_attr (edges g i))) * demo_runs (e_producer (edges g i)) < 2 ^ 64 \<and>
      unat (nr_consume (e_attr (edges g i))) * 10000 < 2 ^ 64"
      by cases (use e in \<open>simp_all add: demo_runs_def cv_attr_def\<close>)
  qed
qed

lemma demo_laws: "split_law demo_boost" "gcd_laws demo_boost"
proof -
  show "split_law demo_boost"
    by (simp add: split_law_def demo_boost_def)
  have "gcd (unat x) (unat y) < 2 ^ 64" for x y :: "64 word"
  proof (cases "unat x = 0")
    case False
    then have "gcd (unat x) (unat y) \<le> unat x"
      by (rule gcd_le1_nat)
    then show ?thesis
      using order.strict_trans1 [OF _ unat_lt2p [of x]] by simp
  qed simp
  then show "gcd_laws demo_boost"
    by (simp add: gcd_laws_def demo_boost_def unat_of_nat)
qed

lemma parse_graph_rates_returns_witness:
  "\<exists>r s result. parse_graph_description demo_boost sample_os 1 (show_desc demo_descs) 0 one_graph = Some (Inr r, s) \<and>
    parse_graph_rates demo_boost ''b:1:10'' 0 s Map.empty = Some result"
proof -
  obtain r s where s: "parse_graph_description demo_boost sample_os 1 (show_desc demo_descs) 0 one_graph = Some (Inr r, s)"
    using demo_graph by blast
  have laws: "split_law demo_boost" "state_inv one_graph" "live_graph one_graph 0" "gIsGraphMaster one_graph 1"
    "nr_nodes (graph_of one_graph 0) = 0" "nr_edges (graph_of one_graph 0) = 0" "demo_descs \<noteq> []"
    "card (desc_names demo_descs) < PGM_MAX_NODES" "length demo_descs < PGM_MAX_EDGES"
    using one_graph_building unfolding demo_names
    by (simp_all add: split_law_def demo_boost_def building_def zero_graph_def demo_descs_def pgm_limits)
  show ?thesis
    using parse_graph_rates_returns [OF laws(1-7) demo_descs_ok laws(8,9) demo_degrees s] s by blast
qed

lemma demo_rate_ok:
  assumes "nr_nodes g = 3" and "node_name g 1 = ''b''"
  shows "rate_ok demo_boost g demo_runs 10000 (''b'', ''1'', ''10'')"
proof -
  have "ms2us (Some 10) = Some 10000"
    using nearest_of_int [of 10000] to_double_finite [of 10000] power_increasing [of 14 1000 "2 :: real"] by (simp add: ms2us_def d_mult_def)
  then have "double_to_uint64 (ms2us (Some 10)) = Some 10000"
    by (simp add: double_to_uint64_def c_round_def floor_eq_iff)
  moreover have "good_rate demo_runs 10000 1 \<lparr>ry = 10000, rx = 1\<rparr>"
    by (simp add: good_rate_def demo_runs_def)
  moreover have "b_to_double demo_boost ''10'' = Some (Some 10)" "b_to_uint64 demo_boost ''1'' = Some 1"
    by (simp_all add: demo_boost_def)
  moreover have "\<forall>t \<in> {''b'', ''1'', ''10''}. set t \<inter> {CHR '','', CHR '':''} = {}"
    by simp
  ultimately show ?thesis
    unfolding rate_ok_def prod.case using assms by (metis One_nat_def numeral_3_eq_3 less_Suc_eq)
qed

theorem rates_give_periods_witness:
  "\<exists>r s P. parse_graph_description demo_boost sample_os 1 (show_desc demo_descs) 0 one_graph = Some (Inr r, s) \<and>
    parse_graph_rates demo_boost ''b:1:10'' 0 s Map.empty = Some (Some (Inr P)) \<and> P (node_hd 0 1) = Some (Some 10)"
proof -
  obtain r s where s: "parse_graph_description demo_boost sample_os 1 (show_desc demo_descs) 0 one_graph = Some (Inr r, s)"
    "building 1 0 s" and as: "graph_as demo_boost (graph_of s 0) [''a'', ''b'', ''c''] demo_descs"
    using demo_graph by blast
  let ?G = "graph_of s 0" and ?es = "[(''b'', ''1'', ''10'')]"
  have sorted: "sorted_list_of_set (desc_names demo_descs) = [''a'', ''b'', ''c'']"
    unfolding demo_names by (simp add: less_char_def)
  have inv: "graph_inv ?G"
    using s(2) state_invD [of s 0] by (simp add: building_def)
  have rt: "rt_graph s 0"
    by (rule building_rt_graph [OF s(2) _ demo_descs_ok]) (simp add: sorted as)
  have acyc: "acyclic (succ_rel ?G True)"
    using graph_as_acyclic [OF inv as] demo_acyclic by simp
  note bal = demo_balanced [OF inv as] demo_edges(3,1) [OF as]
  have ok: "\<forall>e \<in> set ?es. rate_ok demo_boost ?G demo_runs 10000 e"
    using demo_rate_ok [OF bal(3,2)] by simp
  have exact: "exact_counts ?G demo_runs 10000"
    by (simp add: exact_counts_def demo_runs_def)
  have shown: "show_rates ?es = ''b:1:10''"
    by simp
  obtain P where P: "parse_graph_rates demo_boost ''b:1:10'' 0 s Map.empty = Some (Some (Inr P))"
    "\<forall>j \<in> (succ_rel ?G True)\<^sup>* `` {j. j < nr_nodes ?G \<and> node_name ?G j \<in> fst ` set ?es}.
      \<exists>p. P (node_hd 0 j) = Some (Some p) \<and> p = nearest (nearest (real 10000 / real (demo_runs j)) / 1000) \<and>
        \<bar>p - real 10000 / real (demo_runs j) / 1000\<bar> \<le> real 10000 / real (demo_runs j) / 1000 / 2 ^ 51"
    using rates_give_periods [OF demo_laws rt acyc bal(1) exact list.distinct(2) ok] unfolding shown Let_def
    by (elim exE conjE) (rule that)
  have "1 \<in> (succ_rel ?G True)\<^sup>* `` {j. j < nr_nodes ?G \<and> node_name ?G j \<in> fst ` set ?es}"
    using bal(2,3) by (intro ImageI [OF rtrancl_refl]) simp
  from bspec [OF P(2) this] have "P (node_hd 0 1) = Some (Some (nearest (nearest (real 10000 / real (demo_runs 1)) / 1000)))"
    by blast
  moreover have "nearest (nearest (real 10000 / real (demo_runs 1)) / 1000) = 10"
    using nearest_of_int [of 10000] nearest_of_int [of 10] by (simp add: demo_runs_def)
  ultimately have "P (node_hd 0 1) = Some (Some 10)"
    by simp
  then show ?thesis
    using s(1) P(1) by (intro exI [of _ r] exI [of _ s] exI [of _ P]) simp
qed

end
