(* ===== verification/Pgmrt_Work.thy ===== *)
theory Pgmrt_Work
  imports Pgm_Exec Pgmrt_Rates "HOL-Library.Signed_Division"
begin

text \<open>
  The worker threads of \<^verbatim>\<open>src/tools/pgmrt.cpp\<close>: the working sets of the edges, the jobs that read and write them
  and burn processor time, and \<open>work_thread\<close>, which executes one node until the graph terminates.  The variant
  without the LITMUS kernel is modelled.  The system calls are parameters; they act on the state of the whole
  program, because other threads run meanwhile.  An access outside a buffer, an overflow of an \<open>int\<close> and a division by
  zero are \<open>None\<close>; error messages are left out.
\<close>

section \<open>Working sets\<close>

text \<open>The chunks of a working set are of type \<open>int\<close>, 4 bytes; a pointer into the buffer is an index.\<close>

record WorkingSet =
  ws_buf :: "int list option"
  ws_num :: int
  ws_cycle :: int

definition in_int :: "int \<Rightarrow> bool" where
  "in_int x \<longleftrightarrow> - (2 ^ 31) \<le> x \<and> x < 2 ^ 31"

definition c_int :: "int \<Rightarrow> int option" where
  "c_int x = (if in_int x then Some x else None)"

text \<open>The constructor; \<open>setSize\<close> is converted to the unsigned type of \<open>sizeof\<close>, and \<open>junk\<close> is what the new memory contains.\<close>

definition new_WorkingSet :: "(nat \<Rightarrow> int) \<Rightarrow> int \<Rightarrow> int \<Rightarrow> WorkingSet option" where
  "new_WorkingSet junk setSize cycle =
     (if setSize \<noteq> 0 then
        let sz = (of_int setSize :: 64 word);
            num = to_int (sz div 4 + (if sz mod 4 \<noteq> 0 then 1 else 0))
        in do {len \<leftarrow> c_int (cycle * num);
               if len < 0 then None else Some \<lparr>ws_buf = Some (map junk [0..<nat len]), ws_num = num, ws_cycle = cycle\<rparr>}
      else Some \<lparr>ws_buf = None, ws_num = 0, ws_cycle = cycle\<rparr>)"

definition ws_start :: "WorkingSet \<Rightarrow> int \<Rightarrow> int option" where
  "ws_start ws c = (if ws_cycle ws = 0 \<or> c = - (2 ^ 31) \<and> ws_cycle ws = -1 then None else Some (c smod ws_cycle ws))"

definition ws_end :: "WorkingSet \<Rightarrow> int \<Rightarrow> int option" where
  "ws_end ws c = map_option (\<lambda>p. p + ws_num ws) (ws_start ws c)"

definition ws_load :: "WorkingSet \<Rightarrow> int \<Rightarrow> int option" where
  "ws_load ws p = (case ws_buf ws of None \<Rightarrow> None | Some b \<Rightarrow> if 0 \<le> p \<and> p < int (length b) then Some (b ! nat p) else None)"

definition ws_store :: "WorkingSet \<Rightarrow> int \<Rightarrow> int \<Rightarrow> WorkingSet option" where
  "ws_store ws p v =
     (case ws_buf ws of
        None \<Rightarrow> None
      | Some b \<Rightarrow> if 0 \<le> p \<and> p < int (length b) then Some (ws\<lparr>ws_buf := Some (b[nat p := v])\<rparr>) else None)"

text \<open>The loops over a working set: \<open>n\<close> chunks from \<open>p\<close> on.\<close>

fun sum_chunks :: "WorkingSet \<Rightarrow> int \<Rightarrow> nat \<Rightarrow> int \<Rightarrow> int option" where
  "sum_chunks ws p 0 temp = Some temp"
| "sum_chunks ws p (Suc n) temp = do {x \<leftarrow> ws_load ws p; temp \<leftarrow> c_int (temp + x); sum_chunks ws (p + 1) n temp}"

fun fill_chunks :: "int \<Rightarrow> nat \<Rightarrow> int \<Rightarrow> WorkingSet \<Rightarrow> WorkingSet option" where
  "fill_chunks p 0 v ws = Some ws"
| "fill_chunks p (Suc n) v ws = do {ws \<leftarrow> ws_store ws p v; fill_chunks (p + 1) n v ws}"

definition consume_ws :: "WorkingSet \<Rightarrow> int \<Rightarrow> int option" where
  "consume_ws ws jobNum = do {p \<leftarrow> ws_start ws jobNum; e \<leftarrow> ws_end ws jobNum; sum_chunks ws p (nat (e - p)) 0}"

definition produce_ws :: "int \<Rightarrow> int \<Rightarrow> WorkingSet \<Rightarrow> WorkingSet option" where
  "produce_ws toWrite jobNum ws = do {p \<leftarrow> ws_start ws jobNum; e \<leftarrow> ws_end ws jobNum; fill_chunks p (nat (e - p)) toWrite ws}"

text \<open>The working sets of the program, each referred to by its edge.\<close>

type_synonym sets = "edge_t \<rightharpoonup> WorkingSet"

fun consume_sets :: "sets \<Rightarrow> edge_t list \<Rightarrow> int \<Rightarrow> int \<Rightarrow> int option" where
  "consume_sets m [] jobNum temp = Some temp"
| "consume_sets m (e # es) jobNum temp =
     do {ws \<leftarrow> m e; x \<leftarrow> consume_ws ws jobNum; temp \<leftarrow> c_int (temp + x); consume_sets m es jobNum temp}"

fun produce_sets :: "edge_t list \<Rightarrow> int \<Rightarrow> int \<Rightarrow> sets \<Rightarrow> sets option" where
  "produce_sets [] toWrite jobNum m = Some m"
| "produce_sets (e # es) toWrite jobNum m =
     do {ws \<leftarrow> m e; ws \<leftarrow> produce_ws toWrite jobNum ws; produce_sets es toWrite jobNum (m(e \<mapsto> ws))}"

section \<open>Time\<close>

record 'w prog =
  st :: "'w pgm_state"
  edgeToWs :: sets

record 'w host =
  host_cputime :: "'w prog \<Rightarrow> (int \<times> int) \<times> 'w prog"
  host_time :: "'w prog \<Rightarrow> (int \<times> int) \<times> 'w prog"
  host_sleep :: "int \<Rightarrow> int \<Rightarrow> 'w prog \<Rightarrow> 'w prog"
  host_relax :: "'w prog \<Rightarrow> 'w prog"
  host_barrier :: "'w prog \<Rightarrow> 'w prog"

definition cputime_ns :: "'w host \<Rightarrow> 'w prog \<Rightarrow> 64 word \<times> 'w prog" where
  "cputime_ns host s = (let ((sec, nsec), s) = host_cputime host s in (of_int sec * 1000000000 + of_int nsec, s))"

definition wctime_ns :: "'w host \<Rightarrow> 'w prog \<Rightarrow> 64 word \<times> 'w prog" where
  "wctime_ns host s = (let ((sec, usec), s) = host_time host s in (of_int sec * 1000000000 + of_int usec * 1000, s))"

definition sleep_ns :: "'w host \<Rightarrow> 64 word \<Rightarrow> 'w prog \<Rightarrow> 'w prog" where
  "sleep_ns host ns s = (let seconds = ns div 1000000000; ns = ns - seconds * 1000000000 in host_sleep host (sint seconds) (sint ns) s)"

definition loop_once :: "'w host \<Rightarrow> 'w prog \<Rightarrow> 64 word \<times> 'w prog" where
  "loop_once host s = (let iters = 2 ^ 14 in (of_nat iters, (host_relax host ^^ iters) s))"

section \<open>Jobs\<close>

text \<open>A cursor into the working sets: the number of the set, the pointer and the end pointer.\<close>

type_synonym cursor = "nat \<times> int \<times> int"

definition open_set :: "sets \<Rightarrow> edge_t list \<Rightarrow> int \<Rightarrow> nat \<Rightarrow> cursor option" where
  "open_set m ws jobNum cur = do {w \<leftarrow> m (ws ! cur); p \<leftarrow> ws_start w jobNum; e \<leftarrow> ws_end w jobNum; Some (cur, p, e)}"

fun read_chunks :: "sets \<Rightarrow> edge_t list \<Rightarrow> int \<Rightarrow> nat \<Rightarrow> int \<Rightarrow> cursor \<Rightarrow> (int \<times> cursor) option" where
  "read_chunks m ws jobNum 0 tmp c = Some (tmp, c)"
| "read_chunks m ws jobNum (Suc n) tmp (cur, p, e) =
     do {w \<leftarrow> m (ws ! cur);
         x \<leftarrow> ws_load w p;
         tmp \<leftarrow> c_int (tmp + x);
         if p + 1 = e
         then do {c \<leftarrow> open_set m ws jobNum (if cur + 1 = length ws then 0 else cur + 1); read_chunks m ws jobNum n tmp c}
         else read_chunks m ws jobNum n tmp (cur, p + 1, e)}"

text \<open>One round of work: 1024 chunks of the working sets, or a busy loop when there are none.\<close>

definition work_chunk :: "'w host \<Rightarrow> edge_t list \<Rightarrow> int \<Rightarrow> int \<Rightarrow> cursor \<Rightarrow> 'w prog \<Rightarrow> (int \<times> cursor \<times> 'w prog) option" where
  "work_chunk host ws jobNum tmp c s =
     (if ws \<noteq> [] then map_option (\<lambda>(tmp, c). (tmp, c, s)) (read_chunks (edgeToWs s) ws jobNum (4 * 1024 div 4) tmp c)
      else let (i, s) = loop_once host s in Some (to_int (of_int tmp + i), c, s))"

partial_function (option) spend ::
  "'w host \<Rightarrow> edge_t list \<Rightarrow> int \<Rightarrow> 64 word \<Rightarrow> 64 word \<Rightarrow> 64 word \<Rightarrow> 64 word \<Rightarrow> 64 word \<Rightarrow> int \<Rightarrow> cursor \<Rightarrow> 'w prog \<Rightarrow>
   ((string + int) \<times> 'w prog) option"
where
  "spend host ws jobNum start exec_time emergency_exit now lastLoop tmp c s =
     (if \<not> now + lastLoop < start + exec_time then Some (Inr tmp, s)
      else
        (case work_chunk host ws jobNum tmp c s of
           None \<Rightarrow> None
         | Some (tmp, c, s) \<Rightarrow>
             let loopStart = now; (now, s) = cputime_ns host s; lastLoop = now - loopStart;
                 (t, s) = (if emergency_exit \<noteq> 0 then wctime_ns host s else (0, s))
             in if emergency_exit \<noteq> 0 \<and> emergency_exit < t then Some (Inl ''Emergency Exit'', s)
                else spend host ws jobNum start exec_time emergency_exit now lastLoop tmp c s))"

definition loop_for ::
  "'w host \<Rightarrow> edge_t list \<Rightarrow> int \<Rightarrow> 64 word \<Rightarrow> 64 word \<Rightarrow> 'w prog \<Rightarrow> ((string + int) \<times> 'w prog) option"
where
  "loop_for host ws jobNum exec_time emergency_exit s =
     (let (start, s) = cputime_ns host s in
      do {c \<leftarrow> (if ws \<noteq> [] then open_set (edgeToWs s) ws jobNum 0 else Some (0, 0, 0));
          spend host ws jobNum start exec_time emergency_exit start 0 0 c s})"

record rt_config =
  syncRelease :: bool
  cluster :: int
  budget :: int
  phase_ns :: "64 word"
  period_ns :: "64 word"
  execution_ns :: "64 word"
  discount_ns :: "64 word"
  loop_for_ns :: "64 word"
  split_factor :: int
  expected_etoe :: "64 word"
  duration_ns :: "64 word"
  cnode :: node_t

definition job :: "'w host \<Rightarrow> rt_config \<Rightarrow> int \<Rightarrow> edge_t list \<Rightarrow> edge_t list \<Rightarrow> 64 word \<Rightarrow> 'w prog \<Rightarrow> (bool \<times> 'w prog) option" where
  "job host cfg jobNum consumeList produceList programEnd s =
     (let (t, s) = (if programEnd \<noteq> 0 then wctime_ns host s else (0, s)) in
      if programEnd \<noteq> 0 \<and> programEnd < t then Some (False, s)
      else
        do {temp \<leftarrow> (if consumeList \<noteq> [] then consume_sets (edgeToWs s) consumeList jobNum 0 else Some jobNum);
            r \<leftarrow> loop_for host consumeList jobNum (loop_for_ns cfg) (if programEnd \<noteq> 0 then programEnd + 1000000000 else 0) s;
            m \<leftarrow> (if produceList \<noteq> [] then produce_sets produceList temp jobNum (edgeToWs (snd r)) else Some (edgeToWs (snd r)));
            Some (\<not> isl (fst r), snd r\<lparr>edgeToWs := m\<rparr>)})"

section \<open>The worker thread\<close>

text \<open>A call of the library.\<close>

definition lib :: "('w pgm_state \<Rightarrow> ('a \<times> 'w pgm_state) option) \<Rightarrow> 'w prog \<Rightarrow> ('a \<times> 'w prog) option" where
  "lib f s = map_option (\<lambda>(r, t). (r, s\<lparr>st := t\<rparr>)) (f (st s))"

text \<open>The two library calls whose result is only the number of an error.\<close>

definition complete_node :: "'w os \<Rightarrow> node_t \<Rightarrow> 'w pgm_state \<Rightarrow> (int \<times> 'w pgm_state) option" where
  "complete_node os n t = map_option (\<lambda>(r, _, t). (r, t)) (pgm_complete os n t)"

definition terminate_node :: "'w os \<Rightarrow> node_t \<Rightarrow> 'w pgm_state \<Rightarrow> (int \<times> 'w pgm_state) option" where
  "terminate_node os n t = map_option (\<lambda>(r, _, t). (r, t)) (pgm_terminate os n t)"

text \<open>A source sleeps until its next release.\<close>

definition sleep_slack :: "'w host \<Rightarrow> bool \<Rightarrow> 64 word \<Rightarrow> 64 word \<Rightarrow> 'w prog \<Rightarrow> 'w prog" where
  "sleep_slack host isSrc period release_ns s =
     (let (t, s) = wctime_ns host s; response_ns = t - release_ns in
      if isSrc \<and> response_ns < period then sleep_ns host (period - response_ns) s else s)"

partial_function (option) work_loop ::
  "'w host \<Rightarrow> 'w env \<Rightarrow> 'w os \<Rightarrow> rt_config \<Rightarrow> bool \<Rightarrow> 64 word \<Rightarrow> edge_t list \<Rightarrow> edge_t list \<Rightarrow> int \<Rightarrow> int \<Rightarrow> 'w prog \<Rightarrow> 'w prog option"
where
  "work_loop host env os cfg isSrc bailoutTime consumeWs produceWs count ret s =
     (case (if \<not> isSrc then lib (pgm_wait env os (cnode cfg)) s else Some (ret, s)) of
        None \<Rightarrow> None
      | Some (ret, s) \<Rightarrow>
          let (release_ns, s) = wctime_ns host s in
          if ret = uint PGM_TERMINATE then Some s
          else
            (case c_int (count + 1) of
               None \<Rightarrow> None
             | Some count' \<Rightarrow>
                 (case job host cfg count consumeWs produceWs bailoutTime s of
                    None \<Rightarrow> None
                  | Some (keepGoing, s) \<Rightarrow>
                      if isSrc \<and> \<not> keepGoing then map_option snd (lib (terminate_node os (cnode cfg)) s)
                      else
                        (case lib (complete_node os (cnode cfg)) s of
                           None \<Rightarrow> None
                         | Some (_, s) \<Rightarrow>
                             work_loop host env os cfg isSrc bailoutTime consumeWs produceWs count' ret
                               (sleep_slack host isSrc (period_ns cfg) release_ns s)))))"

text \<open>The working sets attached to some of the edges of an array.\<close>

definition attached :: "sets \<Rightarrow> edge_t list \<Rightarrow> int \<Rightarrow> edge_t list" where
  "attached m es numEdges = filter (\<lambda>e. e \<in> dom m) (take (nat numEdges) es)"

text \<open>The phased release, which gives a source its end time, and the exit: wait for all workers and release the node.\<close>

definition phased_release :: "'w host \<Rightarrow> rt_config \<Rightarrow> bool \<Rightarrow> 'w prog \<Rightarrow> 64 word \<times> 'w prog" where
  "phased_release host cfg isSrc s =
     (let s = sleep_ns host (phase_ns cfg) s in
      if isSrc then (let (now, s) = wctime_ns host s in (now + duration_ns cfg, s)) else (0, s))"

definition worker_exit :: "'w host \<Rightarrow> 'w os \<Rightarrow> pid_t \<Rightarrow> node_t \<Rightarrow> 'w prog \<Rightarrow> 'w prog option" where
  "worker_exit host os self n s = map_option snd (lib (pgm_release_node os self n 0) (host_barrier host s))"

text \<open>
  The lists of edges are asked for with a null array, respectively one of length zero, and the number of edges stays
  zero, so that no working set is found.
\<close>

definition work_thread ::
  "'w host \<Rightarrow> 'w env \<Rightarrow> 'w os \<Rightarrow> pid_t \<Rightarrow> rt_config \<Rightarrow> 'w prog \<Rightarrow> 'w prog option"
where
  "work_thread host env os self cfg s =
     do {degree_in \<leftarrow> pgm_get_degree_in (st s) (cnode cfg) True;
         degree_out \<leftarrow> pgm_get_degree_out (st s) (cnode cfg) True;
         let isSrc = (degree_in = 0);
         r \<leftarrow> lib (pgm_claim_node os self (cnode cfg) 0) s;
         let s = snd r;
         let cfg = cfg\<lparr>loop_for_ns := if execution_ns cfg < discount_ns cfg then 0 else execution_ns cfg - discount_ns cfg\<rparr>;
         let numEdges = 0;
         ins \<leftarrow> pgm_get_edges_in (cnode cfg) False numEdges True (st s);
         outs \<leftarrow> pgm_get_edges_out (cnode cfg) True numEdges True (st s);
         let consumeWs = attached (edgeToWs s) (snd ins) numEdges;
         let produceWs = attached (edgeToWs s) (snd outs) numEdges;
         let (bailoutTime, s) = phased_release host cfg isSrc s;
         s \<leftarrow> work_loop host env os cfg isSrc bailoutTime consumeWs produceWs 0 0 s;
         worker_exit host os self (cnode cfg) s}"

section \<open>Accesses to working sets\<close>

text \<open>The shape of a working set, which writing keeps: \<open>cycle\<close> times \<open>num\<close> chunks.\<close>

definition ws_shape :: "nat \<Rightarrow> nat \<Rightarrow> WorkingSet \<Rightarrow> bool" where
  "ws_shape num cycle ws \<longleftrightarrow> 0 < num \<and> 0 < cycle \<and> ws_num ws = int num \<and> ws_cycle ws = int cycle \<and>
     (\<exists>b. ws_buf ws = Some b \<and> length b = cycle * num)"

definition cell :: "WorkingSet \<Rightarrow> nat \<Rightarrow> int" where
  "cell ws i = the (ws_buf ws) ! i"

lemma chunks_of_size:
  assumes "n < 2 ^ 31"
  shows "to_int ((of_nat n :: 64 word) div 4 + (if (of_nat n :: 64 word) mod 4 \<noteq> 0 then 1 else 0)) = int ((n + 3) div 4)"
proof -
  have "unat ((of_nat n :: 64 word) div 4) = n div 4" "unat ((of_nat n :: 64 word) mod 4) = n mod 4"
    using assms by (simp_all add: unat_div_distrib unat_mod_distrib unat_of_nat)
  then have "unat ((of_nat n :: 64 word) div 4 + (if (of_nat n :: 64 word) mod 4 \<noteq> 0 then 1 else 0)) = n div 4 + (if n mod 4 \<noteq> 0 then 1 else 0)"
    using assms by (simp add: unat_Suc_word unat_0_iff [symmetric] del: unat_0_iff)
  also have "\<dots> = (n + 3) div 4"
    by presburger
  finally have "unat ((of_nat n :: 64 word) div 4 + (if (of_nat n :: 64 word) mod 4 \<noteq> 0 then 1 else 0)) = (n + 3) div 4" .
  moreover have "(n + 3) div 4 < 2 ^ 31"
    using assms by simp
  ultimately show ?thesis
    using to_int_small by metis
qed

lemma new_WorkingSet_shape:
  assumes "new_WorkingSet junk (int n) (int cycle) = Some ws" and "0 < n" and "n < 2 ^ 31" and "0 < cycle"
  shows "ws_shape ((n + 3) div 4) cycle ws"
  using assms chunks_of_size [OF assms(3)]
  by (auto simp: new_WorkingSet_def Let_def ws_shape_def bind_eq_Some_conv nat_mult_distrib c_int_def simp del: nat_int_comparison split: if_splits)

lemma ws_range:
  assumes "ws_shape num cycle ws"
  shows "ws_start ws (int c) = Some (int (c mod cycle))" and "ws_end ws (int c) = Some (int (c mod cycle + num))"
    and "c mod cycle + num \<le> cycle * num"
proof -
  have pos: "0 < num" "0 < cycle" "ws_num ws = int num" "ws_cycle ws = int cycle"
    using assms by (auto simp: ws_shape_def)
  then show "ws_start ws (int c) = Some (int (c mod cycle))"
    by (simp add: ws_start_def signed_modulo_int_def signed_divide_int_def sgn_if zdiv_int zmod_int minus_div_mult_eq_mod)
  then show "ws_end ws (int c) = Some (int (c mod cycle + num))"
    using pos by (simp add: ws_end_def)
  have "c mod cycle + num \<le> (cycle - 1) + num"
    using pos(2) by (simp add: less_Suc_eq_le [symmetric])
  also have "\<dots> \<le> (cycle - 1) * num + num"
    using pos(1) by simp
  also have "\<dots> = cycle * num"
    using pos(2) by (cases cycle) simp_all
  finally show "c mod cycle + num \<le> cycle * num" .
qed

lemma ws_in_buffer:
  assumes "ws_shape num cycle ws" and "i < cycle * num"
  shows "ws_load ws (int i) = Some (cell ws i)"
    and "\<exists>ws'. ws_store ws (int i) v = Some ws' \<and> ws_shape num cycle ws' \<and>
      (\<forall>k < cycle * num. cell ws' k = (if k = i then v else cell ws k))"
proof -
  obtain b where b: "ws_buf ws = Some b" "length b = cycle * num"
    using assms(1) by (auto simp: ws_shape_def)
  then have i: "int i < int (length b)"
    using assms(2) by (simp only: of_nat_less_iff)
  then show "ws_load ws (int i) = Some (cell ws i)"
    using b(1) by (simp add: ws_load_def cell_def)
  have "ws_store ws (int i) v = Some (ws\<lparr>ws_buf := Some (b[i := v])\<rparr>)"
    using i b(1) by (simp add: ws_store_def)
  then show "\<exists>ws'. ws_store ws (int i) v = Some ws' \<and> ws_shape num cycle ws' \<and>
      (\<forall>k < cycle * num. cell ws' k = (if k = i then v else cell ws k))"
    using b assms(1) by (auto simp: ws_shape_def cell_def nth_list_update)
qed

lemma fill_chunks_cells:
  assumes "ws_shape num cycle ws" and "p + n \<le> cycle * num"
  shows "\<exists>ws'. fill_chunks (int p) n v ws = Some ws' \<and> ws_shape num cycle ws' \<and>
    (\<forall>i < cycle * num. cell ws' i = (if p \<le> i \<and> i < p + n then v else cell ws i))"
  using assms
proof (induction n arbitrary: p ws)
  case (Suc n)
  obtain ws1 where ws1: "ws_store ws (int p) v = Some ws1" "ws_shape num cycle ws1"
    "\<forall>i < cycle * num. cell ws1 i = (if i = p then v else cell ws i)"
    using ws_in_buffer(2) [OF Suc.prems(1), of p v] Suc.prems(2) by auto
  obtain ws' where ws': "fill_chunks (int (Suc p)) n v ws1 = Some ws'" "ws_shape num cycle ws'"
    "\<forall>i < cycle * num. cell ws' i = (if Suc p \<le> i \<and> i < Suc p + n then v else cell ws1 i)"
    using Suc.IH [OF ws1(2), of "Suc p"] Suc.prems(2) by auto
  have "\<forall>i < cycle * num. cell ws' i = (if p \<le> i \<and> i < p + Suc n then v else cell ws i)"
    using ws'(3) ws1(3) by auto
  then show ?case
    using ws1(1) ws'(1,2) by (simp add: add.commute)
qed simp

lemma sum_chunks_const:
  assumes "ws_shape num cycle ws" and "p + n \<le> cycle * num" and "\<forall>i. p \<le> i \<and> i < p + n \<longrightarrow> cell ws i = v"
    and "0 \<le> v" and "0 \<le> t" and "t + int n * v < 2 ^ 31"
  shows "sum_chunks ws (int p) n t = Some (t + int n * v)"
  using assms
proof (induction n arbitrary: p t)
  case (Suc n)
  have load: "ws_load ws (int p) = Some v"
    using ws_in_buffer(1) [OF Suc.prems(1), of p] Suc.prems(2) Suc.prems(3) [THEN spec, of p] by simp
  have eq: "t + int (Suc n) * v = (t + v) + int n * v"
    by (simp add: algebra_simps)
  have "0 \<le> int n * v"
    using Suc.prems(4) by simp
  then have "t + v < 2 ^ 31"
    using Suc.prems(6) unfolding eq by linarith
  then have fit: "c_int (t + v) = Some (t + v)"
    using Suc.prems(4,5) by (simp add: c_int_def in_int_def)
  have "sum_chunks ws (int (Suc p)) n (t + v) = Some ((t + v) + int n * v)"
    using Suc.prems unfolding eq by (intro Suc.IH) auto
  then show ?case
    using load fit unfolding eq by (simp add: add.commute)
qed simp

text \<open>
  C40: a job never leaves the buffer of a working set, but the sets of different jobs are not disjoint.  The working
  set of an edge is allocated with \<open>cycle\<close> times the chunks it needs; writing for job \<open>c\<close> sets exactly the
  \<open>num\<close> chunks from \<open>c mod cycle\<close> on, which lie in the buffer.  The offset is not multiplied by \<open>num\<close>: when job \<open>c\<close>
  writes zeros and job \<open>c + 1\<close> then ones, reading the set of job \<open>c\<close> gives \<open>num - 1\<close> instead of zero.
\<close>

theorem working_set_accesses:
  assumes "new_WorkingSet junk (int n) (int cycle) = Some ws0" and "0 < n" and "n < 2 ^ 31" and "0 < cycle"
  defines "num \<equiv> (n + 3) div 4"
  shows "ws_shape num cycle ws0 \<and>
    (\<forall>ws v c. ws_shape num cycle ws \<longrightarrow>
      (\<exists>ws'. produce_ws v (int c) ws = Some ws' \<and> ws_shape num cycle ws' \<and>
        (\<forall>i < cycle * num. cell ws' i = (if c mod cycle \<le> i \<and> i < c mod cycle + num then v else cell ws i)))) \<and>
    (\<forall>c. Suc c mod cycle \<noteq> 0 \<longrightarrow>
      Option.bind (Option.bind (produce_ws 0 (int c) ws0) (produce_ws 1 (int (Suc c)))) (\<lambda>ws. consume_ws ws (int c)) = Some (int num - 1))"
proof (intro conjI allI impI)
  show shape: "ws_shape num cycle ws0"
    using new_WorkingSet_shape [OF assms(1-4)] by (simp add: num_def)
  show put: "\<exists>ws'. produce_ws v (int c) ws = Some ws' \<and> ws_shape num cycle ws' \<and>
      (\<forall>i < cycle * num. cell ws' i = (if c mod cycle \<le> i \<and> i < c mod cycle + num then v else cell ws i))"
    if "ws_shape num cycle ws" for ws v c
    using fill_chunks_cells [OF that ws_range(3) [OF that, of c], of v] ws_range(1,2) [OF that, of c] by (simp add: produce_ws_def)
  fix c assume c: "Suc c mod cycle \<noteq> 0"
  let ?p = "c mod cycle"
  have suc: "Suc c mod cycle = Suc ?p"
    using c by (simp add: mod_Suc split: if_splits)
  obtain ws1 where ws1: "produce_ws 0 (int c) ws0 = Some ws1" "ws_shape num cycle ws1"
    "\<forall>i < cycle * num. cell ws1 i = (if ?p \<le> i \<and> i < ?p + num then 0 else cell ws0 i)"
    using put [OF shape] by blast
  obtain ws2 where ws2: "produce_ws 1 (int (Suc c)) ws1 = Some ws2" "ws_shape num cycle ws2"
    "\<forall>i < cycle * num. cell ws2 i = (if Suc ?p \<le> i \<and> i < Suc ?p + num then 1 else cell ws1 i)"
    using put [OF ws1(2), of 1 "Suc c"] unfolding suc by blast
  note r = ws_range [OF ws2(2), of c]
  obtain k where k: "num = Suc k"
    using shape by (auto simp: ws_shape_def gr0_conv_Suc)
  have "k < 2 ^ 31"
    using assms(3) k unfolding num_def by simp
  then have "sum_chunks ws2 (int (Suc ?p)) k 0 = Some (0 + int k * 1)"
    using r(3) k ws2 by (intro sum_chunks_const [OF ws2(2)]) auto
  moreover have "cell ws2 ?p = 0" "?p < cycle * num"
    using ws2(3) ws1(3) r(3) k by simp_all
  then have "ws_load ws2 (int ?p) = Some 0"
    using ws_in_buffer(1) [OF ws2(2)] by simp
  ultimately have "consume_ws ws2 (int c) = Some (int num - 1)"
    using r(1,2) k by (simp add: consume_ws_def c_int_def in_int_def add.commute nat_add_distrib Suc_nat_eq_nat_zadd1)
  then show "Option.bind (Option.bind (produce_ws 0 (int c) ws0) (produce_ws 1 (int (Suc c)))) (\<lambda>ws. consume_ws ws (int c)) = Some (int num - 1)"
    using ws1(1) ws2(1) by simp
qed

theorem working_set_accesses_witness:
  "\<exists>ws. new_WorkingSet (\<lambda>_. 7) 8 2 = Some ws \<and>
    Option.bind (Option.bind (produce_ws 0 0 ws) (produce_ws 1 1)) (\<lambda>ws. consume_ws ws 0) = Some 1"
proof -
  have "\<exists>ws. new_WorkingSet (\<lambda>_. 7) (int 8) (int 2) = Some ws"
    using chunks_of_size [of 8] by (simp add: new_WorkingSet_def Let_def c_int_def in_int_def)
  then obtain ws where ws: "new_WorkingSet (\<lambda>_. 7) (int 8) (int 2) = Some ws"
    by blast
  show ?thesis
    using working_set_accesses [OF ws, THEN conjunct2, THEN conjunct2, THEN spec, of 0] ws by simp
qed

section \<open>A node of condition-variable edges and its owner\<close>

definition cv_node :: "pgm_graph \<Rightarrow> nat \<Rightarrow> bool" where
  "cv_node g j \<longleftrightarrow> (\<forall>i \<in> set (in_list (nodes g j)) \<union> set (out_list (nodes g j)).
     e_ops (edges g i) = Some cv_edge_ops \<and> \<not> is_data_passing (e_attr (edges g i)))"

definition runs :: "pid_t \<Rightarrow> node_t \<Rightarrow> 'w pgm_state \<Rightarrow> bool" where
  "runs p n t \<longleftrightarrow> state_inv t \<and> valid_node t n \<and> cv_node (graph_of t (ngraph n)) (nat (nnode n)) \<and> owner_of t n = p"

lemma cv_node_same_shape:
  assumes "same_shape g g'"
  shows "cv_node g' j = cv_node g j"
proof -
  have "node_shape (nodes g' j) = node_shape (nodes g j)" "edge_shape (edges g' i) = edge_shape (edges g i)" for i
    using assms by (simp_all add: same_shape_def)
  from node_shapeD(2,3) [OF this(1)] edge_shapeD(5,8) [OF this(2)] show ?thesis
    by (simp add: cv_node_def)
qed

lemma runs_set_graph:
  assumes "runs p n t" and "same_shape (graph_of t (ngraph n)) g" and "in_use g" and "owner (nodes g (nat (nnode n))) = q"
  shows "runs q n (set_graph (ngraph n) g t)"
proof -
  have v: "state_inv t" "live_graph t (ngraph n)"
    using assms(1) by (auto simp: runs_def valid_node_def)
  note sg = set_graph_shape [OF v assms(2,3) refl]
  show ?thesis
    using assms cv_node_same_shape [OF assms(2)] sg
    by (auto simp: runs_def valid_node_def owner_of_def same_shape_def)
qed

text \<open>
  How many terminate signals node \<open>c\<close> is to get from node \<open>j\<close>, one for each forward edge.  While the owner runs,
  the graph \<open>G\<close> keeps its shape, and the counters of terminate signals, here at least \<open>k\<close>, do not go down.
\<close>

definition told :: "pgm_graph \<Rightarrow> nat \<Rightarrow> nat \<Rightarrow> nat" where
  "told g j c = length (filter (\<lambda>i. forward_signal (edges g i) \<and> e_consumer (edges g i) = c) (out_list (nodes g j)))"

definition alive :: "pid_t \<Rightarrow> node_t \<Rightarrow> pgm_graph \<Rightarrow> (nat \<Rightarrow> nat) \<Rightarrow> 'w pgm_state \<Rightarrow> bool" where
  "alive p n G k t \<longleftrightarrow> runs p n t \<and> same_shape G (graph_of t (ngraph n)) \<and>
     (\<forall>c. k c \<le> nr_terminate_signals (nodes (graph_of t (ngraph n)) c))"

lemma told_same_shape:
  assumes "same_shape g g'"
  shows "told g' j c = told g j c"
proof -
  have "node_shape (nodes g' j) = node_shape (nodes g j)" "edge_shape (edges g' i) = edge_shape (edges g i)" for i
    using assms by (simp_all add: same_shape_def)
  from node_shapeD(3) [OF this(1)] edge_shapeD [OF this(2)] show ?thesis
    by (simp add: told_def forward_signal_def)
qed

lemma alive_set_graph:
  assumes "alive p n G k t" and "same_shape (graph_of t (ngraph n)) g" and "in_use g" and "owner (nodes g (nat (nnode n))) = q"
    and "\<And>c. nr_terminate_signals (nodes g c) = nr_terminate_signals (nodes (graph_of t (ngraph n)) c) + d c"
  shows "alive q n G (\<lambda>c. k c + d c) (set_graph (ngraph n) g t)"
proof -
  have r: "runs p n t" "same_shape G (graph_of t (ngraph n))" "\<And>c. k c \<le> nr_terminate_signals (nodes (graph_of t (ngraph n)) c)"
    using assms(1) by (simp_all add: alive_def)
  then have "live_graph t (ngraph n)"
    by (simp add: runs_def valid_node_def)
  then have "graph_of (set_graph (ngraph n) g t) (ngraph n) = g"
    by simp
  then show ?thesis
    using runs_set_graph [OF r(1) assms(2-4)] same_shape_trans [OF r(2) assms(2)] r(3) assms(5) by (simp add: alive_def)
qed

lemma for_edges_cv:
  assumes "\<forall>i \<in> set is. e_ops (edges g i) = Some cv_edge_ops" and "\<And>i e. f cv_edge_ops i g e s = Some (0, e, s)"
  shows "for_edges f is b g s = Some (b, g, s)"
  using assms(1) by (induction "is") (simp_all add: assms(2) upd_edge_id)

lemma runs_nodeD:
  assumes "runs p n t"
  shows "live_graph t (ngraph n)" and "0 \<le> nnode n" and "nnode n < int (nr_nodes (graph_of t (ngraph n)))" and "has_node t n"
    and "graph_inv (graph_of t (ngraph n))" and "in_use (graph_of t (ngraph n))"
proof -
  show live: "live_graph t (ngraph n)" and j: "0 \<le> nnode n" "nnode n < int (nr_nodes (graph_of t (ngraph n)))"
    using assms by (simp_all add: runs_def valid_node_def)
  show inv: "graph_inv (graph_of t (ngraph n))"
    using assms state_invD [OF _ live] by (simp add: runs_def)
  then show "has_node t n" "in_use (graph_of t (ngraph n))"
    using live j by (auto simp: has_node_def in_nodes_def graph_inv_def elim!: live_graphD)
qed

lemma claim_cv_node:
  assumes "alive UNCLAIMED_NODE n G k t" and "p \<noteq> 0"
  shows "\<exists>t'. pgm_claim_node os p n 0 t = Some (0, t') \<and> alive p n G k t' \<and> world t' = world t"
proof -
  have r: "runs UNCLAIMED_NODE n t"
    using assms(1) by (simp add: alive_def)
  let ?j = "nat (nnode n)" and ?g = "graph_of t (ngraph n)"
  let ?g' = "upd_node ?j (owner_update (\<lambda>_. p)) ?g"
  note d = runs_nodeD [OF r]
  have cv: "cv_node ?g' ?j"
    using r cv_node_same_shape [OF same_shape_owner] by (simp add: runs_def)
  have "claim_node os (ngraph n) ?j ?g' t = Some (0, ?g', t)"
    using cv by (simp add: claim_node_def cv_node_def for_edges_cv open_in_def open_out_def dummy_edge_op_def)
  then have "pgm_claim_node os p n 0 t = Some (0, set_graph (ngraph n) ?g' t)"
    using d(1-3) r assms(2-) by (simp add: pgm_claim_node_def claimant_def runs_def owner_of_def Let_def)
  moreover have "alive p n G (\<lambda>c. k c + 0) (set_graph (ngraph n) ?g' t)"
    using d(6) by (intro alive_set_graph [OF assms(1) same_shape_owner]) (simp_all add: upd_node_def)
  ultimately show ?thesis
    by (simp add: set_graph_def)
qed

lemma release_cv_node:
  assumes "alive p n G k t" and "p \<noteq> 0" and "p \<noteq> UNCLAIMED_NODE"
  shows "\<exists>t'. pgm_release_node os p n 0 t = Some (0, t') \<and> alive UNCLAIMED_NODE n G k t' \<and> world t' = world t"
proof -
  have r: "runs p n t"
    using assms(1) by (simp add: alive_def)
  let ?j = "nat (nnode n)" and ?g = "graph_of t (ngraph n)"
  let ?g' = "upd_node ?j (owner_update (\<lambda>_. UNCLAIMED_NODE)) ?g"
  note d = runs_nodeD [OF r]
  have "release_node os ?j ?g t = Some (0, ?g', t)"
    using r by (simp add: release_node_def runs_def cv_node_def for_edges_cv close_in_def close_out_def dummy_edge_close_def)
  then have "pgm_release_node os p n 0 t = Some (0, set_graph (ngraph n) ?g' t)"
    using d(1-3) r assms(2-) by (simp add: pgm_release_node_def claimant_def runs_def owner_of_def)
  moreover have "alive UNCLAIMED_NODE n G (\<lambda>c. k c + 0) (set_graph (ngraph n) ?g' t)"
    using d(6) by (intro alive_set_graph [OF assms(1) same_shape_owner]) (simp_all add: upd_node_def)
  ultimately show ?thesis
    by (simp add: set_graph_def)
qed

lemma produce_cv_node:
  assumes "alive p n G k t"
  shows "\<exists>t'. complete_node os n t = Some (0, t') \<and> alive p n G k t' \<and> world t' = world t"
    and "\<exists>t'. terminate_node os n t = Some (0, t') \<and> alive p n G (\<lambda>c. k c + told G (nat (nnode n)) c) t' \<and> world t' = world t"
proof -
  have r: "runs p n t" "same_shape G (graph_of t (ngraph n))"
    using assms by (simp_all add: alive_def)
  let ?j = "nat (nnode n)" and ?g = "graph_of t (ngraph n)"
  let ?outs = "out_list (nodes ?g ?j)"
  note d = runs_nodeD [OF r(1)]
  have out: "\<forall>i \<in> set ?outs. \<not> is_data_passing (e_attr (edges ?g i))" and own: "owner (nodes ?g ?j) = p"
    using r(1) by (auto simp: runs_def cv_node_def owner_of_def)
  have "distinct ?outs"
    using graph_inv_lists(2) [OF d(5)] d(2,3) by (simp add: out_edges_def nat_less_iff)
  then obtain w where w: "pgm_complete os n t = Some (0, w, set_graph (ngraph n) (fold (\<lambda>i. upd_edge i send_signal) ?outs ?g) t)"
    using complete_signals [OF d(4) out] by blast
  have "alive p n G (\<lambda>c. k c + 0) (set_graph (ngraph n) (fold (\<lambda>i. upd_edge i send_signal) ?outs ?g) t)"
    using d(6) own by (intro alive_set_graph [OF assms same_shape_fold]) (simp_all add: fold_upd_edge_nodes send_signal_def)
  then show "\<exists>t'. complete_node os n t = Some (0, t') \<and> alive p n G k t' \<and> world t' = world t"
    using w by (simp add: complete_node_def set_graph_def)
  have "alive p n G (\<lambda>c. k c + told ?g ?j c) (set_graph (ngraph n) (tell_consumers ?outs ?g) t)"
    using d(6) own by (intro alive_set_graph [OF assms tell_consumers_fields(6)]) (simp_all add: tell_consumers_def told_def)
  then show "\<exists>t'. terminate_node os n t = Some (0, t') \<and> alive p n G (\<lambda>c. k c + told G ?j c) t' \<and> world t' = world t"
    using terminate_signals [OF d(4) out, of os] told_same_shape [OF r(2)] by (simp add: terminate_node_def set_graph_def)
qed

section \<open>The clock\<close>

text \<open>
  What the program relies on.  The system has a clock \<open>now\<close>, in nanoseconds, that never goes back; \<open>gettimeofday\<close> reads
  it in microseconds, \<open>nanosleep\<close> sleeps at least as long as asked, a busy loop takes time, and every other delay is at
  most \<open>D\<close>.  Meanwhile the other threads of the program may run, but they keep the property \<open>P\<close> of the graphs.
\<close>

abbreviation tm :: "('w \<Rightarrow> nat) \<Rightarrow> 'w prog \<Rightarrow> nat" where
  "tm now s \<equiv> now (world (st s))"

definition tick :: "('w \<Rightarrow> nat) \<Rightarrow> ('w pgm_state \<Rightarrow> bool) \<Rightarrow> nat \<Rightarrow> nat \<Rightarrow> 'w prog \<Rightarrow> 'w prog \<Rightarrow> bool" where
  "tick now P lo hi s s' \<longleftrightarrow> (P (st s) \<longrightarrow> P (st s')) \<and> tm now s + lo \<le> tm now s' \<and> tm now s' \<le> tm now s + hi"

definition clocked :: "'w host \<Rightarrow> ('w \<Rightarrow> nat) \<Rightarrow> nat \<Rightarrow> ('w pgm_state \<Rightarrow> bool) \<Rightarrow> bool" where
  "clocked host now D P \<longleftrightarrow>
     (\<forall>s. tick now P 0 D s (snd (host_cputime host s)) \<and> tick now P 0 D s (snd (host_time host s)) \<and>
       tick now P 1 D s (host_relax host s) \<and>
       (\<forall>sec nsec. tick now P (sec * 10 ^ 9 + nsec) (sec * 10 ^ 9 + nsec + D) s (host_sleep host (int sec) (int nsec) s)) \<and>
       (P (st s) \<longrightarrow> P (st (host_barrier host s))) \<and> tm now s \<le> tm now (host_barrier host s) \<and>
       (\<exists>sec usec. fst (host_time host s) = (int sec, int usec) \<and> sec * 10 ^ 6 + usec = tm now (snd (host_time host s)) div 1000))"

lemma tick_trans: "tick now P a b s s' \<Longrightarrow> tick now P c d s' s'' \<Longrightarrow> tick now P (a + c) (b + d) s s''"
  by (simp add: tick_def)

lemma cputime_tick:
  assumes "clocked host now D P" and "cputime_ns host s = (w, s')"
  shows "tick now P 0 D s s'"
  using assms by (auto simp: clocked_def cputime_ns_def Let_def split: prod.splits) (metis snd_conv)

lemma wctime_tick:
  assumes "clocked host now D P" and "wctime_ns host s = (w, s')"
  shows "tick now P 0 D s s'" and "w = of_nat (tm now s' div 1000 * 1000)"
proof -
  obtain sec usec where r: "host_time host s = ((int sec, int usec), s')" "sec * 10 ^ 6 + usec = tm now s' div 1000"
    using assms by (auto simp: clocked_def wctime_ns_def Let_def split: prod.splits) (metis fst_conv snd_conv prod.inject)
  then show "tick now P 0 D s s'"
    using assms(1) unfolding clocked_def by (metis snd_conv)
  have "w = of_nat (sec * 1000000000 + usec * 1000)"
    using assms(2) r(1) by (simp add: wctime_ns_def)
  also have "sec * 1000000000 + usec * 1000 = (sec * 10 ^ 6 + usec) * 1000"
    by simp
  finally show "w = of_nat (tm now s' div 1000 * 1000)"
    by (simp only: r(2))
qed

lemma wctime_reads:
  assumes "clocked host now D P" and "wctime_ns host s = (w, s')" and "tm now s' < 2 ^ 64"
  shows "unat w = tm now s' div 1000 * 1000"
proof -
  define y where "y = tm now s' div 1000 * 1000"
  have "y \<le> tm now s'"
    unfolding y_def by (rule div_times_less_eq_dividend)
  then have "y < 2 ^ 64"
    using assms(3) by (rule order.strict_trans1)
  then show ?thesis
    unfolding wctime_tick(2) [OF assms(1,2), folded y_def] y_def [symmetric] by (simp add: unat_of_nat)
qed

lemma sleep_tick:
  assumes "clocked host now D P"
  shows "tick now P (unat ns) (unat ns + D) s (sleep_ns host ns s)"
proof -
  let ?sec = "unat ns div 1000000000" and ?nsec = "unat ns mod 1000000000"
  have u: "unat (ns div 1000000000) = ?sec" "unat (ns - ns div 1000000000 * 1000000000) = ?nsec"
    by (simp_all add: unat_div_distrib minus_div_mult_eq_mod unat_mod_distrib)
  moreover have "?sec < 2 ^ 63" "?nsec < 2 ^ 63"
    by (intro less_mult_imp_div_less order.strict_trans [OF unat_less_2p64]) simp_all
  ultimately have "sint (ns div 1000000000) = int ?sec" "sint (ns - ns div 1000000000 * 1000000000) = int ?nsec"
    by (subst sint_eq_unat; simp)+
  then have "sleep_ns host ns s = host_sleep host (int ?sec) (int ?nsec) s"
    by (simp add: sleep_ns_def)
  moreover have "tick now P (?sec * 10 ^ 9 + ?nsec) (?sec * 10 ^ 9 + ?nsec + D) s (host_sleep host (int ?sec) (int ?nsec) s)"
    using assms unfolding clocked_def by blast
  ultimately show ?thesis
    by simp
qed

lemma relax_tick:
  assumes "clocked host now D P"
  shows "tick now P n (n * D) s ((host_relax host ^^ n) s)"
proof (induction n)
  case (Suc n)
  have "tick now P 1 D ((host_relax host ^^ n) s) ((host_relax host ^^ Suc n) s)"
    using assms by (simp add: clocked_def)
  from tick_trans [OF Suc this] show ?case
    by (simp add: add.commute)
qed (simp add: tick_def)

section \<open>A source runs until its time is over\<close>

text \<open>Burning processor time ends at the latest at the emergency exit, one round after \<open>E\<close>.\<close>

lemma spend_returns:
  assumes "clocked host now D P" and "unat emergency = E" and "0 < E" and "E + 1000 + 16387 * D < 2 ^ 64"
  shows "P (st s) \<Longrightarrow> tm now s \<le> E + 1000 + D \<Longrightarrow>
    \<exists>r s'. spend host [] jobNum start exec emergency t l tmp c s = Some (r, s') \<and> P (st s') \<and>
      tm now s \<le> tm now s' \<and> tm now s' \<le> E + 1000 + 16387 * D \<and> (isl r \<longrightarrow> E < tm now s')"
proof (induction "E + 1000 + D - tm now s" arbitrary: s t l tmp c rule: less_induct)
  case less
  have em: "emergency \<noteq> 0"
    using assms(2,3) by auto
  show ?case
  proof (cases "t + l < start + exec")
    case True
    obtain i s1 where s1: "loop_once host s = (i, s1)"
      by force
    obtain t2 s2 where s2: "cputime_ns host s1 = (t2, s2)"
      by force
    obtain t3 s3 where s3: "wctime_ns host s2 = (t3, s3)"
      by force
    have "s1 = (host_relax host ^^ 16384) s"
      using s1 by (simp add: loop_once_def)
    then have "tick now P 16384 (16384 * D) s s1"
      using relax_tick [OF assms(1), of 16384 s] by simp
    note tk = tick_trans [OF tick_trans [OF this cputime_tick [OF assms(1) s2]] wctime_tick(1) [OF assms(1) s3]]
    have T: "tm now s + 16384 \<le> tm now s3" "tm now s3 \<le> tm now s + 16386 * D" "P (st s3)"
      using tk less.prems(1) by (simp_all add: tick_def)
    then have top: "tm now s3 \<le> E + 1000 + 16387 * D"
      using less.prems(2) by linarith
    then have rd: "unat t3 = tm now s3 div 1000 * 1000"
      using wctime_reads [OF assms(1) s3] assms(4) by linarith
    have step: "spend host [] jobNum start exec emergency t l tmp c s =
        (if emergency < t3 then Some (Inl ''Emergency Exit'', s3)
         else spend host [] jobNum start exec emergency t2 (t2 - t) (to_int (of_int tmp + i)) c s3)"
      using True s1 s2 s3 em by (subst spend.simps) (simp add: work_chunk_def)
    show ?thesis
    proof (cases "emergency < t3")
      case True
      then have "E < tm now s3 div 1000 * 1000"
        using rd assms(2) by (simp add: word_less_nat_alt)
      then have "E < tm now s3"
        using div_times_less_eq_dividend [of "tm now s3" 1000] by linarith
      then show ?thesis
        using step True T top by simp
    next
      case False
      then have "tm now s3 div 1000 * 1000 \<le> E"
        using rd assms(2) by (simp add: word_less_nat_alt)
      then have low: "tm now s3 \<le> E + 1000 + D"
        by linarith
      moreover have "E + 1000 + D - tm now s3 < E + 1000 + D - tm now s"
        using T(1) low by linarith
      ultimately show ?thesis
        using less.hyps [OF _ T(3) low, of t2 "t2 - t" "to_int (of_int tmp + i)" c] step False T(1) by fastforce
    qed
  next
    case False
    then show ?thesis
      using less.prems by (subst spend.simps) simp
  qed
qed

lemma job_returns:
  assumes "clocked host now D P" and "unat bail = B" and "0 < B" and "B + 1000001000 + 16387 * D < 2 ^ 64"
    and "P (st s)" and "tm now s + D < 2 ^ 64"
  shows "\<exists>k s'. job host cfg count [] [] bail s = Some (k, s') \<and> P (st s') \<and> tm now s \<le> tm now s' \<and>
    (if k then tm now s \<le> B + 1000 \<and> tm now s' \<le> B + 1000001000 + 16387 * D else B < tm now s')"
proof -
  obtain t1 s1 where s1: "wctime_ns host s = (t1, s1)"
    by force
  have T1: "tm now s \<le> tm now s1" "tm now s1 < 2 ^ 64" "P (st s1)"
    using wctime_tick(1) [OF assms(1) s1] assms(5,6) by (simp_all add: tick_def)
  have rd: "unat t1 = tm now s1 div 1000 * 1000"
    using wctime_reads [OF assms(1) s1 T1(2)] .
  have b0: "bail \<noteq> 0"
    using assms(2,3) by auto
  show ?thesis
  proof (cases "bail < t1")
    case True
    then have "B < tm now s1 div 1000 * 1000"
      using rd assms(2) by (simp add: word_less_nat_alt)
    then have "B < tm now s1"
      using div_times_less_eq_dividend [of "tm now s1" 1000] by linarith
    then show ?thesis
      using True s1 b0 T1 by (intro exI [of _ False] exI [of _ s1]) (simp add: job_def)
  next
    case False
    then have "tm now s1 div 1000 * 1000 \<le> B"
      using rd assms(2) by (simp add: word_less_nat_alt)
    then have low: "tm now s1 \<le> B + 1000"
      by linarith
    obtain t2 s2 where s2: "cputime_ns host s1 = (t2, s2)"
      by force
    have T2: "tm now s1 \<le> tm now s2" "tm now s2 \<le> B + 1000 + D" "P (st s2)"
      using cputime_tick [OF assms(1) s2] low T1(3) by (simp_all add: tick_def)
    have em: "unat (bail + 1000000000) = B + 1000000000"
      using assms(2,4) by (simp add: unat_word_ariths)
    obtain r s' where r: "spend host [] count t2 (loop_for_ns cfg) (bail + 1000000000) t2 0 0 (0, 0, 0) s2 = Some (r, s')" "P (st s')"
      "tm now s2 \<le> tm now s'" "tm now s' \<le> B + 1000000000 + 1000 + 16387 * D" "isl r \<longrightarrow> B + 1000000000 < tm now s'"
      using spend_returns [OF assms(1) em _ _ T2(3)] T2(2) assms(4) by fastforce
    have "job host cfg count [] [] bail s = Some (\<not> isl r, s')"
      using False s1 s2 r(1) b0 by (simp add: job_def loop_for_def)
    then show ?thesis
      using r T1(1) T2(1) low by auto
  qed
qed

text \<open>A release and the sleep after it: the next round starts at least a period, in whole microseconds, later.\<close>

lemma sleep_slack_period:
  assumes "clocked host now D P" and "unat r mod 1000 = 0" and "unat r \<le> tm now s" and "tm now s + D < 2 ^ 64" and "P (st s)"
  shows "\<exists>s'. sleep_slack host True period r s = s' \<and> P (st s') \<and> unat r + unat period div 1000 * 1000 \<le> tm now s' \<and>
    tm now s' \<le> tm now s + unat period + 2 * D"
proof -
  obtain t1 s1 where s1: "wctime_ns host s = (t1, s1)"
    by force
  have T1: "tm now s \<le> tm now s1" "tm now s1 \<le> tm now s + D" "P (st s1)"
    using wctime_tick(1) [OF assms(1) s1] assms(5) by (simp_all add: tick_def)
  have rd: "unat t1 = tm now s1 div 1000 * 1000"
    using wctime_reads [OF assms(1) s1] T1(2) assms(4) by linarith
  have "unat r div 1000 \<le> tm now s1 div 1000"
    using assms(3) T1(1) by (intro div_le_mono) linarith
  then have le: "unat r \<le> unat t1"
    using rd assms(2) by (metis add_0_right mult_div_mod_eq mult.commute mult_le_mono1)
  then have resp: "unat (t1 - r) = unat t1 - unat r"
    by (simp add: unat_sub word_le_nat_alt)
  show ?thesis
  proof (cases "t1 - r < period")
    case True
    then have "unat t1 - unat r \<le> unat period"
      using resp by (simp add: word_less_nat_alt)
    then have sl: "unat (period - (t1 - r)) = unat period - (unat t1 - unat r)"
      using resp by (subst unat_sub) (simp_all add: word_le_nat_alt)
    have "sleep_slack host True period r s = sleep_ns host (period - (t1 - r)) s1"
      using True s1 by (simp add: sleep_slack_def)
    moreover have "unat t1 \<le> tm now s1"
      using rd div_times_less_eq_dividend [of "tm now s1" 1000] by linarith
    moreover have "unat period div 1000 * 1000 \<le> unat period"
      by (rule div_times_less_eq_dividend)
    ultimately show ?thesis
      using sleep_tick [OF assms(1), of "period - (t1 - r)" s1] T1 le sl \<open>unat t1 - unat r \<le> unat period\<close> by (auto simp: tick_def)
  next
    case False
    then have "unat period \<le> unat t1 - unat r"
      using resp by (simp add: word_less_nat_alt)
    moreover have "unat t1 \<le> tm now s1" "unat period div 1000 * 1000 \<le> unat period"
      using rd div_times_less_eq_dividend [of "tm now s1" 1000] div_times_less_eq_dividend [of "unat period" 1000] by linarith+
    ultimately show ?thesis
      using False s1 T1 le by (auto simp: sleep_slack_def)
  qed
qed

lemma work_loop_returns:
  assumes clk: "clocked host now D (alive p (cnode cfg) G k0)" and B: "unat bail = t0 + dur" "0 < dur" "t0 mod 1000 = 0"
    and Pd: "Pd = unat (period_ns cfg) div 1000 * 1000" "0 < Pd" "dur + 1000 < (2 ^ 31 - 2) * Pd"
    and M: "M = t0 + dur + 1000001000 + 16390 * D + unat (period_ns cfg)" "M + 2 * D < 2 ^ 64"
  shows "alive p (cnode cfg) G k0 (st s) \<Longrightarrow> tm now s \<le> M \<Longrightarrow> t0 + k * Pd \<le> tm now s \<Longrightarrow> k < 2 ^ 31 - 1 \<Longrightarrow>
    \<exists>s'. work_loop host env os cfg True bail [] [] (int k) 0 s = Some s' \<and>
      alive p (cnode cfg) G (\<lambda>c. k0 c + told G (nat (nnode (cnode cfg))) c) (st s') \<and> t0 + dur < tm now s'"
proof (induction "2 ^ 31 - k" arbitrary: k s rule: less_induct)
  case less
  obtain r s1 where s1: "wctime_ns host s = (r, s1)"
    by force
  have T1: "tm now s \<le> tm now s1" "tm now s1 \<le> M + D" "alive p (cnode cfg) G k0 (st s1)"
    using wctime_tick(1) [OF clk s1] less.prems(1,2) by (simp_all add: tick_def)
  have rd: "unat r = tm now s1 div 1000 * 1000"
    using wctime_reads [OF clk s1] T1(2) M(2) by linarith
  have "1000 dvd t0 + k * Pd"
    using B(3) unfolding Pd(1) by (intro dvd_add dvd_mult) (simp_all add: mod_eq_0_iff_dvd)
  then have "t0 + k * Pd = (t0 + k * Pd) div 1000 * 1000"
    by (rule dvd_div_mult_self [symmetric])
  also have "\<dots> \<le> tm now s1 div 1000 * 1000"
    using less.prems(3) T1(1) by (intro mult_le_mono1 div_le_mono) linarith
  finally have rlow: "t0 + k * Pd \<le> unat r"
    using rd by linarith
  have bound: "t0 + dur + 1000001000 + 16387 * D < 2 ^ 64" "tm now s1 + D < 2 ^ 64"
    using M T1(2) by linarith+
  obtain go s2 where j: "job host cfg (int k) [] [] bail s1 = Some (go, s2)" "alive p (cnode cfg) G k0 (st s2)" "tm now s1 \<le> tm now s2"
    "if go then tm now s1 \<le> t0 + dur + 1000 \<and> tm now s2 \<le> t0 + dur + 1000001000 + 16387 * D else t0 + dur < tm now s2"
    using job_returns [OF clk B(1) _ bound(1) T1(3) bound(2), of cfg "int k"] B(2) by (elim exE conjE meta_impE) (simp, rule that)
  have count: "c_int (int k + 1) = Some (int (Suc k))"
    using less.prems(4) by (simp add: c_int_def in_int_def)
  have ret: "(0 :: int) \<noteq> uint PGM_TERMINATE"
    by (simp add: PGM_TERMINATE_def)
  show ?case
  proof (cases go)
    case False
    obtain t where t: "terminate_node os (cnode cfg) (st s2) = Some (0, t)"
      "alive p (cnode cfg) G (\<lambda>c. k0 c + told G (nat (nnode (cnode cfg))) c) t" "world t = world (st s2)"
      using produce_cv_node(2) [OF j(2)] by blast
    have "work_loop host env os cfg True bail [] [] (int k) 0 s = Some (s2\<lparr>st := t\<rparr>)"
      using False s1 j(1) count ret t(1) by (subst work_loop.simps) (simp add: lib_def)
    then show ?thesis
      using t(2,3) j(4) False by simp
  next
    case True
    obtain t where t: "complete_node os (cnode cfg) (st s2) = Some (0, t)" "alive p (cnode cfg) G k0 t" "world t = world (st s2)"
      using produce_cv_node(1) [OF j(2)] by blast
    let ?s3 = "s2\<lparr>st := t\<rparr>"
    have T2: "tm now s1 \<le> t0 + dur + 1000" "tm now s2 \<le> t0 + dur + 1000001000 + 16387 * D"
      using j(4) True by simp_all
    have "unat r \<le> tm now s1"
      using rd div_times_less_eq_dividend [of "tm now s1" 1000] by linarith
    then have T3: "tm now ?s3 = tm now s2" "unat r \<le> tm now s2" "tm now s2 + D < 2 ^ 64" "unat r mod 1000 = 0"
      using t(3) rd j(3) T2(2) M by simp_all
    obtain s4 where s4: "sleep_slack host True (period_ns cfg) r ?s3 = s4" "alive p (cnode cfg) G k0 (st s4)" "unat r + Pd \<le> tm now s4"
      "tm now s4 \<le> tm now s2 + unat (period_ns cfg) + 2 * D"
      using sleep_slack_period [OF clk T3(4), of ?s3 "period_ns cfg"] t(2) T3 unfolding Pd(1) by simp
    have "work_loop host env os cfg True bail [] [] (int k) 0 s = work_loop host env os cfg True bail [] [] (int (Suc k)) 0 s4"
      using True s1 j(1) count ret t(1) s4(1) by (subst work_loop.simps) (simp add: lib_def)
    moreover have "k * Pd < (2 ^ 31 - 2) * Pd"
      using rlow \<open>unat r \<le> tm now s1\<close> T2(1) Pd(3) by linarith
    then have "Suc k < 2 ^ 31 - 1"
      by simp
    moreover have "tm now s4 \<le> M" "t0 + Suc k * Pd \<le> tm now s4"
      using s4(3,4) T2(2) M(1) rlow by (linarith, simp)
    ultimately show ?thesis
      using less.hyps [OF _ s4(2), of "Suc k"] less.prems(4) by simp
  qed
qed

lemma worker_exit_frees:
  assumes "clocked host now D (alive self n G k)" and "alive self n G k (st s)" and "self \<noteq> 0" and "self \<noteq> UNCLAIMED_NODE"
  shows "\<exists>s'. worker_exit host os self n s = Some s' \<and> alive UNCLAIMED_NODE n G k (st s') \<and> tm now s \<le> tm now s'"
proof -
  have bar: "alive self n G k (st (host_barrier host s))" "tm now s \<le> tm now (host_barrier host s)"
    using assms(1,2) by (simp_all add: clocked_def)
  obtain t where t: "pgm_release_node os self n 0 (st (host_barrier host s)) = Some (0, t)" "alive UNCLAIMED_NODE n G k t"
    "world t = world (st (host_barrier host s))"
    using release_cv_node [OF bar(1) assms(3,4)] by blast
  then show ?thesis
    using bar(2) by (simp add: worker_exit_def lib_def)
qed

lemma runs_queries:
  assumes "runs p n t"
  shows "\<exists>d. pgm_get_degree_out t n True = Some d" and "pgm_get_edges_in n False 0 True t = Some (-1, [])"
    and "\<exists>r. pgm_get_edges_out n True 0 True t = Some r"
proof -
  note d = runs_nodeD [OF assms]
  have "in_nodes (nnode n)"
    using d(4) by (simp add: has_node_def)
  then show "\<exists>d. pgm_get_degree_out t n True = Some d" "\<exists>r. pgm_get_edges_out n True 0 True t = Some r"
    using d(1) by (simp_all add: pgm_get_degree_out_def pgm_get_edges_out_def with_node_def)
  show "pgm_get_edges_in n False 0 True t = Some (-1, [])"
    by (simp add: pgm_get_edges_in_def)
qed

text \<open>
  C15: a source worker stops in time, tells its consumers and leaves its node free.  Let the node have only
  condition-variable edges and no incoming forward edge.  Let the other threads, whenever they run, not take the node
  from its owner, not change the shape of the graph and not take back terminate signals.  Then the worker claims the
  node, works until its duration is over, as far as a clock of microseconds can tell, and returns with the node
  released, whatever delays the system calls have up to \<open>D\<close> nanoseconds each.  Each consumer has got one terminate
  signal for each of its forward edges from the node.  No time value overflows and the number of jobs stays in the
  range of \<open>int\<close>.
\<close>

theorem source_worker_returns:
  fixes now :: "'w \<Rightarrow> nat" and cfg s
  defines "n \<equiv> cnode cfg"
  defines "G \<equiv> graph_of (st s) (ngraph n)"
  assumes "\<forall>k. clocked host now D (alive self n G k)" and "runs UNCLAIMED_NODE n (st s)"
    and "self \<noteq> 0" and "self \<noteq> UNCLAIMED_NODE" and "pgm_get_degree_in (st s) n True = Some 0"
    and "0 < duration_ns cfg" and "1000 \<le> period_ns cfg"
    and "unat (duration_ns cfg) + 1000 < (2 ^ 31 - 2) * (unat (period_ns cfg) div 1000 * 1000)"
    and "tm now s + unat (phase_ns cfg) + unat (duration_ns cfg) + unat (period_ns cfg) + 1000001000 + 16400 * D < 2 ^ 64"
  shows "\<exists>s'. work_thread host env os self cfg s = Some s' \<and> runs UNCLAIMED_NODE n (st s') \<and>
    (\<forall>c. nr_terminate_signals (nodes G c) + told G (nat (nnode n)) c \<le>
      nr_terminate_signals (nodes (graph_of (st s') (ngraph n)) c)) \<and>
    tm now s + unat (phase_ns cfg) + unat (duration_ns cfg) \<le> tm now s' + 1000"
proof -
  let ?k = "\<lambda>c. nr_terminate_signals (nodes G c)"
  let ?k' = "\<lambda>c. ?k c + told G (nat (nnode n)) c"
  let ?dur = "unat (duration_ns cfg)" and ?cfg = "cfg\<lparr>loop_for_ns := if execution_ns cfg < discount_ns cfg then 0 else execution_ns cfg - discount_ns cfg\<rparr>"
  note clk = assms(3) [THEN spec, of ?k] and clk' = assms(3) [THEN spec, of ?k']
  have "alive UNCLAIMED_NODE n G ?k (st s)"
    using assms(4) by (simp add: alive_def G_def same_shape_def)
  from claim_cv_node [OF this assms(5)]
  obtain t where t: "pgm_claim_node os self n 0 (st s) = Some (0, t)" "alive self n G ?k t" "world t = world (st s)"
    by blast
  let ?s1 = "sleep_ns host (phase_ns cfg) (s\<lparr>st := t\<rparr>)"
  obtain w s2 where s2: "wctime_ns host ?s1 = (w, s2)"
    by force
  have T: "alive self n G ?k (st s2)" "tm now s + unat (phase_ns cfg) \<le> tm now s2" "tm now s2 \<le> tm now s + unat (phase_ns cfg) + 2 * D"
    using tick_trans [OF sleep_tick [OF clk, of "phase_ns cfg" "s\<lparr>st := t\<rparr>"] wctime_tick(1) [OF clk s2]] t(2,3)
    by (simp_all add: tick_def)
  have rd: "unat w = tm now s2 div 1000 * 1000"
    using wctime_reads [OF clk s2] T(3) assms(11) by linarith
  have w: "unat w \<le> tm now s2" "tm now s2 \<le> unat w + 1000" "unat w mod 1000 = 0"
    using rd div_times_less_eq_dividend [of "tm now s2" 1000] by simp_all
  have bail: "unat (w + duration_ns cfg) = unat w + ?dur"
    using w(1) T(3) assms(11) by (simp add: unat_word_ariths)
  have "0 < ?dur" "1000 \<le> unat (period_ns cfg)"
    using assms(8,9) by (simp_all add: word_less_nat_alt word_le_nat_alt)
  then have Pd: "0 < unat (period_ns ?cfg) div 1000 * 1000"
    by (simp add: div_greater_zero_iff)
  have M: "unat w + ?dur + 1000001000 + 16390 * D + unat (period_ns ?cfg) + 2 * D < 2 ^ 64"
    using w(1) T(3) assms(11) by simp
  have "\<exists>s'. work_loop host env os ?cfg True (w + duration_ns cfg) [] [] (int 0) 0 s2 = Some s' \<and>
      alive self (cnode ?cfg) G (\<lambda>c. ?k c + told G (nat (nnode (cnode ?cfg))) c) (st s') \<and> unat w + ?dur < tm now s'"
    using w T assms(10) \<open>0 < ?dur\<close>
    by (intro work_loop_returns [OF _ bail \<open>0 < ?dur\<close> w(3) refl Pd _ refl M]) (simp_all add: clk flip: n_def)
  then obtain s3 where s3: "work_loop host env os ?cfg True (w + duration_ns cfg) [] [] 0 0 s2 = Some s3" "alive self n G ?k' (st s3)"
    "unat w + ?dur < tm now s3"
    by (auto simp flip: n_def)
  obtain s4 where s4: "worker_exit host os self n s3 = Some s4" "alive UNCLAIMED_NODE n G ?k' (st s4)" "tm now s3 \<le> tm now s4"
    using worker_exit_frees [OF clk' s3(2) assms(5,6)] by blast
  have "work_thread host env os self cfg s = Some s4"
    using runs_queries(1) [OF assms(4)] runs_queries(2,3) [of self n t] t(2) assms(7) t(1) s2 s3(1) s4(1)
    by (auto simp: work_thread_def phased_release_def lib_def Let_def attached_def alive_def simp flip: n_def)
  then show ?thesis
    using s4(2,3) s3(3) w(2) T(2) by (auto simp: alive_def)
qed

section \<open>Examples\<close>

text \<open>A system whose state is its clock, in which only busy loops and sleeping take time.\<close>

definition advance :: "nat \<Rightarrow> nat prog \<Rightarrow> nat prog" where
  "advance d s = s\<lparr>st := (st s)\<lparr>world := world (st s) + d\<rparr>\<rparr>"

definition clock_host :: "nat host" where
  "clock_host = \<lparr>host_cputime = (\<lambda>s. ((int (world (st s) div 10 ^ 9), int (world (st s) mod 10 ^ 9)), s)),
     host_time = (\<lambda>s. ((int (world (st s) div 10 ^ 9), int (world (st s) mod 10 ^ 9 div 1000)), s)),
     host_sleep = (\<lambda>sec nsec. advance (nat sec * 10 ^ 9 + nat nsec)), host_relax = advance 1, host_barrier = id\<rparr>"

definition clock_prog :: "nat prog" where
  "clock_prog = \<lparr>st = \<lparr>gMemName = [], gIsGraphMaster = (\<lambda>t. t = 1), gGraphSharedMem = False, gGraphs = gGraphs full_state,
     gGraphPath = ''/tmp/g'', mem_hdr = mem_hdr full_state, mem_byte = mem_byte full_state, world = 0\<rparr>, edgeToWs = Map.empty\<rparr>"

definition clock_config :: rt_config where
  "clock_config = \<lparr>syncRelease = False, cluster = 0, budget = 0, phase_ns = 2000, period_ns = 1000000, execution_ns = 500000,
     discount_ns = 0, loop_for_ns = 0, split_factor = 1, expected_etoe = 0, duration_ns = 5000000, cnode = node0\<rparr>"

lemma clock_host_clocked: "clocked clock_host id 1 (alive p n G k)"
proof -
  have runs: "alive p n G k (st (advance d s)) = alive p n G k (st s)" for d s
    using live_graph_cong [of "st (advance d s)" "st s"] graph_of_cong [of "st (advance d s)" "st s"] state_inv_cong [of "st (advance d s)" "st s"]
    by (simp add: alive_def runs_def valid_node_def owner_of_def advance_def)
  have "\<exists>sec usec. (int (w div 10 ^ 9), int (w mod 10 ^ 9 div 1000)) = (int sec, int usec) \<and> sec * 10 ^ 6 + usec = w div 1000" for w :: nat
  proof -
    have "(w div 10 ^ 9 * 10 ^ 6 * 1000 + w mod 10 ^ 9) div 1000 = w div 10 ^ 9 * 10 ^ 6 + w mod 10 ^ 9 div 1000"
      by (rule div_mult_self3) simp
    moreover have "w div 10 ^ 9 * 10 ^ 6 * 1000 + w mod 10 ^ 9 = w"
      using div_mult_mod_eq [of w "10 ^ 9"] by simp
    ultimately have "w div 10 ^ 9 * 10 ^ 6 + w mod 10 ^ 9 div 1000 = w div 1000"
      by (simp only:)
    then show ?thesis
      by blast
  qed
  then show ?thesis
    unfolding clocked_def tick_def clock_host_def using runs runs [of 1] by (simp add: advance_def)
qed

lemma clock_prog_free: "runs UNCLAIMED_NODE node0 (st clock_prog)" "pgm_get_degree_in (st clock_prog) node0 True = Some 0"
proof -
  have g: "live_graph (st clock_prog) h \<longleftrightarrow> h = 0" "graph_of (st clock_prog) 0 = full_graph" for h
    by (auto simp: live_graph_def is_valid_graph_def is_valid_handle_def clock_prog_def full_state_def full_graph_def
        zero_graph_def PGM_MAX_GRAPHS_def graph_of_def split: if_splits)
  have "edges full_graph i = full_edge" if "i < 31" for i
    using that by (simp add: full_graph_def)
  then have "cv_node full_graph 0"
    by (simp add: cv_node_def full_graph_terminate) (simp add: full_graph_def zero_node_def in_list_def full_edge_fields default_edge_attr)
  then show "runs UNCLAIMED_NODE node0 (st clock_prog)"
    by (simp add: runs_def state_inv_def g full_graph_inv valid_node_def owner_of_def) (simp add: full_graph_def)
  show "pgm_get_degree_in (st clock_prog) node0 True = Some 0"
    using g by (simp add: pgm_get_degree_in_def with_node_def in_nodes_def full_graph_def in_list_def zero_node_def count_forward_def PGM_MAX_NODES_def)
qed

lemma clock_prog_told: "graph_of (st clock_prog) (ngraph node0) = full_graph" "told full_graph (nat (nnode node0)) 1 = 31"
proof -
  show "graph_of (st clock_prog) (ngraph node0) = full_graph"
    by (simp add: clock_prog_def full_state_def graph_of_def)
  have "edges full_graph i = full_edge" if "i < 31" for i
    using that by (simp add: full_graph_def)
  then have "filter (\<lambda>i. forward_signal (edges full_graph i) \<and> e_consumer (edges full_graph i) = 1) [0..<31] = [0..<31]"
    by (subst filter_id_conv) (simp add: forward_signal_def full_edge_fields default_edge_attr)
  then show "told full_graph (nat (nnode node0)) 1 = 31"
    by (simp add: told_def full_graph_terminate)
qed

theorem source_worker_returns_witness:
  "\<forall>env os. \<exists>s'. work_thread clock_host env os 1 clock_config clock_prog = Some s' \<and> owner_of (st s') node0 = UNCLAIMED_NODE \<and>
    31 \<le> nr_terminate_signals (nodes (graph_of (st s') 0) 1) \<and> 5001000 \<le> world (st s')"
proof (intro allI)
  fix env :: "nat env" and os :: "nat os"
  have c: "cnode clock_config = node0" "unat (duration_ns clock_config) = 5000000" "unat (period_ns clock_config) = 1000000"
    "unat (phase_ns clock_config) = 2000" "tm id clock_prog = 0"
    by (simp_all add: clock_config_def clock_prog_def)
  have "\<exists>s'. work_thread clock_host env os 1 clock_config clock_prog = Some s' \<and> runs UNCLAIMED_NODE (cnode clock_config) (st s') \<and>
      (\<forall>c. nr_terminate_signals (nodes (graph_of (st clock_prog) (ngraph (cnode clock_config))) c) +
          told (graph_of (st clock_prog) (ngraph (cnode clock_config))) (nat (nnode (cnode clock_config))) c
        \<le> nr_terminate_signals (nodes (graph_of (st s') (ngraph (cnode clock_config))) c)) \<and>
      tm id clock_prog + unat (phase_ns clock_config) + unat (duration_ns clock_config) \<le> tm id s' + 1000"
    by (rule source_worker_returns [OF allI [OF clock_host_clocked]])
      (use clock_prog_free c in \<open>simp_all add: UNCLAIMED_NODE_def word_less_nat_alt word_le_nat_alt\<close>)
  then obtain s' where s': "work_thread clock_host env os 1 clock_config clock_prog = Some s'" "runs UNCLAIMED_NODE node0 (st s')"
    "\<forall>c. nr_terminate_signals (nodes full_graph c) + told full_graph (nat (nnode node0)) c
      \<le> nr_terminate_signals (nodes (graph_of (st s') (ngraph node0)) c)"
    "0 + 2000 + 5000000 \<le> tm id s' + 1000"
    unfolding c clock_prog_told(1) by (elim exE conjE) (rule that)
  show "\<exists>s'. work_thread clock_host env os 1 clock_config clock_prog = Some s' \<and> owner_of (st s') node0 = UNCLAIMED_NODE \<and>
      31 \<le> nr_terminate_signals (nodes (graph_of (st s') 0) 1) \<and> 5001000 \<le> world (st s')"
    using s'(1,2,4) s'(3) [THEN spec, of 1] clock_prog_told(2) by (intro exI [of _ s']) (simp add: runs_def)
qed

end
