(* ===== verification/Pgmrt_Config.thy ===== *)
theory Pgmrt_Config
  imports Pgm_Depth Pgm_Framework Pgmrt_Work
begin

text \<open>
  The configuration of the nodes by \<^verbatim>\<open>src/tools/pgmrt.cpp\<close>: the options that give execution times, split factors,
  working sets and clusters, and the part of \<open>main\<close> that sets up the graph and the parameters of every worker
  thread.  The options themselves, as \<open>boost::program_options\<close> returns them, are the record \<open>options\<close>; messages are
  left out.  A variable that is used without being set, a failed assertion and a conversion out of range are \<open>None\<close>, an
  exception is \<open>Inl\<close>.  The arithmetic on \<open>double\<close> is that of \<open>Double\<close>; the periods, phases and execution times are
  shown to be right up to its rounding.
\<close>

section \<open>The options of the nodes and edges\<close>

fun exec_loop :: "boost \<Rightarrow> string list \<Rightarrow> graph_t \<Rightarrow> 'w pgm_state \<Rightarrow> (node_t \<rightharpoonup> double) \<Rightarrow> (string + (node_t \<rightharpoonup> double)) option" where
  "exec_loop b [] g s m = Some (Inr m)"
| "exec_loop b (tok # toks) g s m =
     (case b_split b {CHR '':''} tok of
        [nm, v] \<Rightarrow>
          (case (pgm_find_node True g nm s, b_to_double b v) of
             (None, _) \<Rightarrow> None
           | (Some _, None) \<Rightarrow> Some (Inl ''bad lexical cast'')
           | (Some (_, None), Some d) \<Rightarrow> None
           | (Some (_, Some n), Some d) \<Rightarrow> exec_loop b toks g s (m(n \<mapsto> d)))
      | _ \<Rightarrow> Some (Inl (''Invalid execution time: '' @ tok)))"

definition parse_graph_exec :: "boost \<Rightarrow> string \<Rightarrow> graph_t \<Rightarrow> 'w pgm_state \<Rightarrow> (node_t \<rightharpoonup> double) \<Rightarrow> (string + (node_t \<rightharpoonup> double)) option" where
  "parse_graph_exec b execs g s m = (if execs = [] then Some (Inr m) else exec_loop b (b_split b {CHR '',''} execs) g s m)"

fun split_loop :: "boost \<Rightarrow> string list \<Rightarrow> graph_t \<Rightarrow> 'w pgm_state \<Rightarrow> (node_t \<rightharpoonup> int) \<Rightarrow> (string + (node_t \<rightharpoonup> int)) option" where
  "split_loop b [] g s m = Some (Inr m)"
| "split_loop b (tok # toks) g s m =
     (case b_split b {CHR '':''} tok of
        [nm, v] \<Rightarrow>
          (case (pgm_find_node True g nm s, b_to_int b v) of
             (None, _) \<Rightarrow> None
           | (Some _, None) \<Rightarrow> Some (Inl ''bad lexical cast'')
           | (Some (_, n), Some sf) \<Rightarrow>
               if sf < 0 then Some (Inl (''Invalid split factor: '' @ tok))
               else (case n of None \<Rightarrow> None | Some n \<Rightarrow> split_loop b toks g s (m(n \<mapsto> sf))))
      | _ \<Rightarrow> Some (Inl (''Invalid split factor: '' @ tok)))"

definition parse_graph_split_factor ::
  "boost \<Rightarrow> string \<Rightarrow> graph_t \<Rightarrow> 'w pgm_state \<Rightarrow> (node_t \<rightharpoonup> int) \<Rightarrow> (string + (node_t \<rightharpoonup> int)) option"
where
  "parse_graph_split_factor b splits g s m =
     (if splits = [] then Some (Inr m) else split_loop b (b_split b {CHR '',''} splits) g s m)"

fun wss_loop :: "boost \<Rightarrow> string list \<Rightarrow> graph_t \<Rightarrow> 'w pgm_state \<Rightarrow> (edge_t \<rightharpoonup> double) \<Rightarrow> (string + (edge_t \<rightharpoonup> double)) option" where
  "wss_loop b [] g s m = Some (Inr m)"
| "wss_loop b (tok # toks) g s m =
     (case b_split b {CHR '':''} tok of
        [pn, cn, v] \<Rightarrow>
          (case (lookup_node s g pn, lookup_node s g cn) of
             (Some p, Some c) \<Rightarrow>
               (case (pgm_find_edge True p c (Some (make_edge_name pn cn)) False s, b_to_double b v) of
                  (None, _) \<Rightarrow> None
                | (Some _, None) \<Rightarrow> Some (Inl ''bad lexical cast'')
                | (Some (_, None, _), Some d) \<Rightarrow> None
                | (Some (_, Some e, _), Some d) \<Rightarrow> wss_loop b toks g s (m(e \<mapsto> d_mult d 1024)))
           | _ \<Rightarrow> None)
      | _ \<Rightarrow> Some (Inl (''Invalid working set size: '' @ tok)))"

definition parse_graph_wss :: "boost \<Rightarrow> string \<Rightarrow> graph_t \<Rightarrow> 'w pgm_state \<Rightarrow> (edge_t \<rightharpoonup> double) \<Rightarrow> (string + (edge_t \<rightharpoonup> double)) option" where
  "parse_graph_wss b wss g s m = (if wss = [] then Some (Inr m) else wss_loop b (b_split b {CHR '',''} wss) g s m)"

fun cluster_loop :: "boost \<Rightarrow> string list \<Rightarrow> graph_t \<Rightarrow> 'w pgm_state \<Rightarrow> (node_t \<rightharpoonup> double) \<Rightarrow> (string + (node_t \<rightharpoonup> double)) option" where
  "cluster_loop b [] g s m = Some (Inr m)"
| "cluster_loop b (tok # toks) g s m =
     (case b_split b {CHR '':''} tok of
        [nm, v] \<Rightarrow>
          (case (pgm_find_node True g nm s, b_to_double b v) of
             (None, _) \<Rightarrow> None
           | (Some _, None) \<Rightarrow> Some (Inl ''bad lexical cast'')
           | (Some (_, None), Some d) \<Rightarrow> None
           | (Some (_, Some n), Some d) \<Rightarrow> cluster_loop b toks g s (m(n \<mapsto> d)))
      | _ \<Rightarrow> Some (Inl (''Invalid cluster ID: '' @ tok)))"

definition parse_graph_cluster :: "boost \<Rightarrow> string \<Rightarrow> graph_t \<Rightarrow> 'w pgm_state \<Rightarrow> (node_t \<rightharpoonup> double) \<Rightarrow> (string + (node_t \<rightharpoonup> double)) option" where
  "parse_graph_cluster b clusters g s m =
     (if clusters = [] then Some (Inr m) else cluster_loop b (b_split b {CHR '',''} clusters) g s m)"

definition parse_graph_file :: "string \<Rightarrow> string + node_t list \<times> edge_t list" where
  "parse_graph_file filename = Inl ''Graph files not yet implemented.''"

section \<open>The configuration of a node\<close>

text \<open>
  The weight of an edge: the period of its producer times the number of its jobs that reach the threshold.  The
  division of \<open>int\<close> rounds towards zero.
\<close>

definition jobs_to_thresh :: "int \<Rightarrow> int \<Rightarrow> int option" where
  "jobs_to_thresh t k =
     (if k = 0 \<or> t = - (2 ^ 31) \<and> k = -1 then None
      else Some (t sdiv k + (if t smod k \<noteq> 0 then 1 else 0)))"

definition producer_period :: "'w pgm_state \<Rightarrow> (node_t \<rightharpoonup> double) \<Rightarrow> edge_t \<Rightarrow> double option" where
  "producer_period s periods edge =
     do {producer \<leftarrow> pgm_get_producer s edge;
         t \<leftarrow> pgm_get_nr_threshold s edge;
         k \<leftarrow> pgm_get_nr_produce s edge;
         jobs \<leftarrow> jobs_to_thresh t k;
         p \<leftarrow> periods producer;
         Some (d_mult p (of_int jobs))}"

text \<open>
  The call of \<open>pgm_get_max_depth\<close> with this weight function, which is applied to every forward edge of the graph.
  A weight that is not finite comes from a period whose conversion to an integer is undefined anyway.
\<close>

definition phase_of :: "graph_algs \<Rightarrow> 'w pgm_state \<Rightarrow> (node_t \<rightharpoonup> double) \<Rightarrow> node_t \<Rightarrow> real option" where
  "phase_of ga s periods n =
     (if list_all (\<lambda>i. producer_period s periods \<lparr>egraph = ngraph n, eedge = int i\<rparr> \<notin> {None, Some None}) (forward_edges (graph_of s (ngraph n)))
      then pgm_get_max_depth ga s n (Some (\<lambda>e. the (the (producer_period s periods e))))
      else None)"

text \<open>Conversions of a \<open>double\<close>, and \<open>operator[]\<close> of a map, which inserts a zero.\<close>

definition trunc :: "real \<Rightarrow> int" where
  "trunc d = (if 0 \<le> d then \<lfloor>d\<rfloor> else \<lceil>d\<rceil>)"

definition trunc_uint64 :: "double \<Rightarrow> 64 word option" where
  "trunc_uint64 d =
     (case d of None \<Rightarrow> None | Some x \<Rightarrow> if 0 \<le> trunc x \<and> trunc x < 2 ^ 64 then Some (of_int (trunc x)) else None)"

definition trunc_int :: "double \<Rightarrow> int option" where
  "trunc_int d =
     (case d of None \<Rightarrow> None | Some x \<Rightarrow> if - (2 ^ 31) \<le> trunc x \<and> trunc x < 2 ^ 31 then Some (trunc x) else None)"

definition map_at :: "('k \<rightharpoonup> double) \<Rightarrow> 'k \<Rightarrow> double" where
  "map_at m k = (case m k of None \<Rightarrow> Some 0 | Some v \<Rightarrow> v)"

definition ms2ns :: "double \<Rightarrow> double" where
  "ms2ns ms = d_mult ms 1000000"

definition s2ns :: "double \<Rightarrow> double" where
  "s2ns sec = d_mult sec 1000000000"

record node_opts =
  periods :: "node_t \<rightharpoonup> double"
  executions :: "node_t \<rightharpoonup> double"
  discounts :: "node_t \<rightharpoonup> double"
  split_factors :: "node_t \<rightharpoonup> int"
  wss :: "edge_t \<rightharpoonup> double"
  clusters :: "node_t \<rightharpoonup> double"

definition node_config :: "graph_algs \<Rightarrow> 'w pgm_state \<Rightarrow> node_opts \<Rightarrow> node_t \<Rightarrow> rt_config \<Rightarrow> rt_config option" where
  "node_config ga s m n cfg =
     do {c \<leftarrow> trunc_int (map_at (clusters m) n);
         depth \<leftarrow> phase_of ga s (periods m) n;
         ph \<leftarrow> trunc_uint64 (ms2ns (Some depth));
         pe \<leftarrow> trunc_uint64 (ms2ns (map_at (periods m) n));
         ex \<leftarrow> trunc_uint64 (ms2ns (map_at (executions m) n));
         di \<leftarrow> trunc_uint64 (ms2ns (map_at (discounts m) n));
         Some (cfg\<lparr>cluster := c, cnode := n, phase_ns := ph, period_ns := pe, execution_ns := ex, discount_ns := di\<rparr>)}"

text \<open>
  The loop of \<open>main\<close> that starts a thread for every node but the first.  Reading the period of a node leaves an
  entry in the map, which the weight function of the later nodes would see.
\<close>

definition set_period :: "node_t \<Rightarrow> node_opts \<Rightarrow> node_opts" where
  "set_period n m = m\<lparr>periods := (periods m)(n \<mapsto> map_at (periods m) n)\<rparr>"

fun spawn_loop :: "graph_algs \<Rightarrow> 'w pgm_state \<Rightarrow> rt_config \<Rightarrow> node_t list \<Rightarrow> node_opts \<Rightarrow> (rt_config list \<times> node_opts) option" where
  "spawn_loop ga s cfg [] m = Some ([], m)"
| "spawn_loop ga s cfg (n # ns) m =
     do {c \<leftarrow> node_config ga s m n cfg;
         let c = (case split_factors m n of None \<Rightarrow> c | Some sf \<Rightarrow> c\<lparr>split_factor := sf\<rparr>);
         r \<leftarrow> spawn_loop ga s cfg ns (set_period n m);
         Some (c # fst r, snd r)}"

text \<open>The configurations of the threads, and of the main thread, which handles the first node.\<close>

definition main_configs :: "graph_algs \<Rightarrow> 'w pgm_state \<Rightarrow> rt_config \<Rightarrow> node_t list \<Rightarrow> node_opts \<Rightarrow> (rt_config list \<times> rt_config) option" where
  "main_configs ga s cfg ns m =
     (case ns of
        [] \<Rightarrow> None
      | n # ns \<Rightarrow>
          do {r \<leftarrow> spawn_loop ga s cfg ns m;
              c \<leftarrow> node_config ga s (snd r) n cfg;
              Some (fst r, c)})"

section \<open>The main program up to the start of the threads\<close>

text \<open>The values of the options; an option without a default value is \<open>None\<close> when it is not given.\<close>

record options =
  opt_wait :: bool
  opt_cluster :: string
  opt_graphfile :: "string option"
  opt_name :: string
  opt_graph :: "string option"
  opt_rates :: "string option"
  opt_execution :: "string option"
  opt_discount :: string
  opt_etoe :: double
  opt_wss :: string
  opt_split :: string
  opt_wsCycle :: int
  opt_graphDir :: string
  opt_duration :: double
  opt_continuation :: bool

text \<open>The initial configuration; there is no option \<open>budget\<close>, so that its count is zero.\<close>

definition base_config :: "options \<Rightarrow> rt_config option" where
  "base_config vm =
     do {etoe \<leftarrow> trunc_uint64 (ms2ns (opt_etoe vm));
         d \<leftarrow> trunc_uint64 (s2ns (opt_duration vm));
         Some \<lparr>syncRelease = opt_wait vm, cluster = -1, budget = 0, phase_ns = 0, period_ns = 0, execution_ns = 0,
           discount_ns = 0, loop_for_ns = 0, split_factor = 1, expected_etoe = etoe, duration_ns = d,
           cnode = \<lparr>ngraph = 0, nnode = 0\<rparr>\<rparr>}"

definition graph_dir :: "pid_t \<Rightarrow> options \<Rightarrow> string" where
  "graph_dir pid vm =
     (if opt_name vm \<noteq> [] then opt_graphDir vm @ opt_name vm
      else opt_graphDir vm @ ''_'' @ numerical_name (word_of_int pid) PGM_GRAPH_NAME_LEN)"

text \<open>The graph is created, or looked up when it belongs to another process; a handle that was not set is used all the same.\<close>

definition main_graph :: "pid_t \<Rightarrow> pid_t \<Rightarrow> options \<Rightarrow> 'w pgm_state \<Rightarrow> (graph_t \<times> 'w pgm_state) option" where
  "main_graph self pid vm s =
     (if \<not> opt_continuation vm then
        (case (if opt_name vm \<noteq> [] then pgm_init_graph self (opt_name vm) s else pgm_init_graph_num self (word_of_int pid) s) of
           Some (_, Some g, s) \<Rightarrow> Some (g, s)
         | _ \<Rightarrow> None)
      else if opt_name vm \<noteq> [] then
        (case pgm_find_graph (opt_name vm) s of
           Some (_, Some g) \<Rightarrow> Some (g, s)
         | _ \<Rightarrow> None)
      else None)"

text \<open>\<open>given\<close> passes on an exception; the value of an option that was not given throws \<open>bad_any_cast\<close>.\<close>

definition given :: "(string + 'a) option \<Rightarrow> ('a \<Rightarrow> (string + 'b) option) \<Rightarrow> (string + 'b) option" where
  "given r f = (case r of None \<Rightarrow> None | Some (Inl ex) \<Rightarrow> Some (Inl ex) | Some (Inr x) \<Rightarrow> f x)"

definition opt_value :: "string option \<Rightarrow> (string + string) option" where
  "opt_value v = Some (case v of None \<Rightarrow> Inl ''bad any cast'' | Some x \<Rightarrow> Inr x)"

definition parse_node_opts :: "boost \<Rightarrow> options \<Rightarrow> graph_t \<Rightarrow> 'w pgm_state \<Rightarrow> (string + node_opts) option" where
  "parse_node_opts b vm g s =
     given (opt_value (opt_rates vm)) (\<lambda>r.
     given (Option.bind (parse_graph_rates b r g s Map.empty) id) (\<lambda>ps.
     given (opt_value (opt_execution vm)) (\<lambda>x.
     given (parse_graph_exec b x g s Map.empty) (\<lambda>xs.
     given (parse_graph_exec b (opt_discount vm) g s Map.empty) (\<lambda>ds.
     given (parse_graph_split_factor b (opt_split vm) g s Map.empty) (\<lambda>sfs.
     given (parse_graph_wss b (opt_wss vm) g s Map.empty) (\<lambda>ws.
     given (parse_graph_cluster b (opt_cluster vm) g s Map.empty) (\<lambda>cs.
       Some (Inr \<lparr>periods = ps, executions = xs, discounts = ds, split_factors = sfs, wss = ws, clusters = cs\<rparr>)))))))))"

definition main_parse ::
  "boost \<Rightarrow> 'w os \<Rightarrow> pid_t \<Rightarrow> pid_t \<Rightarrow> options \<Rightarrow> 'w pgm_state \<Rightarrow>
   (string + graph_t \<times> node_t list \<times> edge_t list \<times> node_opts \<times> 'w pgm_state) option"
where
  "main_parse b os self pid vm s =
     (case (opt_graph vm, opt_graphfile vm) of
        (Some desc, _) \<Rightarrow>
          do {gs \<leftarrow> main_graph self pid vm s;
              d \<leftarrow> parse_graph_description b os self desc (fst gs) (snd gs);
              case fst d of
                Inl ex \<Rightarrow> Some (Inl ex)
              | Inr ne \<Rightarrow> given (parse_node_opts b vm (fst gs) (snd d)) (\<lambda>m. Some (Inr (fst gs, fst ne, snd ne, m, snd d)))}
      | (None, Some file) \<Rightarrow>
          (case parse_graph_file file of Inl ex \<Rightarrow> Some (Inl ex) | Inr _ \<Rightarrow> None)
      | (None, None) \<Rightarrow> Some (Inl ''Missing graph file or description''))"

text \<open>The loop that allocates the working sets, in the order of the edges of the graph, which is the order of the map.\<close>

fun new_sets :: "(nat \<Rightarrow> int) \<Rightarrow> int \<Rightarrow> (edge_t \<rightharpoonup> double) \<Rightarrow> edge_t list \<Rightarrow> sets \<Rightarrow> sets option" where
  "new_sets junk cycle sizes [] m = Some m"
| "new_sets junk cycle sizes (e # es) m =
     (case sizes e of
        None \<Rightarrow> new_sets junk cycle sizes es m
      | Some d \<Rightarrow>
          do {n \<leftarrow> trunc_int d;
              ws \<leftarrow> new_WorkingSet junk n cycle;
              new_sets junk cycle sizes es (m(e \<mapsto> ws))})"

text \<open>The program from the options to the started threads; \<open>Inl\<close> is \<open>exit(-1)\<close> with the message of an exception.\<close>

definition main_setup ::
  "boost \<Rightarrow> graph_algs \<Rightarrow> 'w fs \<Rightarrow> 'w os \<Rightarrow> (nat \<Rightarrow> int) \<Rightarrow> bool \<Rightarrow> pid_t \<Rightarrow> pid_t \<Rightarrow> options \<Rightarrow> 'w pgm_state \<Rightarrow>
   (string + graph_t \<times> rt_config list \<times> rt_config \<times> 'w prog) option"
where
  "main_setup b ga fs os junk shared self pid vm s =
     do {cfg \<leftarrow> base_config vm;
         r \<leftarrow> pgm_init fs os shared self (graph_dir pid vm) (\<not> opt_continuation vm) False s;
         given (main_parse b os self pid vm (snd r)) (\<lambda>(g, ns, es, m, s).
           do {ws \<leftarrow> new_sets junk (opt_wsCycle vm) (wss m) (map (\<lambda>i. \<lparr>egraph = g, eedge = int i\<rparr>) [0..<nr_edges (graph_of s g)]) Map.empty;
               cs \<leftarrow> main_configs ga s cfg ns m;
               Some (Inr (g, fst cs, snd cs, \<lparr>st = s, edgeToWs = ws\<rparr>))})}"

text \<open>
  A process started with \<open>--continuation\<close> asks \<open>pgm_init\<close> for neither a new directory nor shared memory, which is
  an error, and then looks for the graph in shared memory it does not have.  Without the option \<open>--duration\<close> the
  duration is \<open>-1\<close>, which has no value of the unsigned type.
\<close>

lemma continuation_undefined:
  assumes "opt_continuation vm" and "\<not> gGraphSharedMem s" and "opt_graph vm = Some desc"
  shows "main_setup b ga fs os junk shared self pid vm s = None"
  using assms by (simp add: main_setup_def pgm_init_def main_parse_def main_graph_def pgm_find_graph_def given_def bind_eq_None_conv)

lemma default_duration_undefined:
  assumes "opt_duration vm = Some (-1)"
  shows "main_setup b ga fs os junk shared self pid vm s = None"
proof -
  have "nearest (-1000000000) = -1000000000"
    using nearest_of_int [of "-1000000000"] by simp
  then have "trunc_uint64 (s2ns (opt_duration vm)) = None"
    by (simp add: assms s2ns_def d_mult_def to_double_def trunc_uint64_def trunc_def)
  then show ?thesis
    by (simp add: main_setup_def base_config_def bind_eq_None_conv)
qed

section \<open>The configuration of a balanced graph\<close>

text \<open>
  The span of an edge: the time, in milliseconds, that its producer needs to fill it up to its threshold, when
  each node \<open>j\<close> is executed \<open>X j\<close> times in \<open>L\<close> microseconds; and the same as it is computed.
\<close>

definition jobs_needed :: "pgm_graph \<Rightarrow> nat \<Rightarrow> nat" where
  "jobs_needed g i = (unat (nr_threshold (e_attr (edges g i))) + unat (nr_produce (e_attr (edges g i))) - 1) div
     unat (nr_produce (e_attr (edges g i)))"

definition edge_span :: "pgm_graph \<Rightarrow> (nat \<Rightarrow> nat) \<Rightarrow> nat \<Rightarrow> nat \<Rightarrow> real" where
  "edge_span g X L i = real L / real (X (e_producer (edges g i))) / 1000 * real (jobs_needed g i)"

definition span_ms :: "pgm_graph \<Rightarrow> (nat \<Rightarrow> nat) \<Rightarrow> nat \<Rightarrow> nat \<Rightarrow> real" where
  "span_ms g X L i = nearest (period_ms L (X (e_producer (edges g i))) * real (jobs_needed g i))"

lemma jobs_to_thresh_ceiling:
  assumes "0 < k"
  shows "jobs_to_thresh (int t) (int k) = Some (int ((t + k - 1) div k))"
proof -
  have sd: "int t sdiv int k = int (t div k)" "int t smod int k = int (t mod k)"
    using assms by (simp_all add: signed_divide_int_def signed_modulo_int_def sgn_if zdiv_int zmod_int minus_div_mult_eq_mod)
  have "(t + k - 1) div k = t div k + (if t mod k = 0 then 0 else 1)"
  proof -
    have t: "t = k * (t div k) + t mod k" "t mod k < k"
      using assms by simp_all
    define q r where qr: "q = t div k" "r = t mod k"
    have "(k * q + r + k - 1) div k = q + (if r = 0 then 0 else 1)"
    proof (cases "r = 0")
      case True
      have "(k * q + r + k - 1) div k = ((k - 1) + k * q) div k"
        using assms True by (intro arg_cong2 [of _ _ _ _ "(div)"]) simp_all
      also have "\<dots> = q"
        using assms by (subst div_mult_self2) simp_all
      finally show ?thesis
        using True by simp
    next
      case False
      then have "(k * q + r + k - 1) div k = ((r - 1) + k * (q + 1)) div k"
        by (intro arg_cong2 [of _ _ _ _ "(div)"]) simp_all
      also have "\<dots> = q + 1"
        using assms t(2) qr by (subst div_mult_self2) simp_all
      finally show ?thesis
        using False by simp
    qed
    then show ?thesis
      using t(1) unfolding qr by simp
  qed
  then show ?thesis
    using assms by (simp add: jobs_to_thresh_def sd)
qed

definition whole :: "pgm_graph \<Rightarrow> bool" where
  "whole g \<longleftrightarrow> 0 < nr_nodes g \<and> (\<forall>i < nr_edges g. linked g i \<and> unat (nr_threshold (e_attr (edges g i))) < 2 ^ 31)"

lemma rt_depth_node:
  assumes "rt_graph s g" and "whole (graph_of s g)" and "j < nr_nodes (graph_of s g)"
  shows "depth_node s (node_hd g j)"
proof -
  have "well_named (graph_of s g)"
    unfolding well_named_def inj_on_def using rt_names_inj [OF assms(1)] rt_graphD(4) [OF assms(1)] by blast
  then show ?thesis
    using assms rt_graphD(1,2) [OF assms(1)] by (simp add: depth_node_def whole_def)
qed

lemma rt_forward_edges:
  assumes "rt_graph s g" and "whole (graph_of s g)"
  shows "forward_edges (graph_of s g) = [0..<nr_edges (graph_of s g)]"
  unfolding forward_edges_def using assms(2) rt_graphD(6) [OF assms(1)] by (simp add: filter_id_conv whole_def)

definition periods_of :: "graph_t \<Rightarrow> pgm_graph \<Rightarrow> (nat \<Rightarrow> nat) \<Rightarrow> nat \<Rightarrow> (node_t \<rightharpoonup> double) \<Rightarrow> bool" where
  "periods_of h g X L P \<longleftrightarrow> (\<forall>j < nr_nodes g. P (node_hd h j) = Some (Some (period_ms L (X j))))"

lemma span_ms_close:
  assumes "0 < L" and "L \<le> 2 ^ 53" and "0 < X (e_producer (edges g i))" and "X (e_producer (edges g i)) \<le> 2 ^ 53"
    and "jobs_needed g i < 2 ^ 32"
  shows "close 3 (span_ms g X L i) (edge_span g X L i)" and "sizable (span_ms g X L i)"
    and "to_double (period_ms L (X (e_producer (edges g i))) * real (jobs_needed g i)) = Some (span_ms g X L i)"
proof -
  let ?x = "X (e_producer (edges g i))" and ?k = "jobs_needed g i"
  note p = period_ms_close [OF assms(1-4)]
  have pos: "2 powr (-1000) \<le> period_ms L ?x" "0 \<le> period_ms L ?x"
    using p(2) small_powers(1) powr_ge_zero [of 2 "-63"] by linarith+
  have "period_ms L ?x * 1 \<le> period_ms L ?x * real ?k" if "?k \<noteq> 0"
    using that pos(2) by (intro mult_left_mono) simp_all
  then have "sizable (period_ms L ?x * real ?k)"
    using pos(1) unfolding sizable_def by (cases "?k = 0") auto
  note n = close_nearest [OF this]
  show "close 3 (span_ms g X L i) (edge_span g X L i)"
    using close_trans [OF n(1) close_scale [OF p(1), of "real ?k"]] by (simp add: span_ms_def edge_span_def numeral_3_eq_3)
  show "sizable (span_ms g X L i)"
    using n(2) by (simp add: span_ms_def)
  have "real ?k \<le> 2 ^ 32"
    using of_nat_mono [OF less_imp_le [OF assms(5)], where 'a = real] by simp
  then have "period_ms L ?x * real ?k \<le> 2 ^ 53 * 2 ^ 32"
    using p(3) pos(2) by (intro mult_mono) simp_all
  also have "\<dots> \<le> 2 ^ 1000"
    by simp
  finally show "to_double (period_ms L ?x * real ?k) = Some (span_ms g X L i)"
    using pos(2) by (simp add: to_double_finite span_ms_def)
qed

lemma producer_period_span:
  fixes s :: "'w pgm_state" and g :: graph_t
  defines "G \<equiv> graph_of s g"
  assumes "rt_graph s g" and "whole G" and "balanced G X L" and "exact_counts G X L" and "periods_of g G X L P" and "i < nr_edges G"
  shows "producer_period s P \<lparr>egraph = g, eedge = int i\<rparr> = Some (Some (span_ms G X L i))"
    and "close 3 (span_ms G X L i) (edge_span G X L i)" and "sizable (span_ms G X L i)"
proof -
  let ?a = "e_attr (edges G i)" and ?p = "e_producer (edges G i)"
  have inv: "graph_inv G" "live_graph s g" and i: "linked G i" "unat (nr_threshold ?a) < 2 ^ 31"
    using rt_graphD(2,3) [OF assms(2)] assms(3,7) by (simp_all add: G_def whole_def)
  then have "nr_produce ?a \<noteq> 0"
    using linkedD(4) by (simp add: edge_attr_ok_def)
  then have p: "?p < nr_nodes G" "0 < unat (nr_produce ?a)" "unat (nr_produce ?a) < 2 ^ 31"
    using linkedD(2) [OF inv(1) i(1)] assms(4) i(1) by (simp_all add: balanced_def Let_def unat_gt_0)
  have "jobs_needed G i \<le> unat (nr_threshold ?a) + unat (nr_produce ?a) - 1"
    unfolding jobs_needed_def by (rule div_le_dividend)
  then have "jobs_needed G i < 2 ^ 32"
    using i(2) p(3) by simp
  note sp = span_ms_close [OF _ _ _ _ this, of L X]
  have c: "0 < L" "L \<le> 2 ^ 53" "0 < X ?p" "X ?p \<le> 2 ^ 53"
    using assms(4,5) p(1) by (simp_all add: balanced_def exact_counts_def)
  show "close 3 (span_ms G X L i) (edge_span G X L i)" "sizable (span_ms G X L i)"
    using sp(1,2) c by simp_all
  have "in_edges (int i)"
    using assms(7) inv(1) by (simp add: in_edges_def graph_inv_def)
  then have "pgm_get_producer s \<lparr>egraph = g, eedge = int i\<rparr> = Some (node_hd g ?p)"
    "pgm_get_nr_threshold s \<lparr>egraph = g, eedge = int i\<rparr> = Some (int (unat (nr_threshold ?a)))"
    "pgm_get_nr_produce s \<lparr>egraph = g, eedge = int i\<rparr> = Some (int (unat (nr_produce ?a)))"
    using inv(2) i(2) p(3)
    by (simp_all add: pgm_get_producer_def pgm_get_nr_threshold_def pgm_get_nr_produce_def with_edge_def to_int_small G_def)
  moreover have "jobs_to_thresh (int (unat (nr_threshold ?a))) (int (unat (nr_produce ?a))) = Some (int (jobs_needed G i))"
    unfolding jobs_needed_def by (rule jobs_to_thresh_ceiling [OF p(2)])
  moreover have "d_mult (Some (period_ms L (X ?p))) (of_int (int (jobs_needed G i))) = Some (span_ms G X L i)"
    using sp(3) c by (simp add: d_mult_def)
  ultimately show "producer_period s P \<lparr>egraph = g, eedge = int i\<rparr> = Some (Some (span_ms G X L i))"
    using assms(6) p(1) by (simp add: producer_period_def periods_of_def del: of_int_of_nat_eq)
qed

abbreviation spans :: "pgm_graph \<Rightarrow> (nat \<Rightarrow> nat) \<Rightarrow> nat \<Rightarrow> real list" where
  "spans g X L \<equiv> map (edge_span g X L) [0..<nr_edges g]"

abbreviation span_weights :: "pgm_graph \<Rightarrow> (nat \<Rightarrow> nat) \<Rightarrow> nat \<Rightarrow> real list" where
  "span_weights g X L \<equiv> map (span_ms g X L) [0..<nr_edges g]"

text \<open>
  The cost of a path in the arithmetic of \<open>double\<close>, rounded after every addition; and what Bellman and Ford's
  algorithm, which adds weights along paths and keeps the smaller sum, computes with it on a graph without cycles.
  Rounding is monotone, so the least such cost is found as with exact sums.
\<close>

definition rounded_cost :: "real list \<Rightarrow> nat list \<Rightarrow> real" where
  "rounded_cost ws ks = foldl (\<lambda>a k. nearest (a + ws ! k)) 0 ks"

definition bellman_ford_rounded :: "graph_algs \<Rightarrow> nat \<Rightarrow> (nat \<times> nat) list \<Rightarrow> real list \<Rightarrow> bool" where
  "bellman_ford_rounded ga n es ws \<longleftrightarrow>
     (\<forall>u < n. \<forall>v < n. let x = bellman_ford ga n es ws ((\<lambda>_. dbl_max ga)(u := 0)) v
       in if \<exists>ks. epath es u ks v then least_by (rounded_cost ws) es u v x else x = dbl_max ga)"

lemma bellman_ford_roundedD:
  "bellman_ford_rounded ga n es ws \<Longrightarrow> u < n \<Longrightarrow> v < n \<Longrightarrow>
    let x = bellman_ford ga n es ws ((\<lambda>_. dbl_max ga)(u := 0)) v
    in if \<exists>ks. epath es u ks v then least_by (rounded_cost ws) es u v x else x = dbl_max ga"
  unfolding bellman_ford_rounded_def by blast

lemma rounded_cost_uminus: "set ks \<subseteq> {..<length ws} \<Longrightarrow> rounded_cost (map uminus ws) ks = - rounded_cost ws ks"
proof (induction ks rule: rev_induct)
  case (snoc k ks)
  then have "rounded_cost (map uminus ws) (ks @ [k]) = nearest (- (rounded_cost ws ks + ws ! k))"
    by (simp add: rounded_cost_def algebra_simps)
  then show ?case
    by (simp only: nearest_uminus) (simp add: rounded_cost_def)
qed (simp add: rounded_cost_def)

lemma rounded_cost_close:
  assumes "\<forall>k \<in> set ks. close 3 (ws ! k) (vs ! k) \<and> sizable (ws ! k)"
  shows "close (length ks + 3) (rounded_cost ws ks) (cost vs ks) \<and> sizable (rounded_cost ws ks)"
  using assms
proof (induction ks rule: rev_induct)
  case (snoc k ks)
  have IH: "close (length ks + 3) (rounded_cost ws ks) (cost vs ks)" "sizable (rounded_cost ws ks)"
    using snoc by simp_all
  have k: "close (length ks + 3) (ws ! k) (vs ! k)" "sizable (ws ! k)"
    using snoc.prems close_mono [of 3 "ws ! k" "vs ! k" "length ks + 3"] by simp_all
  note n = close_nearest [OF sizable_add [OF IH(2) k(2)]]
  have "rounded_cost ws (ks @ [k]) = nearest (rounded_cost ws ks + ws ! k)" "cost vs (ks @ [k]) = cost vs ks + vs ! k"
    by (simp_all add: rounded_cost_def cost_def)
  then show ?case
    using close_trans [OF n(1) close_add [OF IH(1) k(1)]] n(2) by simp
qed (simp add: rounded_cost_def cost_def close_refl sizable_def)

definition longest_phase :: "pgm_graph \<Rightarrow> (nat \<Rightarrow> nat) \<Rightarrow> nat \<Rightarrow> nat \<Rightarrow> real \<Rightarrow> bool" where
  "longest_phase g X L j d \<longleftrightarrow>
     (\<exists>u ks. u \<in> set (source_nodes g) \<and> epath (edge_array g) u ks j \<and> d = rounded_cost (span_weights g X L) ks) \<and>
     (\<forall>u ks. u \<in> set (source_nodes g) \<longrightarrow> epath (edge_array g) u ks j \<longrightarrow> rounded_cost (span_weights g X L) ks \<le> d)"

lemma path_cost_close:
  fixes s :: "'w pgm_state" and g :: graph_t
  defines "G \<equiv> graph_of s g"
  assumes "rt_graph s g" and "whole G" and "balanced G X L" and "exact_counts G X L" and "epath (edge_array G) u ks j"
  shows "close (length ks + 3) (rounded_cost (span_weights G X L) ks) (cost (spans G X L) ks)"
    and "sizable (rounded_cost (span_weights G X L) ks)" and "set ks \<subseteq> {..<nr_edges G}"
proof -
  define P :: "node_t \<rightharpoonup> double" where "P n = Some (Some (period_ms L (X (nat (nnode n)))))" for n
  have "periods_of g G X L P"
    by (simp add: periods_of_def P_def)
  note sp = producer_period_span(2,3) [OF assms(2), folded G_def, OF assms(3-5) this]
  have "length (edge_array G) = nr_edges G"
    using rt_forward_edges [OF assms(2)] assms(3) by (simp add: edge_array_def G_def)
  then show ks: "set ks \<subseteq> {..<nr_edges G}"
    using epath_index [OF assms(6)] by simp
  then have "\<forall>k \<in> set ks. close 3 (span_weights G X L ! k) (spans G X L ! k) \<and> sizable (span_weights G X L ! k)"
    using sp by (auto simp: subset_iff)
  from rounded_cost_close [OF this]
  show "close (length ks + 3) (rounded_cost (span_weights G X L) ks) (cost (spans G X L) ks)"
    "sizable (rounded_cost (span_weights G X L) ks)"
    by blast+
qed

lemma phase_of_longest:
  fixes s :: "'w pgm_state" and g :: graph_t
  defines "G \<equiv> graph_of s g"
  assumes "rt_graph s g" and "whole G" and "balanced G X L" and "exact_counts G X L" and "periods_of g G X L P"
    and "acyclic (succ_rel G True)" and "j < nr_nodes G" and "0 < dbl_max ga"
    and "bellman_ford_rounded ga (nr_nodes G) (edge_array G) (map uminus (span_weights G X L))"
  shows "\<exists>d. phase_of ga s P (node_hd g j) = Some d \<and> longest_phase G X L j d"
proof -
  define W where "W = map uminus (span_weights G X L)"
  let ?f = "\<lambda>e. the (the (producer_period s P e))" and ?n = "node_hd g j"
  have fe: "forward_edges G = [0..<nr_edges G]"
    using rt_forward_edges [OF assms(2)] assms(3) by (simp add: G_def)
  have pp: "producer_period s P \<lparr>egraph = g, eedge = int i\<rparr> = Some (Some (span_ms G X L i))" if "i < nr_edges G" for i
    using producer_period_span(1) [OF assms(2), folded G_def, OF assms(3-6) that] .
  then have ws: "edge_weights G g (Some ?f) (-1) = W"
    by (simp add: edge_weights_def fe W_def)
  have C: "rounded_cost W ks = - rounded_cost (span_weights G X L) ks" "0 \<le> rounded_cost (span_weights G X L) ks"
    if "epath (edge_array G) u ks v" for u ks v
    using path_cost_close(2,3) [OF assms(2), folded G_def, OF assms(3-5) that] rounded_cost_uminus [of ks "span_weights G X L"]
    by (simp_all add: sizable_nonneg W_def)
  have dn: "depth_node s ?n" "G = graph_of s (ngraph ?n)" "acyclic (forward_rel G)"
    using rt_depth_node [OF assms(2)] assms(3,7,8) by (simp_all add: G_def succ_rel_forward)
  have neg: "\<forall>u ks. epath (edge_array G) u ks (nat (nnode ?n)) \<longrightarrow> rounded_cost W ks \<le> 0"
    using C by simp
  have n: "ngraph ?n = g" "nat (nnode ?n) = j"
    by simp_all
  have bf: "\<forall>u < nr_nodes G. let x = bellman_ford ga (nr_nodes G) (edge_array G) (edge_weights G (ngraph ?n) (Some ?f) (-1)) ((\<lambda>_. dbl_max ga)(u := 0)) (nat (nnode ?n))
      in if \<exists>ks. epath (edge_array G) u ks (nat (nnode ?n)) then least_by (rounded_cost W) (edge_array G) u (nat (nnode ?n)) x else x = dbl_max ga"
    unfolding n ws by (intro allI impI bellman_ford_roundedD [OF assms(10) [folded W_def] _ assms(8)])
  obtain u ks where best: "u \<in> set (source_nodes G)" "epath (edge_array G) u ks j"
    "pgm_get_max_depth ga s ?n (Some ?f) = Some (- rounded_cost W ks)"
    "\<forall>u' ks'. u' \<in> set (source_nodes G) \<longrightarrow> epath (edge_array G) u' ks' j \<longrightarrow> rounded_cost W ks \<le> rounded_cost W ks'"
    using max_depth_by [OF dn assms(9) neg bf] by (elim exE conjE) (rule that, simp_all)
  have "longest_phase G X L j (- rounded_cost W ks)"
    unfolding longest_phase_def using best(1,2,4) C(1) [OF best(2)] C(1) by fastforce
  moreover have "list_all (\<lambda>i. producer_period s P \<lparr>egraph = g, eedge = int i\<rparr> \<notin> {None, Some None}) (forward_edges G)"
    by (simp add: fe list_all_iff pp)
  ultimately show ?thesis
    using best(3) by (auto simp: phase_of_def G_def)
qed

text \<open>A number of nanoseconds that is right up to rounding and truncation.\<close>

definition near :: "64 word \<Rightarrow> real \<Rightarrow> bool" where
  "near w v \<longleftrightarrow> \<bar>real (unat w) - v\<bar> < 2"

lemma trunc_near:
  assumes "0 \<le> x" and "\<bar>x - v\<bar> \<le> 1" and "v < 2 ^ 51"
  obtains w where "trunc_uint64 (Some x) = Some w" and "real (unat w) = of_int \<lfloor>x\<rfloor>" and "near w v"
proof -
  have "x < 2 ^ 64"
    using assms(2,3) by simp
  then have fl: "0 \<le> \<lfloor>x\<rfloor>" "\<lfloor>x\<rfloor> < 2 ^ 64"
    using assms(1) by (simp_all add: floor_less_iff)
  then have "unat (of_int \<lfloor>x\<rfloor> :: 64 word) = nat \<lfloor>x\<rfloor>"
    using unat_of_nat [of "nat \<lfloor>x\<rfloor>", where 'a = 64] by (simp add: nat_less_iff)
  then have w: "real (unat (of_int \<lfloor>x\<rfloor> :: 64 word)) = of_int \<lfloor>x\<rfloor>"
    using fl(1) by (simp only: of_nat_nat)
  moreover have "near (of_int \<lfloor>x\<rfloor>) v"
    unfolding near_def w using assms(2) by linarith
  moreover have "trunc_uint64 (Some x) = Some (of_int \<lfloor>x\<rfloor>)"
    using fl assms(1) by (simp add: trunc_uint64_def trunc_def)
  ultimately show thesis
    by (intro that)
qed

lemma ms2ns_Some:
  assumes "0 \<le> a" and "1000000 * a \<le> 2 ^ 60"
  shows "ms2ns (Some a) = Some (nearest (a * 1000000))"
proof -
  have "(2 :: real) ^ 60 \<le> 2 ^ 1000"
    by (rule power_increasing) simp_all
  then have "\<bar>a * 1000000\<bar> \<le> 2 ^ 1000"
    using assms by simp
  then show ?thesis
    by (simp add: ms2ns_def d_mult_def to_double_finite)
qed

lemma scaled_close:
  assumes "close k a b" and "sizable a"
  shows "close (Suc k) (nearest (a * 1000000)) (b * 1000000)"
proof -
  have "sizable (a * 1000000)"
    using assms(2) sizable_nonneg [OF assms(2)] unfolding sizable_def by auto
  from close_trans [OF close_nearest(1) [OF this] close_scale [OF assms(1)]] show ?thesis
    by simp
qed

lemma period_near:
  assumes "0 < L" and "1000 * L < 2 ^ 50" and "0 < x" and "x \<le> 2 ^ 53"
  obtains w where "trunc_uint64 (ms2ns (Some (period_ms L x))) = Some w" and "near w (1000 * real L / real x)"
proof -
  have L: "L \<le> 2 ^ 53"
    using assms(2) by simp
  note p = period_ms_close [OF assms(1) L assms(3,4)]
  have siz: "sizable (period_ms L x)" "0 \<le> period_ms L x"
    using p(2) small_powers(1) powr_ge_zero [of 2 "-63"] unfolding sizable_def by linarith+
  define v where "v = 1000 * real L / real x"
  have "real (1000 * L) < 2 ^ 50"
    using assms(2) of_nat_less_iff [of "1000 * L" "2 ^ 50", where 'a = real] by simp
  moreover have "v \<le> real (1000 * L) / 1"
    unfolding v_def using assms(3) by (intro frac_le) simp_all
  ultimately have v: "0 \<le> v" "v < 2 ^ 50"
    by (simp_all add: v_def)
  have "close 3 (nearest (period_ms L x * 1000000)) (real L / real x / 1000 * 1000000)"
    using scaled_close [OF p(1) siz(1)] by (simp add: numeral_3_eq_3)
  then have c: "close 3 (nearest (period_ms L x * 1000000)) v"
    by (simp add: v_def)
  have "real 3 * v / 2 ^ 52 \<le> 1"
    using v by simp
  then have y: "0 \<le> nearest (period_ms L x * 1000000)" "\<bar>nearest (period_ms L x * 1000000) - v\<bar> \<le> 1"
    using close_error [OF c] c by (simp_all add: close_def)
  obtain w where w: "trunc_uint64 (Some (nearest (period_ms L x * 1000000))) = Some w" "near w v"
    by (rule trunc_near [OF y]) (use v in simp)
  have "period_ms L x - real L / real x / 1000 \<le> real 2 * (real L / real x / 1000) / 2 ^ 52"
    by (rule abs_le_D1) (use close_error [OF p(1)] in simp)
  then have "1000000 * period_ms L x \<le> v + v * 2 / 2 ^ 52"
    by (simp add: v_def)
  also have "\<dots> \<le> 2 ^ 60"
    using v by simp
  finally have "ms2ns (Some (period_ms L x)) = Some (nearest (period_ms L x * 1000000))"
    by (rule ms2ns_Some [OF siz(2)])
  then show thesis
    using that w by (simp only: v_def)
qed

lemma execution_near:
  assumes "0 \<le> t" and "1000000 * t < 2 ^ 50"
  obtains w where "trunc_uint64 (ms2ns (Some t)) = Some w" and "near w (1000000 * t)"
proof -
  have "(2 :: real) powr (-1022) \<le> 2 ^ 50"
    using powr_mono [of "-1022" 0 2] by simp
  then have "max \<bar>t * 1000000\<bar> (2 powr (-1022)) \<le> 2 ^ 50"
    using assms by simp
  then have "max \<bar>t * 1000000\<bar> (2 powr (-1022)) / 2 ^ 53 \<le> 2 ^ 50 / 2 ^ 53"
    by (rule divide_right_mono) simp
  also have "\<dots> \<le> (1 :: real)"
    by simp
  finally have "\<bar>nearest (t * 1000000) - t * 1000000\<bar> \<le> 1"
    using nearest_error [of "t * 1000000"] by linarith
  moreover have "0 \<le> nearest (t * 1000000)"
    using assms(1) by (simp add: nearest_nonneg)
  ultimately obtain w where "trunc_uint64 (Some (nearest (t * 1000000))) = Some w" "near w (t * 1000000)"
    using trunc_near [of "nearest (t * 1000000)" "t * 1000000"] assms(2) by auto
  then show thesis
    using that ms2ns_Some [OF assms(1)] assms(2) by (simp add: mult.commute)
qed

text \<open>The numbers that must be small enough for the errors to stay below a nanosecond.\<close>

definition fits :: "pgm_graph \<Rightarrow> (nat \<Rightarrow> nat) \<Rightarrow> nat \<Rightarrow> (nat \<Rightarrow> real) \<Rightarrow> bool" where
  "fits g X L T \<longleftrightarrow> 1000 * L < 2 ^ 50 \<and> (\<forall>j < nr_nodes g. X j \<le> 2 ^ 53 \<and> 0 \<le> T j \<and> 1000000 * T j < 2 ^ 50) \<and>
     (\<forall>u ks j. epath (edge_array g) u ks j \<longrightarrow> length ks < 2 ^ 50 \<and> (real (length ks) + 4) * (1000000 * cost (spans g X L) ks) < 2 ^ 50)"

lemma fits_exact: "fits g X L T \<Longrightarrow> exact_counts g X L"
  by (simp add: fits_def exact_counts_def)

text \<open>The rounded cost of a path, in nanoseconds, differs from the exact one by at most a quarter.\<close>

lemma path_cost_near:
  fixes s :: "'w pgm_state" and g :: graph_t
  defines "G \<equiv> graph_of s g"
  assumes "rt_graph s g" and "whole G" and "balanced G X L" and "fits G X L T" and "epath (edge_array G) u ks j"
  defines "a \<equiv> rounded_cost (span_weights G X L) ks" and "v \<equiv> 1000000 * cost (spans G X L) ks"
  shows "0 \<le> a" and "\<bar>a * 1000000 - v\<bar> \<le> 1 / 4" and "\<bar>nearest (a * 1000000) - a * 1000000\<bar> \<le> 1 / 4" and "0 \<le> v" and "v < 2 ^ 48"
proof -
  let ?n = "length ks"
  note c = path_cost_close [OF assms(2), folded G_def, OF assms(3,4) fits_exact [OF assms(5)] assms(6)]
  have ca: "close (?n + 3) (a * 1000000) v"
    using close_scale [OF c(1), of 1000000] by (simp add: a_def v_def mult.commute)
  have b: "?n < 2 ^ 50" "(real ?n + 4) * v < 2 ^ 50"
    using assms(5,6) unfolding fits_def v_def by blast+
  show pos: "0 \<le> a" "0 \<le> v"
    using sizable_nonneg [OF c(2)] ca by (simp_all add: a_def close_def)
  have "4 * v \<le> (real ?n + 4) * v"
    using pos(2) by (intro mult_right_mono) simp_all
  then show v: "v < 2 ^ 48"
    using b(2) by simp
  have "real (?n + 3) * v \<le> (real ?n + 4) * v"
    using pos(2) by (intro mult_right_mono) simp_all
  then have "real (?n + 3) * v \<le> 2 ^ 50"
    using b(2) by linarith
  then have "real (?n + 3) * v / 2 ^ 52 \<le> 1 / 4"
    by (simp add: mult.commute)
  moreover have "\<bar>a * 1000000 - v\<bar> \<le> real (?n + 3) * v / 2 ^ 52"
    using close_error [OF ca] b(1) by simp
  ultimately show av: "\<bar>a * 1000000 - v\<bar> \<le> 1 / 4"
    by linarith
  have "max \<bar>a * 1000000\<bar> (2 powr (-1022)) \<le> 2 ^ 50"
    using abs_le_D1 [OF av] v pos powr_mono [of "-1022" 0 2] by simp
  then have "max \<bar>a * 1000000\<bar> (2 powr (-1022)) / 2 ^ 53 \<le> 2 ^ 50 / 2 ^ 53"
    by (rule divide_right_mono) simp
  also have "\<dots> \<le> (1 / 4 :: real)"
    by simp
  finally show "\<bar>nearest (a * 1000000) - a * 1000000\<bar> \<le> 1 / 4"
    using nearest_error [of "a * 1000000"] by linarith
qed

text \<open>A phase is right when it is near the length of a path from a source, and no such path is longer.\<close>

definition phase_near :: "pgm_graph \<Rightarrow> (nat \<Rightarrow> nat) \<Rightarrow> nat \<Rightarrow> nat \<Rightarrow> 64 word \<Rightarrow> bool" where
  "phase_near g X L j w \<longleftrightarrow>
     (\<exists>u ks. u \<in> set (source_nodes g) \<and> epath (edge_array g) u ks j \<and> near w (1000000 * cost (spans g X L) ks)) \<and>
     (\<forall>u ks. u \<in> set (source_nodes g) \<longrightarrow> epath (edge_array g) u ks j \<longrightarrow> 1000000 * cost (spans g X L) ks < real (unat w) + 2)"

lemma longest_phase_near:
  fixes s :: "'w pgm_state" and g :: graph_t
  defines "G \<equiv> graph_of s g"
  assumes "rt_graph s g" and "whole G" and "balanced G X L" and "fits G X L T" and "longest_phase G X L j d"
  obtains w where "trunc_uint64 (ms2ns (Some d)) = Some w" and "phase_near G X L j w"
proof -
  note near = path_cost_near [OF assms(2), folded G_def, OF assms(3-5)]
  obtain u ks where ks: "u \<in> set (source_nodes G)" "epath (edge_array G) u ks j" "d = rounded_cost (span_weights G X L) ks"
    using assms(6) by (auto simp: longest_phase_def)
  note n = near [OF ks(2), folded ks(3)]
  have y: "0 \<le> nearest (d * 1000000)" "\<bar>nearest (d * 1000000) - 1000000 * cost (spans G X L) ks\<bar> \<le> 1"
    using n(1-3) by (simp add: nearest_nonneg, linarith)
  obtain w where w: "trunc_uint64 (Some (nearest (d * 1000000))) = Some w" "real (unat w) = of_int \<lfloor>nearest (d * 1000000)\<rfloor>"
    "near w (1000000 * cost (spans G X L) ks)"
    by (rule trunc_near [OF y]) (use n(5) in simp)
  have "1000000 * cost (spans G X L) ks' < real (unat w) + 2" if "u' \<in> set (source_nodes G)" "epath (edge_array G) u' ks' j" for u' ks'
  proof -
    have "rounded_cost (span_weights G X L) ks' * 1000000 \<le> d * 1000000"
      using assms(6) that by (simp add: longest_phase_def)
    then show ?thesis
      using near(2) [OF that(2)] n(3) unfolding w(2) by linarith
  qed
  then have "phase_near G X L j w"
    using ks(1,2) w(3) unfolding phase_near_def by blast
  moreover have "1000000 * d \<le> 2 ^ 60"
    using abs_le_D1 [OF n(2)] n(5) by simp
  then have "trunc_uint64 (ms2ns (Some d)) = Some w"
    using w(1) ms2ns_Some [OF n(1)] by simp
  ultimately show thesis
    using that by blast
qed

text \<open>
  The configuration of node \<open>j\<close>, when \<open>T j\<close> is its execution time in milliseconds and no other option is given: the
  three times are right, and everything else is as in the initial configuration.
\<close>

definition configured :: "graph_t \<Rightarrow> pgm_graph \<Rightarrow> (nat \<Rightarrow> nat) \<Rightarrow> nat \<Rightarrow> (nat \<Rightarrow> real) \<Rightarrow> rt_config \<Rightarrow> nat \<Rightarrow> rt_config \<Rightarrow> bool" where
  "configured h g X L T cfg j c \<longleftrightarrow>
     (\<exists>ph pe ex. c = cfg\<lparr>cluster := 0, cnode := node_hd h j, phase_ns := ph, period_ns := pe, execution_ns := ex, discount_ns := 0\<rparr> \<and>
       phase_near g X L j ph \<and> near pe (1000 * real L / real (X j)) \<and> near ex (1000000 * T j))"

definition opts_of :: "graph_t \<Rightarrow> pgm_graph \<Rightarrow> (nat \<Rightarrow> nat) \<Rightarrow> nat \<Rightarrow> (nat \<Rightarrow> real) \<Rightarrow> node_opts \<Rightarrow> bool" where
  "opts_of h g X L T m \<longleftrightarrow> periods_of h g X L (periods m) \<and> (\<forall>j < nr_nodes g. executions m (node_hd h j) = Some (Some (T j))) \<and>
     discounts m = Map.empty \<and> split_factors m = Map.empty \<and> clusters m = Map.empty"

lemma node_config_configured:
  fixes s :: "'w pgm_state" and g :: graph_t
  defines "G \<equiv> graph_of s g"
  assumes "rt_graph s g" and "whole G" and "balanced G X L" and "acyclic (succ_rel G True)" and "0 < dbl_max ga"
    and "bellman_ford_rounded ga (nr_nodes G) (edge_array G) (map uminus (span_weights G X L))"
    and "opts_of g G X L T m" and "fits G X L T" and "j < nr_nodes G"
  shows "\<exists>c. node_config ga s m (node_hd g j) cfg = Some c \<and> configured g G X L T cfg j c"
proof -
  have m: "periods_of g G X L (periods m)" "periods m (node_hd g j) = Some (Some (period_ms L (X j)))"
    "executions m (node_hd g j) = Some (Some (T j))" "discounts m = Map.empty" "clusters m = Map.empty"
    using assms(8,10) by (simp_all add: opts_of_def periods_of_def)
  obtain d where d: "phase_of ga s (periods m) (node_hd g j) = Some d" "longest_phase G X L j d"
    using phase_of_longest [OF assms(2), folded G_def, OF assms(3,4) fits_exact [OF assms(9)] m(1) assms(5,10,6,7)] by blast
  obtain ph where ph: "trunc_uint64 (ms2ns (Some d)) = Some ph" "phase_near G X L j ph"
    using longest_phase_near [OF assms(2), folded G_def, OF assms(3,4,9) d(2)] .
  have "0 < L" "1000 * L < 2 ^ 50" "0 < X j" "X j \<le> 2 ^ 53" "0 \<le> T j" "1000000 * T j < 2 ^ 50"
    using assms(4,9,10) unfolding balanced_def fits_def by blast+
  then obtain pe ex where pe: "trunc_uint64 (ms2ns (Some (period_ms L (X j)))) = Some pe" "near pe (1000 * real L / real (X j))"
    and ex: "trunc_uint64 (ms2ns (Some (T j))) = Some ex" "near ex (1000000 * T j)"
    using period_near [of L "X j"] execution_near [of "T j"] by metis
  have "nearest 0 = 0"
    by (simp add: nearest_def)
  then have "trunc_uint64 (ms2ns (Some 0)) = Some 0" "trunc_int (Some 0) = Some 0"
    by (simp_all add: trunc_uint64_def trunc_int_def trunc_def ms2ns_def d_mult_def to_double_def)
  then show ?thesis
    using d(1) ph pe ex m by (auto simp: node_config_def configured_def map_at_def)
qed

lemma spawn_loop_configured:
  assumes "\<And>n. n \<in> set ns \<Longrightarrow> \<exists>c. node_config ga s m n cfg = Some c \<and> Q n c"
    and "set ns \<subseteq> dom (periods m)" and "split_factors m = Map.empty"
  shows "\<exists>cs. spawn_loop ga s cfg ns m = Some (cs, m) \<and> list_all2 Q ns cs"
  using assms
proof (induction ns)
  case (Cons n ns)
  have "\<And>n. n \<in> set ns \<Longrightarrow> \<exists>c. node_config ga s m n cfg = Some c \<and> Q n c"
    using Cons.prems(1) by simp
  then obtain cs where cs: "spawn_loop ga s cfg ns m = Some (cs, m)" "list_all2 Q ns cs"
    using Cons.IH Cons.prems(2,3) by auto
  obtain c where c: "node_config ga s m n cfg = Some c" "Q n c"
    using Cons.prems(1) [of n] by auto
  have "set_period n m = m"
    using Cons.prems(2) by (auto simp: set_period_def map_at_def fun_upd_idem)
  then show ?case
    using cs c Cons.prems(3) by simp
qed simp

lemma main_configs_configured:
  fixes s :: "'w pgm_state" and g :: graph_t
  defines "G \<equiv> graph_of s g"
  assumes "rt_graph s g" and "whole G" and "balanced G X L" and "acyclic (succ_rel G True)" and "0 < dbl_max ga"
    and "bellman_ford_rounded ga (nr_nodes G) (edge_array G) (map uminus (span_weights G X L))"
    and "opts_of g G X L T m" and "fits G X L T"
  shows "\<exists>cs c. main_configs ga s cfg (node_handles g (nr_nodes G)) m = Some (cs, c) \<and> length (c # cs) = nr_nodes G \<and>
    (\<forall>j < nr_nodes G. configured g G X L T cfg j ((c # cs) ! j))"
proof -
  let ?Q = "\<lambda>n c. configured g G X L T cfg (nat (nnode n)) c"
  have ok: "\<exists>c. node_config ga s m (node_hd g j) cfg = Some c \<and> configured g G X L T cfg j c" if "j < nr_nodes G" for j
    using node_config_configured [OF assms(2), folded G_def, OF assms(3-9) that] .
  have ns: "node_handles g (nr_nodes G) = node_hd g 0 # map (node_hd g) [1..<nr_nodes G]"
    using assms(3) by (simp add: upt_conv_Cons whole_def)
  have "\<exists>cs. spawn_loop ga s cfg (map (node_hd g) [1..<nr_nodes G]) m = Some (cs, m) \<and> list_all2 ?Q (map (node_hd g) [1..<nr_nodes G]) cs"
    using ok assms(8) by (intro spawn_loop_configured) (auto simp: opts_of_def periods_of_def)
  then obtain cs where cs: "spawn_loop ga s cfg (map (node_hd g) [1..<nr_nodes G]) m = Some (cs, m)"
    "list_all2 ?Q (map (node_hd g) [1..<nr_nodes G]) cs"
    by blast
  obtain c where c: "node_config ga s m (node_hd g 0) cfg = Some c" "configured g G X L T cfg 0 c"
    using ok [of 0] assms(3) by (auto simp: whole_def)
  have len: "length (c # cs) = nr_nodes G"
    using list_all2_lengthD [OF cs(2)] assms(3) unfolding whole_def by simp linarith
  moreover have "configured g G X L T cfg j ((c # cs) ! j)" if "j < nr_nodes G" for j
    using c(2) list_all2_nthD [OF cs(2), of "j - 1"] that by (cases j) (auto simp: nat_add_distrib)
  moreover have "main_configs ga s cfg (node_handles g (nr_nodes G)) m = Some (cs, c)"
    unfolding ns main_configs_def using cs(1) c(1) by (simp del: upt.simps)
  ultimately show ?thesis
    by blast
qed

text \<open>Execution times as text.\<close>

fun show_exec :: "string \<times> string \<Rightarrow> string" where
  "show_exec (nm, v) = nm @ CHR '':'' # v"

fun show_execs :: "(string \<times> string) list \<Rightarrow> string" where
  "show_execs [] = []"
| "show_execs [e] = show_exec e"
| "show_execs (e # es) = show_exec e @ CHR '','' # show_execs es"

definition exec_ok :: "boost \<Rightarrow> pgm_graph \<Rightarrow> (nat \<Rightarrow> real) \<Rightarrow> string \<times> string \<Rightarrow> bool" where
  "exec_ok b g T e \<longleftrightarrow> (\<forall>t \<in> {fst e, snd e}. set t \<inter> {CHR '','', CHR '':''} = {}) \<and>
     (\<exists>j < nr_nodes g. fst e = node_name g j \<and> b_to_double b (snd e) = Some (Some (T j)))"

lemma tokens_show_exec:
  assumes "exec_ok b g T e"
  shows "tokens {CHR '':''} (show_exec e) = [fst e, snd e]" and "tokens {CHR '',''} (show_exec e) = [show_exec e]"
proof -
  have "set t \<inter> {CHR '':''} = {}" "set t \<inter> {CHR '',''} = {}" if "t \<in> {fst e, snd e}" for t
    using assms that by (auto simp: exec_ok_def)
  then show "tokens {CHR '':''} (show_exec e) = [fst e, snd e]" "tokens {CHR '',''} (show_exec e) = [show_exec e]"
    by (cases e; simp add: tokens_append tokens_free)+
qed

lemma tokens_show_execs:
  assumes "\<forall>e \<in> set es. exec_ok b g T e" and "es \<noteq> []"
  shows "tokens {CHR '',''} (show_execs es) = map show_exec es"
  using assms
  by (induction es rule: show_execs.induct) (simp_all add: tokens_show_exec(2) [of b g T] tokens_glue del: show_exec.simps)

lemma exec_loop_good:
  fixes s :: "'w pgm_state" and g :: graph_t
  defines "G \<equiv> graph_of s g"
  assumes "split_law b" and "rt_graph s g" and "\<forall>e \<in> set es. exec_ok b G T e"
  shows "\<exists>m'. exec_loop b (map show_exec es) g s m = Some (Inr m') \<and>
    (\<forall>j < nr_nodes G. m' (node_hd g j) = (if node_name G j \<in> fst ` set es then Some (Some (T j)) else m (node_hd g j)))"
  using assms(4)
proof (induction es arbitrary: m)
  case (Cons e es)
  obtain j where j: "j < nr_nodes G" "fst e = node_name G j" "b_to_double b (snd e) = Some (Some (T j))"
    using Cons.prems by (auto simp: exec_ok_def)
  have split: "b_split b {CHR '':''} (show_exec e) = [fst e, snd e]"
    using assms(2) tokens_show_exec(1) [of b G T e] Cons.prems by (simp add: split_law_def del: show_exec.simps)
  obtain r where r: "pgm_find_node True g (fst e) s = Some (r, Some (node_hd g j))"
    using lookup_node_exact [OF assms(3)] j(1,2) by (auto simp: lookup_node_def G_def bind_eq_Some_conv)
  obtain m' where m': "exec_loop b (map show_exec es) g s (m(node_hd g j \<mapsto> Some (T j))) = Some (Inr m')"
    "\<forall>k < nr_nodes G. m' (node_hd g k) = (if node_name G k \<in> fst ` set es then Some (Some (T k)) else (m(node_hd g j \<mapsto> Some (T j))) (node_hd g k))"
    using Cons.IH [of "m(node_hd g j \<mapsto> Some (T j))", OF ballI] Cons.prems by (metis list.set_intros(2))
  have "node_name G k = fst e \<longleftrightarrow> k = j" if "k < nr_nodes G" for k
    using rt_names_inj [OF assms(3), folded G_def, OF that j(1)] j(2) by auto
  then show ?case
    using m' split r j(3) by (intro exI [of _ m']) (auto simp del: show_exec.simps)
qed simp

lemma epath_rtrancl: "epath es u ks v \<Longrightarrow> (u, v) \<in> (set es)\<^sup>*"
proof (induction ks arbitrary: u)
  case (Cons k ks)
  then have "(u, snd (es ! k)) \<in> set es" "(snd (es ! k), v) \<in> (set es)\<^sup>*"
    by (auto simp: in_set_conv_nth intro!: exI [of _ k] prod_eqI)
  then show ?case
    by (rule converse_rtrancl_into_rtrancl)
qed simp

text \<open>When every source has a rate, every node gets a period.\<close>

lemma rates_reach_all:
  fixes s :: "'w pgm_state" and g :: graph_t
  defines "G \<equiv> graph_of s g"
  assumes "rt_graph s g" and "whole G" and "acyclic (succ_rel G True)" and "set (source_nodes G) \<subseteq> D" and "j < nr_nodes G"
  shows "j \<in> (succ_rel G True)\<^sup>* `` D"
proof -
  have dn: "depth_node s (node_hd g j)"
    using rt_depth_node [OF assms(2)] assms(3,6) by (simp add: G_def)
  have rel: "set (edge_array G) = succ_rel G True"
    using depth_nodeD(4) [OF dn, of G] by (simp add: G_def succ_rel_forward)
  obtain u ks where u: "u \<in> set (source_nodes G)" "epath (edge_array G) u ks (nat (nnode (node_hd g j)))"
    using depth_source [OF dn, of G] assms(4) by (auto simp: G_def succ_rel_forward)
  then have "(u, j) \<in> (succ_rel G True)\<^sup>*"
    using epath_rtrancl [OF u(2)] rel by simp
  then show ?thesis
    using u(1) assms(5) by blast
qed

definition plain_opts :: "options \<Rightarrow> string \<Rightarrow> string \<Rightarrow> bool" where
  "plain_opts vm r x \<longleftrightarrow> opt_rates vm = Some r \<and> opt_execution vm = Some x \<and> opt_discount vm = [] \<and> opt_split vm = [] \<and>
     opt_wss vm = [] \<and> opt_cluster vm = []"

lemma parse_node_opts_good:
  fixes s :: "'w pgm_state" and g :: graph_t
  defines "G \<equiv> graph_of s g"
  assumes "split_law b" and "gcd_laws b" and "rt_graph s g" and "whole G" and "balanced G X L" and "acyclic (succ_rel G True)"
    and "es \<noteq> []" and "\<forall>e \<in> set es. rate_ok b G X L e" and "node_name G ` set (source_nodes G) \<subseteq> fst ` set es"
    and "xs \<noteq> []" and "\<forall>e \<in> set xs. exec_ok b G T e" and "node_name G ` {..<nr_nodes G} \<subseteq> fst ` set xs"
    and "plain_opts vm (show_rates es) (show_execs xs)" and "exact_counts G X L"
  shows "\<exists>m. parse_node_opts b vm g s = Some (Inr m) \<and> opts_of g G X L T m"
proof -
  let ?D = "{j. j < nr_nodes G \<and> node_name G j \<in> fst ` set es}"
  obtain P where P: "parse_graph_rates b (show_rates es) g s Map.empty = Some (Some (Inr P))"
    "\<forall>j \<in> (succ_rel G True)\<^sup>* `` ?D. P (node_hd g j) = Some (Some (period_ms L (X j)))"
    using rates_periods [OF assms(2-4), folded G_def, OF assms(7,6,15,8,9)] unfolding Let_def by (elim exE conjE) (rule that)
  have "set (source_nodes G) \<subseteq> ?D"
    using assms(10) by (auto simp: source_nodes_def)
  note reach = rates_reach_all [OF assms(4), folded G_def, OF assms(5,7) this]
  have "periods_of g G X L P"
    unfolding periods_of_def using bspec [OF P(2) reach] by blast
  moreover obtain m where m: "exec_loop b (map show_exec xs) g s Map.empty = Some (Inr m)"
    "\<forall>j < nr_nodes G. m (node_hd g j) = (if node_name G j \<in> fst ` set xs then Some (Some (T j)) else Map.empty (node_hd g j))"
    using exec_loop_good [OF assms(2,4), folded G_def, OF assms(12)] by (elim exE conjE meta_allE) (rule that)
  have "m (node_hd g j) = Some (Some (T j))" if "j < nr_nodes G" for j
    using m(2) that subsetD [OF assms(13) imageI, of j] by simp
  moreover have "parse_graph_exec b (show_execs xs) g s Map.empty = Some (Inr m)"
  proof -
    have "b_split b {CHR '',''} (show_execs xs) = map show_exec xs"
      using assms(2) tokens_show_execs [OF assms(12,11)] by (simp add: split_law_def)
    moreover have "show_execs xs \<noteq> []"
      using assms(11) by (cases xs rule: show_execs.cases) auto
    ultimately show ?thesis
      using m(1) by (simp add: parse_graph_exec_def)
  qed
  ultimately show ?thesis
    using assms(14) P(1)
    by (simp add: parse_node_opts_def given_def opt_value_def plain_opts_def parse_graph_exec_def parse_graph_split_factor_def
        parse_graph_wss_def parse_graph_cluster_def opts_of_def)
qed

text \<open>
  C14: the nodes of a graph are configured as the options say.  Take a graph without cycles in which \<open>X j\<close> executions of
  node \<open>j\<close> in \<open>L\<close> microseconds balance all token counts, rates that agree with these numbers for the sources, and an
  execution time \<open>T j\<close> for every node.  Then the option strings are read without error, and \<open>main\<close> starts
  exactly one worker for every node, in order, the first node in the main thread.  Its execution time is \<open>T j\<close>, its
  period \<open>1000 * L / X j\<close> nanoseconds, and its phase the length of a longest path from a source, where an edge
  counts the time its producer needs to reach the threshold.  Each of these is off by less than two nanoseconds, the
  error of the rounded arithmetic and of the final truncation, when the times are below 2 to the 50
  nanoseconds and those of a path of \<open>n\<close> edges below this bound divided by \<open>n + 4\<close>.  A node without a cluster option is
  put on cluster 0.
\<close>

theorem nodes_configured:
  fixes s :: "'w pgm_state" and g :: graph_t
  defines "G \<equiv> graph_of s g"
  assumes "split_law b" and "gcd_laws b" and "rt_graph s g" and "whole G" and "balanced G X L" and "acyclic (succ_rel G True)"
    and "es \<noteq> []" and "\<forall>e \<in> set es. rate_ok b G X L e" and "node_name G ` set (source_nodes G) \<subseteq> fst ` set es"
    and "xs \<noteq> []" and "\<forall>e \<in> set xs. exec_ok b G T e" and "node_name G ` {..<nr_nodes G} \<subseteq> fst ` set xs"
    and "plain_opts vm (show_rates es) (show_execs xs)" and "fits G X L T"
    and "0 < dbl_max ga" and "bellman_ford_rounded ga (nr_nodes G) (edge_array G) (map uminus (span_weights G X L))"
  shows "\<exists>m cs c. parse_node_opts b vm g s = Some (Inr m) \<and>
    main_configs ga s cfg (node_handles g (nr_nodes G)) m = Some (cs, c) \<and> length (c # cs) = nr_nodes G \<and>
    (\<forall>j < nr_nodes G. configured g G X L T cfg j ((c # cs) ! j))"
proof -
  obtain m where m: "parse_node_opts b vm g s = Some (Inr m)" "opts_of g G X L T m"
    using parse_node_opts_good [OF assms(2-4), folded G_def, OF assms(5-14) fits_exact [OF assms(15)]] by blast
  then show ?thesis
    using main_configs_configured [OF assms(4), folded G_def, OF assms(5-7,16,17) m(2) assms(15)] by blast
qed

section \<open>Examples\<close>

lemma star_path:
  "epath [(1, 0), (1, 2)] u ks v \<longleftrightarrow> ks = [] \<and> u = v \<or> ks = [0] \<and> u = 1 \<and> v = 0 \<or> ks = [1] \<and> u = 1 \<and> v = 2"
  by (cases ks; cases "tl ks") (auto simp: less_Suc_eq nth_Cons')

lemma star_relax:
  "relax_all m 3 [(1, 0), (1, 2)] [x, y] d = (if d 1 = m then d else d(0 := min (d 0) (d 1 + x), 2 := min (d 2) (d 1 + y)))"
proof -
  define f :: "(nat \<Rightarrow> real) \<Rightarrow> nat \<Rightarrow> real" where
    "f d = (if d 1 = m then d else d(0 := min (d 0) (d 1 + x), 2 := min (d 2) (d 1 + y)))" for d
  have idem: "f (f d) = f d"
    by (auto simp: f_def fun_eq_iff)
  have "fold (\<lambda>((u, v), w) d. if d u = m then d else d(v := min (d v) (d u + w))) (zip [(1, 0), (1, 2)] [x, y]) = f"
    by (auto simp: f_def fun_eq_iff)
  then have "relax_all m 3 [(1, 0), (1, 2)] [x, y] d = fold (\<lambda>_. f) [0..<3] d"
    by (simp only: relax_all_def)
  also have "\<dots> = f (f (f d))"
    by (simp add: numeral_3_eq_3)
  finally show ?thesis
    by (simp only: idem) (simp only: f_def)
qed

lemma star_bellman_ford: "bellman_ford_rounded relax_algs 3 [(1, 0), (1, 2)] [-20, -10]"
  unfolding bellman_ford_rounded_def
proof (intro allI impI)
  fix u v :: nat assume "u < 3" "v < 3"
  then have "(u = 0 \<or> u = 1 \<or> u = 2) \<and> (v = 0 \<or> v = 1 \<or> v = 2)"
    by linarith
  moreover have "nearest (-20) = -20" "nearest (-10) = -10"
    using nearest_of_int [of "-20"] nearest_of_int [of "-10"] by simp_all
  ultimately show "let x = bellman_ford relax_algs 3 [(1, 0), (1, 2)] [-20, -10] ((\<lambda>_. dbl_max relax_algs)(u := 0)) v
      in if \<exists>ks. epath [(1, 0), (1, 2)] u ks v then least_by (rounded_cost [-20, -10]) [(1, 0), (1, 2)] u v x
         else x = dbl_max relax_algs"
    by (elim conjE disjE) (simp_all add: star_relax least_by_def star_path rounded_cost_def relax_algs_def Let_def del: One_nat_def)
qed

definition demo_times :: "nat \<Rightarrow> real" where
  "demo_times j = (if j = 1 then 20 else 10)"

definition demo_opts :: options where
  "demo_opts = \<lparr>opt_wait = False, opt_cluster = [], opt_graphfile = None, opt_name = ''g'', opt_graph = Some (show_desc demo_descs),
     opt_rates = Some ''b:1:10'', opt_execution = Some ''a:10,b:20,c:10'', opt_discount = [], opt_etoe = Some 0, opt_wss = [],
     opt_split = [], opt_wsCycle = 1, opt_graphDir = ''/dev/shm/graphs'', opt_duration = Some 5, opt_continuation = False\<rparr>"

lemma demo_shape:
  assumes "graph_as demo_boost g [''a'', ''b'', ''c''] demo_descs"
  shows "whole g" and "edge_array g = [(1, 0), (1, 2)]" and "spans g demo_runs 10000 = [20, 10]"
    and "span_weights g demo_runs 10000 = [20, 10]"
proof -
  note e = demo_edges [OF assms]
  have upt: "[0..<2] = [0, 1]"
    by (simp add: numeral_2_eq_2)
  have "i = 0 \<or> i = 1" if "i < nr_edges g" for i
    using that e(5) by auto
  then show "whole g"
    unfolding whole_def using e by (fastforce simp: cv_attr_def)
  have "nearest 10000 = 10000" "nearest 20 = 20" "nearest 10 = 10"
    using nearest_of_int [of 10000] nearest_of_int [of 20] nearest_of_int [of 10] by simp_all
  then show "span_weights g demo_runs 10000 = [20, 10]"
    using e by (simp add: upt span_ms_def period_ms_def jobs_needed_def demo_runs_def cv_attr_def)
  show "edge_array g = [(1, 0), (1, 2)]" "spans g demo_runs 10000 = [20, 10]"
    using e by (simp_all add: edge_array_def forward_edges_def upt edge_span_def jobs_needed_def demo_runs_def cv_attr_def)
qed

lemma demo_sources:
  assumes "graph_inv g" and "graph_as demo_boost g [''a'', ''b'', ''c''] demo_descs"
  shows "set (source_nodes g) = {1}"
proof -
  have "u \<in> set (source_nodes g) \<longleftrightarrow> u < 3 \<and> u \<noteq> 0 \<and> u \<noteq> 2" for u
    using set_source_nodes [OF assms(1)] demo_shape(1,2) [OF assms(2)] demo_edges(1) [OF assms(2)] by (auto simp: whole_def)
  then show ?thesis
    by (simp add: set_eq_iff) linarith
qed

lemma demo_fits:
  assumes inv: "graph_inv g" and as: "graph_as demo_boost g [''a'', ''b'', ''c''] demo_descs"
  shows "fits g demo_runs 10000 demo_times" and "\<forall>e \<in> set [(''a'', ''10''), (''b'', ''20''), (''c'', ''10'')]. exec_ok demo_boost g demo_times e"
    and "phase_near g demo_runs 10000 0 w \<Longrightarrow> near w 20000000"
proof -
  note e = demo_edges [OF as]
  show "fits g demo_runs 10000 demo_times"
    unfolding fits_def demo_shape(2,3) [OF as] star_path by (auto simp: demo_times_def cost_def demo_runs_def)
  have "exec_ok demo_boost g demo_times (node_name g j, v)" if "j < nr_nodes g" "b_to_double demo_boost v = Some (Some (demo_times j))"
    "\<forall>t \<in> {node_name g j, v}. set t \<inter> {CHR '','', CHR '':''} = {}" for j v
    using that unfolding exec_ok_def fst_conv snd_conv by blast
  from this [of 0 "''10''"] this [of 1 "''20''"] this [of 2 "''10''"]
  show "\<forall>e \<in> set [(''a'', ''10''), (''b'', ''20''), (''c'', ''10'')]. exec_ok demo_boost g demo_times e"
    using e(1-4) by (simp add: demo_times_def demo_boost_def)
  show "near w 20000000" if "phase_near g demo_runs 10000 0 w"
    using that demo_sources [OF inv as] unfolding phase_near_def demo_shape(2,3) [OF as] star_path by (auto simp: cost_def)
qed

lemma demo_base_config: "\<exists>cfg. base_config demo_opts = Some cfg"
proof -
  have "nearest 0 = 0" "nearest 5000000000 = 5000000000"
    using nearest_of_int [of 0] nearest_of_int [of 5000000000] by simp_all
  then show ?thesis
    by (simp add: base_config_def demo_opts_def ms2ns_def s2ns_def d_mult_def to_double_def trunc_uint64_def trunc_def floor_less_iff)
qed

theorem nodes_configured_witness:
  "\<exists>cfg r s m cs c. base_config demo_opts = Some cfg \<and>
    parse_graph_description demo_boost sample_os 1 (show_desc demo_descs) 0 one_graph = Some (Inr r, s) \<and>
    parse_node_opts demo_boost demo_opts 0 s = Some (Inr m) \<and>
    main_configs relax_algs s cfg (node_handles 0 3) m = Some (cs, c) \<and> cnode c = node_hd 0 0 \<and>
    near (phase_ns c) 20000000 \<and> near (period_ns c) 5000000 \<and> near (execution_ns c) 10000000"
proof -
  obtain cfg where cfg: "base_config demo_opts = Some cfg"
    using demo_base_config by blast
  obtain r s where s: "parse_graph_description demo_boost sample_os 1 (show_desc demo_descs) 0 one_graph = Some (Inr r, s)"
    "building 1 0 s" and as: "graph_as demo_boost (graph_of s 0) [''a'', ''b'', ''c''] demo_descs"
    using demo_graph by blast
  let ?G = "graph_of s 0" and ?es = "[(''b'', ''1'', ''10'')]" and ?xs = "[(''a'', ''10''), (''b'', ''20''), (''c'', ''10'')]"
  have inv: "graph_inv ?G"
    using s(2) state_invD [of s 0] by (simp add: building_def)
  have rt: "rt_graph s 0"
    by (rule building_rt_graph [OF s(2) _ demo_descs_ok]) (use as in \<open>simp add: demo_names less_char_def\<close>)
  have acyc: "acyclic (succ_rel ?G True)"
    using graph_as_acyclic [OF inv as] demo_acyclic by simp
  note e = demo_edges [OF as]
  have es: "\<forall>e \<in> set ?es. rate_ok demo_boost ?G demo_runs 10000 e"
    using demo_rate_ok [OF e(1,3)] by simp
  have "{..<3} = {0, 1, 2 :: nat}"
    by auto
  then have covered: "node_name ?G ` set (source_nodes ?G) \<subseteq> fst ` set ?es" "node_name ?G ` {..<nr_nodes ?G} \<subseteq> fst ` set ?xs"
    using e(1-4) demo_sources [OF inv as] by simp_all
  have opts: "plain_opts demo_opts (show_rates ?es) (show_execs ?xs)"
    by (simp add: plain_opts_def demo_opts_def)
  have bf: "0 < dbl_max relax_algs" "bellman_ford_rounded relax_algs (nr_nodes ?G) (edge_array ?G) (map uminus (span_weights ?G demo_runs 10000))"
    using star_bellman_ford unfolding demo_shape(2,4) [OF as] e(1) by (simp_all add: relax_algs_def)
  obtain m cs c where m: "parse_node_opts demo_boost demo_opts 0 s = Some (Inr m)"
    "main_configs relax_algs s cfg (node_handles 0 (nr_nodes ?G)) m = Some (cs, c)"
    "\<forall>j < nr_nodes ?G. configured 0 ?G demo_runs 10000 demo_times cfg j ((c # cs) ! j)"
    using nodes_configured [OF demo_laws rt demo_shape(1) [OF as] demo_balanced [OF inv as] acyc list.distinct(2) es covered(1)
      list.distinct(2) demo_fits(2) [OF inv as] covered(2) opts demo_fits(1) [OF inv as] bf, of cfg] by (elim exE conjE) (rule that)
  then have "configured 0 ?G demo_runs 10000 demo_times cfg 0 c"
    using e(1) by fastforce
  then have c: "cnode c = node_hd 0 0" "phase_near ?G demo_runs 10000 0 (phase_ns c)" "near (period_ns c) 5000000" "near (execution_ns c) 10000000"
    by (auto simp: configured_def demo_runs_def demo_times_def)
  then show ?thesis
    using cfg s(1) m(1,2) demo_fits(3) [OF inv as c(2)] unfolding e(1) by blast
qed

end
