(* ===== verification/Spin_Lock.thy ===== *)
theory Spin_Lock
  imports Pgm_Prelude
begin

text \<open>
  The interface of \<^verbatim>\<open>src/include/spinlock.h\<close>: a lock that hands itself over in the order of arrival.  Its
  specification is a queue of threads whose head may hold the lock; an implementation is a system of atomic
  steps that simulates the queue.  From this follow, once for every implementation, mutual exclusion, the
  order of acquisition, and that a section of code under the lock acts as one step.

  A thread is named by a 32-bit number, so there are at most 2 to the 32 of them.  The shared variables of the
  locks are accessed one at a time (sequential consistency), as the barriers of the code are there to ensure.
\<close>

type_synonym tid = "32 word"

section \<open>The queue of threads\<close>

inductive fifo_step :: "'t \<Rightarrow> 't list \<Rightarrow> 't list \<Rightarrow> bool" where
  fifo_enter: "t \<notin> set q \<Longrightarrow> fifo_step t q (q @ [t])"
| fifo_leave: "fifo_step t (t # q) q"
| fifo_stay: "fifo_step t q q"

text \<open>The runs of a system of labelled steps: the threads in the order of their steps.\<close>

fun run :: "('t \<Rightarrow> 's \<Rightarrow> 's \<Rightarrow> bool) \<Rightarrow> 't list \<Rightarrow> 's \<Rightarrow> 's \<Rightarrow> bool" where
  "run step [] s s' \<longleftrightarrow> s' = s"
| "run step (t # ts) s s' \<longleftrightarrow> (\<exists>u. step t s u \<and> run step ts u s')"

section \<open>Critical sections\<close>

text \<open>
  Threads that use a lock: a thread that holds it copies the shared data, works on its copy and writes the
  result back, each at a time of its own; the log is the order in which the results were written.
\<close>

inductive section_step ::
  "('t \<Rightarrow> 'l \<Rightarrow> 'l \<Rightarrow> bool) \<Rightarrow> ('l \<Rightarrow> 't \<Rightarrow> bool) \<Rightarrow> ('t \<Rightarrow> 'd \<Rightarrow> 'd) \<Rightarrow>
   'l \<times> 'd \<times> ('t \<Rightarrow> 'd option) \<times> 't list \<Rightarrow> 'l \<times> 'd \<times> ('t \<Rightarrow> 'd option) \<times> 't list \<Rightarrow> bool"
  for lock_step holds f
where
  use_lock: "lock_step t l l' \<Longrightarrow> copy t = None \<Longrightarrow> section_step lock_step holds f (l, d, copy, lg) (l', d, copy, lg)"
| read_data: "holds l t \<Longrightarrow> section_step lock_step holds f (l, d, copy, lg) (l, d, copy(t := Some d), lg)"
| write_data: "holds l t \<Longrightarrow> copy t = Some x \<Longrightarrow>
    section_step lock_step holds f (l, d, copy, lg) (l, f t x, copy(t := None), lg @ [t])"

section \<open>The interface\<close>

locale fifo_lock =
  fixes start :: 'l
    and lock_step :: "'t \<Rightarrow> 'l \<Rightarrow> 'l \<Rightarrow> bool"
    and queued :: "'l \<Rightarrow> 't list \<Rightarrow> bool"
    and waiting :: "'l \<Rightarrow> 't \<Rightarrow> bool"
    and holds :: "'l \<Rightarrow> 't \<Rightarrow> bool"
  assumes start_queued: "queued start []"
    and step_queued: "queued l q \<Longrightarrow> lock_step t l l' \<Longrightarrow> \<exists>q'. fifo_step t q q' \<and> queued l' q'"
    and holds_head: "queued l q \<Longrightarrow> holds l t \<Longrightarrow> \<exists>q'. q = t # q'"
    and head_proceeds: "queued l (t # q) \<Longrightarrow> waiting l t \<Longrightarrow> \<exists>l'. lock_step t l l' \<and> holds l' t"
    and step_holds: "lock_step t l l' \<Longrightarrow> u \<noteq> t \<Longrightarrow> holds l' u = holds l u"
begin

lemma run_simulates: "run lock_step ts l l' \<Longrightarrow> queued l q \<Longrightarrow> \<exists>q'. run fifo_step ts q q' \<and> queued l' q'"
proof (induction ts arbitrary: l q)
  case (Cons t ts)
  then obtain u where u: "lock_step t l u" "run lock_step ts u l'"
    by auto
  then obtain p where "fifo_step t q p" "queued u p"
    using step_queued Cons.prems(2) by blast
  moreover from Cons.IH [OF u(2) this(2)] obtain q' where "run fifo_step ts p q'" "queued l' q'"
    by blast
  ultimately show ?case by auto
qed simp

lemma run_queued: "run lock_step ts start l \<Longrightarrow> \<exists>q. run fifo_step ts [] q \<and> queued l q"
  using run_simulates start_queued by blast

lemma mutual_exclusion:
  assumes "queued l q" and "holds l t" and "holds l u"
  shows "t = u"
  using holds_head [OF assms(1)] assms(2,3) by blast

text \<open>The queue of a reachable state: only its head is inside, and a head that waits gets inside by its next step.\<close>

lemma run_fifo:
  assumes "run lock_step ts start l"
  shows "\<exists>q. run fifo_step ts [] q \<and> queued l q \<and> (\<forall>t. holds l t \<longrightarrow> q \<noteq> [] \<and> hd q = t) \<and>
    (q \<noteq> [] \<and> waiting l (hd q) \<longrightarrow> (\<exists>l'. lock_step (hd q) l l' \<and> holds l' (hd q)))"
proof -
  obtain q where q: "run fifo_step ts [] q" "queued l q"
    using run_queued [OF assms] by blast
  have "q \<noteq> [] \<and> hd q = t" if "holds l t" for t
    using holds_head [OF q(2) that] by auto
  moreover have "\<exists>l'. lock_step (hd q) l l' \<and> holds l' (hd q)" if "q \<noteq> []" "waiting l (hd q)"
    using head_proceeds [of l "hd q" "tl q"] q(2) that by simp
  ultimately show ?thesis using q by blast
qed

definition serial :: "('t \<Rightarrow> 'd \<Rightarrow> 'd) \<Rightarrow> 'd \<Rightarrow> 'l \<times> 'd \<times> ('t \<Rightarrow> 'd option) \<times> 't list \<Rightarrow> bool" where
  "serial f d0 = (\<lambda>(l, d, copy, lg). d = fold f lg d0 \<and> (\<forall>t x. copy t = Some x \<longrightarrow> holds l t \<and> x = d) \<and> (\<exists>q. queued l q))"

lemma section_step_serial:
  assumes "section_step lock_step holds f s s'" and "serial f d0 s"
  shows "serial f d0 s'"
  using assms
proof (cases rule: section_step.cases)
  case (use_lock t l l' copy d lg)
  have "holds l' u" if "copy u = Some x" for u x
    using use_lock assms(2) that step_holds [of t l l' u] by (cases "u = t") (auto simp: serial_def)
  moreover have "\<exists>q. queued l' q"
    using use_lock assms(2) step_queued by (auto simp: serial_def) blast
  ultimately show ?thesis
    using use_lock assms(2) by (auto simp: serial_def)
next
  case (read_data l t d copy lg)
  then show ?thesis using assms(2) by (auto simp: serial_def)
next
  case (write_data l t copy x d lg)
  then have "copy u = None" if "u \<noteq> t" for u
    using assms(2) mutual_exclusion that by (cases "copy u") (auto simp: serial_def)
  then show ?thesis using write_data assms(2) by (auto simp: serial_def)
qed

text \<open>Every run of sections under the lock has the effect of the sections one after the other, in the order of the log.\<close>

lemma sections_serial:
  assumes "(section_step lock_step holds f)\<^sup>*\<^sup>* (start, d, (\<lambda>_. None), []) (l, d', copy, lg)"
  shows "d' = fold f lg d"
proof -
  have "serial f d s" if "(section_step lock_step holds f)\<^sup>*\<^sup>* (start, d, (\<lambda>_. None), []) s" for s
    using that
  proof (induction rule: rtranclp_induct)
    case base
    show ?case using start_queued by (auto simp: serial_def)
  qed (rule section_step_serial)
  from this [OF assms] show ?thesis by (simp add: serial_def)
qed

end

end
