(* ===== verification/Ticket_Lock.thy ===== *)
theory Ticket_Lock
  imports Spin_Lock
begin

text \<open>
  The ticket lock of \<^verbatim>\<open>src/include/ticketlock.h\<close>, with the 64-bit layout: a word whose low half is the ticket
  that is served and whose high half is the next ticket to hand out.  \<open>spin_lock\<close> and \<open>spin_unlock\<close> of
  \<^verbatim>\<open>src/include/spinlock.h\<close> are its operations in the default configuration.  Every access to the word is a
  step of its own.
\<close>

unbundle bit_operations_syntax

section \<open>The lock word\<close>

type_synonym ticketdata_t = "64 word"
type_synonym ticketid_t = "32 word"

definition TL_INC :: ticketdata_t where "TL_INC = 0x100000000"

definition tl_owner :: "ticketdata_t \<Rightarrow> ticketid_t" where
  "tl_owner d = ucast d"

definition tl_next :: "ticketdata_t \<Rightarrow> ticketid_t" where
  "tl_next d = ucast (drop_bit 32 d)"

text \<open>The addition of 1 to the 32-bit field \<open>owner\<close>: the field wraps, the other half is untouched.\<close>

definition add_owner :: "ticketdata_t \<Rightarrow> ticketdata_t" where
  "add_owner d = push_bit 32 (drop_bit 32 d) OR ucast (tl_owner d + 1)"

lemma unat_fields: "unat (tl_owner d) = unat d mod 2 ^ 32" "unat (tl_next d) = unat d div 2 ^ 32"
proof -
  show "unat (tl_owner d) = unat d mod 2 ^ 32"
    by (simp add: tl_owner_def unsigned_ucast_eq take_bit_eq_mod)
  have "unat d div 2 ^ 32 < 2 ^ 32"
    using unsigned_less [of d] by (simp add: less_mult_imp_div_less)
  then show "unat (tl_next d) = unat d div 2 ^ 32"
    by (simp add: tl_next_def unsigned_ucast_eq take_bit_eq_mod drop_bit_eq_div unat_div)
qed

lemma add_owner_fields [simp]: "tl_owner (add_owner d) = tl_owner d + 1" "tl_next (add_owner d) = tl_next d"
  unfolding add_owner_def tl_owner_def tl_next_def
  by (rule bit_word_eqI, auto simp: bit_simps dest: bit_imp_le_length)+

lemma add_TL_INC_fields [simp]: "tl_owner (d + TL_INC) = tl_owner d" "tl_next (d + TL_INC) = tl_next d + 1"
proof -
  have sum: "unat (d + TL_INC) = (unat d + 2 ^ 32) mod (2 ^ 32 * 2 ^ 32)"
    by (simp add: TL_INC_def unat_word_ariths)
  have "unat (tl_owner (d + TL_INC)) = unat (tl_owner d)"
    unfolding unat_fields sum by (subst mod_mod_cancel) simp_all
  then show "tl_owner (d + TL_INC) = tl_owner d"
    by (rule unsigned_word_eqI)
  have "(unat d + 2 ^ 32) div 2 ^ 32 = unat d div 2 ^ 32 + 1"
    by (rule div_add_self2) simp
  then have "unat (tl_next (d + TL_INC)) = (unat d div 2 ^ 32 + 1) mod 2 ^ 32"
    unfolding unat_fields sum mod_mult2_eq by simp
  also have "\<dots> = unat (tl_next d + 1)"
    by (simp add: unat_word_ariths unat_fields)
  finally show "tl_next (d + TL_INC) = tl_next d + 1"
    by (rule unsigned_word_eqI)
qed

section \<open>The operations\<close>

text \<open>Where a thread is: outside, waiting for a ticket to be served, or inside.\<close>

datatype tl_pc = TlIdle | TlSpin ticketid_t | TlHeld

record tl_state =
  tl_data :: ticketdata_t
  tl_pc :: "tid \<Rightarrow> tl_pc"

definition tl_init :: tl_state where
  "tl_init = \<lparr>tl_data = 0, tl_pc = (\<lambda>_. TlIdle)\<rparr>"

text \<open>\<open>__tl_lock\<close>: the fetch-and-add with the test of the old word, and a round of the waiting loop.\<close>

definition tl_take :: "tid \<Rightarrow> tl_state \<Rightarrow> tl_state" where
  "tl_take t s =
     (let updated = tl_data s in
      s\<lparr>tl_data := updated + TL_INC,
        tl_pc := (tl_pc s)(t := if tl_next updated \<noteq> tl_owner updated then TlSpin (tl_next updated) else TlHeld)\<rparr>)"

definition tl_poll :: "tid \<Rightarrow> ticketid_t \<Rightarrow> tl_state \<Rightarrow> tl_state" where
  "tl_poll t ticket s = (if ticket \<noteq> tl_owner (tl_data s) then s else s\<lparr>tl_pc := (tl_pc s)(t := TlHeld)\<rparr>)"

text \<open>\<open>__tl_unlock\<close>.\<close>

definition tl_unlock :: "tid \<Rightarrow> tl_state \<Rightarrow> tl_state" where
  "tl_unlock t s = s\<lparr>tl_data := add_owner (tl_data s), tl_pc := (tl_pc s)(t := TlIdle)\<rparr>"

inductive tl_step :: "tid \<Rightarrow> tl_state \<Rightarrow> tl_state \<Rightarrow> bool" where
  step_take: "tl_pc s t = TlIdle \<Longrightarrow> tl_step t s (tl_take t s)"
| step_poll: "tl_pc s t = TlSpin ticket \<Longrightarrow> tl_step t s (tl_poll t ticket s)"
| step_unlock: "tl_pc s t = TlHeld \<Longrightarrow> tl_step t s (tl_unlock t s)"

inductive_cases tl_stepE: "tl_step t s s'"

section \<open>The ticket lock is a first-come first-served lock\<close>

text \<open>The threads inside or waiting, in the order of their tickets.\<close>

definition tl_queued :: "tl_state \<Rightarrow> tid list \<Rightarrow> bool" where
  "tl_queued s q \<longleftrightarrow> distinct q \<and> (\<forall>t. t \<in> set q \<longleftrightarrow> tl_pc s t \<noteq> TlIdle) \<and>
     tl_next (tl_data s) = tl_owner (tl_data s) + of_nat (length q) \<and>
     (\<forall>i < length q. tl_pc s (q ! i) = TlSpin (tl_owner (tl_data s) + of_nat i) \<or> (i = 0 \<and> tl_pc s (q ! i) = TlHeld))"

definition tl_waiting :: "tl_state \<Rightarrow> tid \<Rightarrow> bool" where
  "tl_waiting s t \<longleftrightarrow> (\<exists>ticket. tl_pc s t = TlSpin ticket)"

definition tl_holds :: "tl_state \<Rightarrow> tid \<Rightarrow> bool" where
  "tl_holds s t \<longleftrightarrow> tl_pc s t = TlHeld"

text \<open>There are only as many threads as tickets, so a position in the queue is determined by its ticket.\<close>

lemma distinct_tids: "distinct q \<Longrightarrow> length q \<le> 2 ^ 32" for q :: "tid list"
  using card_mono [of UNIV "set q"] by (simp add: distinct_card card_word)

lemma of_nat_position: "i < 2 ^ 32 \<Longrightarrow> (of_nat i :: 32 word) = 0 \<longleftrightarrow> i = 0"
  by (auto simp: word_of_nat_eq_0_iff dest: dvd_imp_le)

lemma tl_take_queued:
  assumes "tl_queued s q" and "tl_pc s t = TlIdle"
  shows "tl_queued (tl_take t s) (q @ [t])"
proof -
  have t: "t \<notin> set q" "distinct (q @ [t])"
    using assms by (auto simp: tl_queued_def)
  then have "length q < 2 ^ 32"
    using distinct_tids [of "q @ [t]"] by simp
  then have first: "tl_next (tl_data s) = tl_owner (tl_data s) \<longleftrightarrow> q = []"
    using assms(1) of_nat_position by (simp add: tl_queued_def)
  have "tl_pc s u \<noteq> TlIdle" if "u \<in> set q" for u
    using that assms(1) by (auto simp: tl_queued_def)
  moreover have "q ! i \<noteq> t" if "i < length q" for i
    using that t(1) by auto
  ultimately show ?thesis
    using assms t first by (auto simp: tl_queued_def tl_take_def Let_def nth_append less_Suc_eq)
qed

lemma tl_poll_queued:
  assumes "tl_queued s q" and "tl_pc s t = TlSpin ticket"
  shows "tl_queued (tl_poll t ticket s) q"
proof -
  obtain i where i: "i < length q" "q ! i = t" "ticket = tl_owner (tl_data s) + of_nat i"
    using assms by (auto simp: tl_queued_def in_set_conv_nth) (metis assms(2) in_set_conv_nth tl_pc.distinct(1) tl_pc.distinct(5) tl_pc.inject)
  have "i < 2 ^ 32"
    using i(1) distinct_tids [of q] assms(1) by (simp add: tl_queued_def)
  then have "ticket = tl_owner (tl_data s) \<longleftrightarrow> i = 0"
    using i(3) of_nat_position by simp
  moreover have "q ! j \<noteq> t" if "j < length q" "j \<noteq> i" for j
    using that i assms(1) by (auto simp: tl_queued_def nth_eq_iff_index_eq)
  ultimately show ?thesis
    using assms i by (auto simp: tl_queued_def tl_poll_def)
qed

lemma tl_unlock_queued:
  assumes "tl_queued s q" and "tl_pc s t = TlHeld"
  shows "\<exists>q'. q = t # q' \<and> tl_queued (tl_unlock t s) q'"
proof -
  obtain i where i: "i < length q" "q ! i = t"
    using assms by (metis in_set_conv_nth tl_pc.distinct(3) tl_queued_def)
  then have "i = 0"
    using assms by (auto simp: tl_queued_def)
  then obtain q' where q: "q = t # q'"
    using i by (cases q) auto
  have pos: "tl_pc s (q' ! j) = TlSpin (tl_owner (tl_data s) + 1 + of_nat j)" if "j < length q'" for j
    using assms(1) that unfolding q tl_queued_def by (auto simp: add.assoc dest!: spec [of _ "Suc j"])
  have "q' ! j \<noteq> t" if "j < length q'" for j
    using assms(1) that unfolding q tl_queued_def by auto
  then have "tl_queued (tl_unlock t s) q'"
    using assms(1) pos unfolding q by (auto simp: tl_queued_def tl_unlock_def add.assoc)
  then show ?thesis using q by blast
qed

lemma tl_step_queued:
  assumes "tl_queued s q" and "tl_step t s s'"
  shows "\<exists>q'. fifo_step t q q' \<and> tl_queued s' q'"
  using assms(2)
proof (cases rule: tl_step.cases)
  case step_take
  then have "tl_queued s' (q @ [t])"
    using tl_take_queued [OF assms(1)] by simp
  moreover have "t \<notin> set q"
    using step_take assms(1) by (simp add: tl_queued_def)
  ultimately show ?thesis using fifo_enter by metis
next
  case (step_poll ticket)
  then have "tl_queued s' q"
    using tl_poll_queued [OF assms(1)] by simp
  then show ?thesis using fifo_stay by metis
next
  case step_unlock
  then obtain q' where "q = t # q'" "tl_queued s' q'"
    using tl_unlock_queued [OF assms(1)] by auto
  then show ?thesis using fifo_leave by metis
qed

lemma tl_head_proceeds:
  assumes "tl_queued s (t # q)" and "tl_waiting s t"
  shows "\<exists>s'. tl_step t s s' \<and> tl_holds s' t"
proof -
  have "\<forall>i < length (t # q). tl_pc s ((t # q) ! i) = TlSpin (tl_owner (tl_data s) + of_nat i) \<or>
      (i = 0 \<and> tl_pc s ((t # q) ! i) = TlHeld)"
    using assms(1) unfolding tl_queued_def by blast
  from spec [OF this, of 0] have "tl_pc s t = TlSpin (tl_owner (tl_data s))"
    using assms(2) by (auto simp: tl_waiting_def)
  then have "tl_step t s (tl_poll t (tl_owner (tl_data s)) s)"
    by (rule tl_step.step_poll)
  moreover have "tl_holds (tl_poll t (tl_owner (tl_data s)) s) t"
    by (simp add: tl_holds_def tl_poll_def)
  ultimately show ?thesis by blast
qed

lemma tl_step_holds: "tl_step t s s' \<Longrightarrow> u \<noteq> t \<Longrightarrow> tl_holds s' u = tl_holds s u"
  by (erule tl_step.cases) (simp_all add: tl_holds_def tl_take_def tl_poll_def tl_unlock_def Let_def)

interpretation ticket: fifo_lock tl_init tl_step tl_queued tl_waiting tl_holds
proof
  show "tl_queued tl_init []"
    by (simp add: tl_queued_def tl_init_def tl_next_def tl_owner_def)
  show "\<exists>q'. q = t # q'" if "tl_queued s q" "tl_holds s t" for s q t
    using tl_unlock_queued [OF that(1)] that(2) by (auto simp: tl_holds_def)
qed (fact tl_step_queued tl_head_proceeds tl_step_holds)+

text \<open>
  C7: every run of any number of threads on the ticket lock is a run of a queue, with the same threads in the
  same order: a thread joins at the end when it draws its ticket, the members of the queue are the threads
  inside or waiting, only the head is inside, and a head that waits gets in with its next look at the lock,
  however often the tickets have wrapped around.
\<close>

theorem ticket_lock_fifo:
  assumes "run tl_step ts tl_init s"
  shows "\<exists>q. run fifo_step ts [] q \<and> set q = {t. tl_pc s t \<noteq> TlIdle} \<and> (\<forall>t. tl_pc s t = TlHeld \<longrightarrow> q \<noteq> [] \<and> hd q = t) \<and>
    (q \<noteq> [] \<and> tl_waiting s (hd q) \<longrightarrow> (\<exists>s'. tl_step (hd q) s s' \<and> tl_pc s' (hd q) = TlHeld))"
proof -
  obtain q where q: "run fifo_step ts [] q" "tl_queued s q" "\<forall>t. tl_holds s t \<longrightarrow> q \<noteq> [] \<and> hd q = t"
    "q \<noteq> [] \<and> tl_waiting s (hd q) \<longrightarrow> (\<exists>s'. tl_step (hd q) s s' \<and> tl_holds s' (hd q))"
    using ticket.run_fifo [OF assms] by blast
  have "set q = {t. tl_pc s t \<noteq> TlIdle}"
    using q(2) by (auto simp: tl_queued_def)
  then show ?thesis
    using q(1,3,4) unfolding tl_holds_def by (intro exI [of _ q]) simp
qed

text \<open>Two threads: the first enters, the second draws a ticket, the first leaves, the second enters.\<close>

definition two_turns :: tl_state where
  "two_turns = tl_poll 2 1 (tl_unlock 1 (tl_take 2 (tl_take 1 tl_init)))"

lemma two_turns_run: "run tl_step [1, 2, 1, 2] tl_init two_turns" "tl_pc two_turns 2 = TlHeld" "tl_pc two_turns 1 = TlIdle"
proof -
  have 0: "tl_next 0 = 0" "tl_owner 0 = 0" "tl_owner (2 * TL_INC) = 0"
    by (simp_all add: tl_next_def tl_owner_def TL_INC_def)
  note defs = tl_take_def tl_unlock_def tl_poll_def tl_init_def Let_def 0 add_TL_INC_fields [of 0, simplified] fun_upd_def
  have "tl_step 1 tl_init (tl_take 1 tl_init)"
    by (rule step_take) (simp add: tl_init_def)
  moreover have "tl_step 2 (tl_take 1 tl_init) (tl_take 2 (tl_take 1 tl_init))"
    by (rule step_take) (simp add: defs)
  moreover have "tl_step 1 (tl_take 2 (tl_take 1 tl_init)) (tl_unlock 1 (tl_take 2 (tl_take 1 tl_init)))"
    by (rule step_unlock) (simp add: defs)
  moreover have "tl_step 2 (tl_unlock 1 (tl_take 2 (tl_take 1 tl_init))) two_turns"
    unfolding two_turns_def by (rule step_poll) (simp add: defs)
  ultimately show "run tl_step [1, 2, 1, 2] tl_init two_turns" by auto
  show "tl_pc two_turns 2 = TlHeld" "tl_pc two_turns 1 = TlIdle"
    by (simp_all add: two_turns_def defs)
qed

theorem ticket_lock_fifo_witness:
  "\<exists>q. run fifo_step [1, 2, 1, 2 :: tid] [] q \<and> 1 \<notin> set q \<and> hd q = 2"
proof -
  obtain q where "run fifo_step [1, 2, 1, 2] [] q" "set q = {t. tl_pc two_turns t \<noteq> TlIdle}"
    "\<forall>t. tl_pc two_turns t = TlHeld \<longrightarrow> q \<noteq> [] \<and> hd q = t"
    using ticket_lock_fifo [OF two_turns_run(1)] by blast
  then show ?thesis
    using two_turns_run(2,3) by (intro exI [of _ q]) simp
qed

text \<open>
  C22: sections of code under the ticket lock, each of which reads the shared data and writes it back at some
  later time, have the effect of the same sections executed one after the other.
\<close>

theorem ticket_sections_serial:
  assumes "(section_step tl_step tl_holds f)\<^sup>*\<^sup>* (tl_init, d, (\<lambda>_. None), []) (s, d', copy, lg)"
  shows "d' = fold f lg d"
  using ticket.sections_serial [OF assms] .

theorem ticket_sections_serial_witness:
  "\<exists>s d' copy. (section_step tl_step tl_holds (\<lambda>_. Suc))\<^sup>*\<^sup>* (tl_init, 41, (\<lambda>_. None), []) (s, d', copy, [1]) \<and> d' = 42"
proof -
  let ?s = "tl_take 1 tl_init" and ?R = "section_step tl_step tl_holds (\<lambda>_. Suc)"
  have lock: "tl_step 1 tl_init ?s"
    by (rule step_take) (simp add: tl_init_def)
  have holds: "tl_holds ?s 1"
    by (simp add: tl_holds_def tl_take_def tl_init_def tl_next_def tl_owner_def)
  have a: "section_step tl_step tl_holds (\<lambda>_. Suc) (tl_init, 41, (\<lambda>_. None), []) (?s, 41, (\<lambda>_. None), [])"
    using lock by (rule use_lock) simp
  have b: "section_step tl_step tl_holds (\<lambda>_. Suc) (?s, 41, (\<lambda>_. None), []) (?s, 41, (\<lambda>_. None)(1 := Some 41), [])"
    using holds by (rule read_data)
  have c: "section_step tl_step tl_holds (\<lambda>_. Suc) (?s, 41, (\<lambda>_. None)(1 := Some 41), [])
      (?s, Suc 41, ((\<lambda>_. None)(1 := Some 41))(1 := None), [] @ [1])"
    using holds by (rule write_data) simp
  have run: "(section_step tl_step tl_holds (\<lambda>_. Suc))\<^sup>*\<^sup>* (tl_init, 41, (\<lambda>_. None), [])
      (?s, Suc 41, ((\<lambda>_. None)(1 := Some 41))(1 := None), [1])"
    using converse_rtranclp_into_rtranclp [of ?R, OF a converse_rtranclp_into_rtranclp [of ?R, OF b
        converse_rtranclp_into_rtranclp [of ?R, OF c rtranclp.rtrancl_refl]]] by simp
  with ticket_sections_serial [OF run] show ?thesis by auto
qed

end
