(* ===== verification/Queue_Lock.thy ===== *)
theory Queue_Lock
  imports Spin_Lock
begin

text \<open>
  The queue lock of \<^verbatim>\<open>src/include/queuelock.h\<close> (after Mellor-Crummey and Scott), the alternative to the ticket
  lock.  Every thread has one queue node, as with \<open>ql_lock_no_nest\<close>, so a pointer to a node is the thread it
  belongs to.  Every access to shared memory is a step of its own; \<open>None\<close> is the use of a null pointer.
\<close>

section \<open>The operations\<close>

record queuenode_t =
  qn_next :: "tid option"
  qn_blocked :: bool

text \<open>
  Where a thread is in \<open>__ql_lock\<close> (about to set \<open>blocked\<close>, to read the tail, to compare and swap, to link itself
  behind its predecessor, to look at \<open>blocked\<close>), inside, or where it is in \<open>__ql_unlock\<close> (about to compare and
  swap, to look for a successor, to test the successor, to wake it).
\<close>

datatype ql_pc = QlIdle | QlBlock | QlRead | QlCas "tid option" | QlLink tid | QlSpin | QlHeld
  | QlTry | QlAwait | QlTest | QlGrant

record ql_state =
  ql_tail :: "tid option"
  ql_node :: "tid \<Rightarrow> queuenode_t"
  ql_pc :: "tid \<Rightarrow> ql_pc"

definition ql_init :: ql_state where
  "ql_init = \<lparr>ql_tail = None, ql_node = (\<lambda>_. \<lparr>qn_next = None, qn_blocked = False\<rparr>), ql_pc = (\<lambda>_. QlIdle)\<rparr>"

definition goto :: "tid \<Rightarrow> ql_pc \<Rightarrow> ql_state \<Rightarrow> ql_state" where
  "goto t l s = s\<lparr>ql_pc := (ql_pc s)(t := l)\<rparr>"

definition set_next :: "tid \<Rightarrow> tid option \<Rightarrow> ql_state \<Rightarrow> ql_state" where
  "set_next t n s = s\<lparr>ql_node := (ql_node s)(t := (ql_node s t)\<lparr>qn_next := n\<rparr>)\<rparr>"

definition set_blocked :: "tid \<Rightarrow> bool \<Rightarrow> ql_state \<Rightarrow> ql_state" where
  "set_blocked t b s = s\<lparr>ql_node := (ql_node s)(t := (ql_node s t)\<lparr>qn_blocked := b\<rparr>)\<rparr>"

definition ql_lock :: "tid \<Rightarrow> ql_state \<Rightarrow> ql_state option" where
  "ql_lock self s =
     (case ql_pc s self of
        QlIdle \<Rightarrow> Some (goto self QlBlock (set_next self None s))
      | QlBlock \<Rightarrow> Some (goto self QlRead (set_blocked self True s))
      | QlRead \<Rightarrow> Some (goto self (QlCas (ql_tail s)) s)
      | QlCas prev \<Rightarrow>
          Some (if ql_tail s = prev
                then goto self (case prev of None \<Rightarrow> QlHeld | Some p \<Rightarrow> QlLink p) (s\<lparr>ql_tail := Some self\<rparr>)
                else goto self QlRead s)
      | QlLink prev \<Rightarrow> Some (goto self QlSpin (set_next prev (Some self) s))
      | QlSpin \<Rightarrow> Some (if qn_blocked (ql_node s self) then s else goto self QlHeld s)
      | _ \<Rightarrow> None)"

definition ql_unlock :: "tid \<Rightarrow> ql_state \<Rightarrow> ql_state option" where
  "ql_unlock self s =
     (case ql_pc s self of
        QlHeld \<Rightarrow> Some (goto self (if qn_next (ql_node s self) = None then QlTry else QlTest) s)
      | QlTry \<Rightarrow>
          Some (if ql_tail s = Some self then goto self QlTest (s\<lparr>ql_tail := None\<rparr>) else goto self QlAwait s)
      | QlAwait \<Rightarrow> Some (if qn_next (ql_node s self) = None then s else goto self QlTest s)
      | QlTest \<Rightarrow> Some (goto self (if qn_next (ql_node s self) = None then QlIdle else QlGrant) s)
      | QlGrant \<Rightarrow>
          (case qn_next (ql_node s self) of
             None \<Rightarrow> None
           | Some n \<Rightarrow> Some (goto self QlIdle (set_blocked n False s)))
      | _ \<Rightarrow> None)"

definition ql_step :: "tid \<Rightarrow> ql_state \<Rightarrow> ql_state \<Rightarrow> bool" where
  "ql_step t s s' \<longleftrightarrow> ql_lock t s = Some s' \<or> ql_unlock t s = Some s'"

section \<open>The queue of waiting nodes\<close>

abbreviation nx :: "ql_state \<Rightarrow> tid \<Rightarrow> tid option" where
  "nx s t \<equiv> qn_next (ql_node s t)"

abbreviation bl :: "ql_state \<Rightarrow> tid \<Rightarrow> bool" where
  "bl s t \<equiv> qn_blocked (ql_node s t)"

text \<open>Every node behind the head is blocked, and linked to its predecessor or about to be.\<close>

fun chain :: "ql_state \<Rightarrow> tid list \<Rightarrow> bool" where
  "chain s [] = True"
| "chain s [x] \<longleftrightarrow> nx s x = None"
| "chain s (x # y # q) \<longleftrightarrow> bl s y \<and>
     (ql_pc s y = QlLink x \<and> nx s x = None \<or> ql_pc s y = QlSpin \<and> nx s x = Some y) \<and> chain s (y # q)"

fun head_place :: "ql_pc \<Rightarrow> tid option \<Rightarrow> bool \<Rightarrow> bool" where
  "head_place QlSpin n b \<longleftrightarrow> \<not> b"
| "head_place QlHeld n b \<longleftrightarrow> True"
| "head_place QlTry n b \<longleftrightarrow> True"
| "head_place QlAwait n b \<longleftrightarrow> True"
| "head_place QlTest n b \<longleftrightarrow> n \<noteq> None"
| "head_place QlGrant n b \<longleftrightarrow> n \<noteq> None"
| "head_place _ n b \<longleftrightarrow> False"

fun outside_place :: "ql_pc \<Rightarrow> tid option \<Rightarrow> bool \<Rightarrow> bool" where
  "outside_place QlIdle n b \<longleftrightarrow> True"
| "outside_place QlBlock n b \<longleftrightarrow> n = None"
| "outside_place QlRead n b \<longleftrightarrow> n = None \<and> b"
| "outside_place (QlCas prev) n b \<longleftrightarrow> n = None \<and> b"
| "outside_place QlTest n b \<longleftrightarrow> n = None"
| "outside_place _ n b \<longleftrightarrow> False"

definition head_ok :: "ql_state \<Rightarrow> tid \<Rightarrow> bool" where
  "head_ok s x = head_place (ql_pc s x) (nx s x) (bl s x)"

definition outside_ok :: "ql_state \<Rightarrow> tid \<Rightarrow> bool" where
  "outside_ok s x = outside_place (ql_pc s x) (nx s x) (bl s x)"

definition ql_queued :: "ql_state \<Rightarrow> tid list \<Rightarrow> bool" where
  "ql_queued s q \<longleftrightarrow> distinct q \<and> ql_tail s = (if q = [] then None else Some (last q)) \<and> chain s q \<and>
     (q \<noteq> [] \<longrightarrow> head_ok s (hd q) \<and> (ql_pc s (hd q) = QlAwait \<longrightarrow> tl q \<noteq> [])) \<and>
     (\<forall>x. x \<notin> set q \<longrightarrow> outside_ok s x)"

definition ql_waiting :: "ql_state \<Rightarrow> tid \<Rightarrow> bool" where
  "ql_waiting s t \<longleftrightarrow> ql_pc s t = QlSpin"

definition ql_holds :: "ql_state \<Rightarrow> tid \<Rightarrow> bool" where
  "ql_holds s t \<longleftrightarrow> ql_pc s t = QlHeld"

lemma upd_simps [simp]:
  "ql_pc (goto t l s) = (ql_pc s)(t := l)" "ql_node (goto t l s) = ql_node s" "ql_tail (goto t l s) = ql_tail s"
  "ql_pc (set_next t n s) = ql_pc s" "ql_tail (set_next t n s) = ql_tail s"
  "ql_node (set_next t n s) = (ql_node s)(t := (ql_node s t)\<lparr>qn_next := n\<rparr>)"
  "ql_pc (set_blocked t b s) = ql_pc s" "ql_tail (set_blocked t b s) = ql_tail s"
  "ql_node (set_blocked t b s) = (ql_node s)(t := (ql_node s t)\<lparr>qn_blocked := b\<rparr>)"
  by (simp_all add: goto_def set_next_def set_blocked_def)

lemma head_place_Some: "head_place l n b \<Longrightarrow> head_place l (Some x) b"
  by (cases l) auto

lemma chain_cong:
  assumes "\<And>x. x \<in> set q \<Longrightarrow> nx s' x = nx s x" and "\<And>x. x \<in> set (tl q) \<Longrightarrow> bl s' x = bl s x \<and> ql_pc s' x = ql_pc s x"
  shows "chain s' q = chain s q"
  using assms by (induction s q rule: chain.induct) auto

lemma chain_tl: "chain s q \<Longrightarrow> x \<in> set (tl q) \<Longrightarrow> bl s x \<and> (ql_pc s x = QlSpin \<or> (\<exists>p. ql_pc s x = QlLink p))"
  by (induction s q rule: chain.induct) auto

lemma chain_snoc:
  "chain s q \<Longrightarrow> q \<noteq> [] \<Longrightarrow> ql_pc s t = QlLink (last q) \<Longrightarrow> bl s t \<Longrightarrow> nx s t = None \<Longrightarrow> chain s (q @ [t])"
  by (induction s q rule: chain.induct) auto

lemma chain_link:
  assumes "chain s q" and "distinct q" and "t \<in> set (tl q)" and "ql_pc s t = QlLink p"
  shows "p \<in> set q \<and> chain (goto t QlSpin (set_next p (Some t) s)) q"
  using assms
proof (induction s q rule: chain.induct)
  case (3 s x y q)
  show ?case
  proof (cases "y = t")
    case True
    have "chain (goto t QlSpin (set_next p (Some t) s)) (y # q) = chain s (y # q)"
      using 3 True by (intro chain_cong) auto
    then show ?thesis using 3 True by auto
  next
    case False
    then show ?thesis using 3 by (auto dest: chain_tl)
  qed
qed auto

lemma queued_member:
  assumes "ql_queued s q" and "t \<in> set q"
  shows "t = hd q \<and> head_ok s t \<or> t \<in> set (tl q) \<and> bl s t \<and> (ql_pc s t = QlSpin \<or> (\<exists>p. ql_pc s t = QlLink p))"
  using assms chain_tl [of s q t] by (cases q) (auto simp: ql_queued_def)

text \<open>A step that changes the node and the place of one thread only.\<close>

definition local_step :: "tid \<Rightarrow> ql_state \<Rightarrow> ql_state \<Rightarrow> bool" where
  "local_step t s s' \<longleftrightarrow> ql_tail s' = ql_tail s \<and> (\<forall>x. x \<noteq> t \<longrightarrow> ql_node s' x = ql_node s x \<and> ql_pc s' x = ql_pc s x)"

lemma outside_step:
  assumes "ql_queued s q" and "t \<notin> set q" and "local_step t s s'" and "outside_ok s' t"
  shows "ql_queued s' q"
proof -
  have same: "ql_node s' x = ql_node s x" "ql_pc s' x = ql_pc s x" if "x \<noteq> t" for x
    using that assms(3) by (simp_all add: local_step_def)
  have "chain s' q = chain s q"
    using same assms(2) by (intro chain_cong) (metis, metis list.set_sel(2) list.sel(2))
  moreover have "head_ok s' x = head_ok s x" "outside_ok s' x = outside_ok s x" if "x \<noteq> t" for x
    using same [OF that] by (simp_all add: head_ok_def outside_ok_def)
  moreover have "hd q \<noteq> t" if "q \<noteq> []"
    using that assms(2) by force
  ultimately show ?thesis
    using assms unfolding ql_queued_def local_step_def by metis
qed

lemma head_step:
  assumes "ql_queued s q" and "q \<noteq> []" and "t = hd q" and "head_ok (goto t l s) t" and "l = QlAwait \<Longrightarrow> tl q \<noteq> []"
  shows "ql_queued (goto t l s) q"
proof -
  have "t \<notin> set (tl q)"
    using assms(1-3) by (cases q) (auto simp: ql_queued_def)
  then have "chain (goto t l s) q = chain s q"
    by (intro chain_cong) auto
  moreover have "outside_ok (goto t l s) x = outside_ok s x" if "x \<notin> set q" for x
    using that assms(2,3) by (auto simp: outside_ok_def)
  ultimately show ?thesis
    using assms by (auto simp: ql_queued_def)
qed

lemma outside_pc:
  assumes "ql_queued s q" and "ql_pc s t \<in> {QlIdle, QlBlock, QlRead} \<union> range QlCas"
  shows "t \<notin> set q" and "outside_ok s t"
proof -
  show "t \<notin> set q"
    using queued_member [OF assms(1), of t] assms(2) by (auto simp: head_ok_def)
  then show "outside_ok s t"
    using assms(1) by (simp add: ql_queued_def)
qed

lemma ql_cas_queued:
  assumes "ql_queued s q" and "ql_pc s t = QlCas prev" and "ql_tail s = prev"
  shows "ql_queued (goto t (case prev of None \<Rightarrow> QlHeld | Some p \<Rightarrow> QlLink p) (s\<lparr>ql_tail := Some t\<rparr>)) (q @ [t])"
    (is "ql_queued ?s' _")
proof -
  have t: "t \<notin> set q" "nx s t = None" "bl s t"
    using outside_pc [OF assms(1), of t] assms(2) by (auto simp: outside_ok_def)
  have outside: "outside_ok ?s' x" if "x \<notin> set (q @ [t])" for x
    using that assms(1) by (simp add: ql_queued_def outside_ok_def)
  show ?thesis
  proof (cases "q = []")
    case True
    then show ?thesis
      using assms t outside by (auto simp: ql_queued_def head_ok_def)
  next
    case False
    have "chain ?s' q = chain s q"
      using t(1) by (intro chain_cong) (auto dest: list.set_sel(2) [OF False])
    then have "chain ?s' (q @ [t])"
      using assms False t by (intro chain_snoc) (auto simp: ql_queued_def)
    moreover have "hd q \<noteq> t"
      using t(1) False by force
    then have "head_ok ?s' (hd q) = head_ok s (hd q)"
      by (simp add: head_ok_def)
    ultimately show ?thesis
      using assms(1) False t(1) outside by (simp add: ql_queued_def)
  qed
qed

lemma ql_link_queued:
  assumes "ql_queued s q" and "ql_pc s t = QlLink p"
  shows "ql_queued (goto t QlSpin (set_next p (Some t) s)) q"
proof -
  have t: "t \<in> set (tl q)"
    using assms queued_member [OF assms(1), of t] by (cases "t \<in> set q") (auto simp: head_ok_def ql_queued_def outside_ok_def)
  then have c: "p \<in> set q" "chain (goto t QlSpin (set_next p (Some t) s)) q"
    using chain_link [of s q t p] assms by (auto simp: ql_queued_def)
  have "t \<in> set q" "t \<noteq> hd q"
    using t assms(1) by (cases q; auto simp: ql_queued_def)+
  then show ?thesis
    using assms c by (auto simp: ql_queued_def head_ok_def outside_ok_def intro: head_place_Some)
qed

lemma ql_grant_queued:
  assumes "ql_queued s q" and "ql_pc s t = QlGrant" and "nx s t = Some n"
  shows "\<exists>q'. q = t # q' \<and> ql_queued (goto t QlIdle (set_blocked n False s)) q'"
proof -
  have "t \<in> set q"
    using assms(1,2) by (auto simp: ql_queued_def outside_ok_def)
  then have "t = hd q" "q \<noteq> []"
    using queued_member [OF assms(1), of t] assms(2) by auto
  then obtain q' where q: "q = t # q'"
    by (cases q) auto
  then obtain r where r: "q' = n # r" "ql_pc s n = QlSpin"
    using assms(1,3) by (cases q') (auto simp: ql_queued_def)
  let ?s' = "goto t QlIdle (set_blocked n False s)"
  have d: "distinct (t # n # r)"
    using assms(1) by (simp add: ql_queued_def q r)
  have "chain ?s' (n # r) = chain s (n # r)"
    using d by (intro chain_cong) auto
  then have "ql_queued ?s' q'"
    using assms(1) d unfolding q r by (auto simp: ql_queued_def head_ok_def outside_ok_def r(2))
  then show ?thesis using q by blast
qed

lemma ql_release_queued:
  assumes "ql_queued s q" and "ql_pc s t = QlTry" and "ql_tail s = Some t"
  shows "q = [t] \<and> ql_queued (goto t QlTest (s\<lparr>ql_tail := None\<rparr>)) []"
proof -
  have "t \<in> set q"
    using assms(1,2) by (auto simp: ql_queued_def outside_ok_def)
  then have t: "t = hd q" "q \<noteq> []"
    using queued_member [OF assms(1), of t] assms(2) by auto
  moreover have "t = last q" "distinct q"
    using assms(1,3) by (auto simp: ql_queued_def split: if_splits)
  ultimately have q: "q = [t]"
    by (cases q) (auto split: if_splits)
  then show ?thesis
    using assms(1) by (auto simp: ql_queued_def outside_ok_def)
qed

lemma head_pc:
  assumes "ql_queued s q" and "ql_pc s t \<in> {QlHeld, QlTry, QlAwait, QlGrant}"
  shows "q \<noteq> [] \<and> t = hd q"
proof -
  have "t \<in> set q"
    using assms by (auto simp: ql_queued_def outside_ok_def)
  then show ?thesis
    using queued_member [OF assms(1), of t] assms(2) by auto
qed

section \<open>The queue lock is a first-come first-served lock\<close>

lemma ql_lock_queued:
  assumes "ql_queued s q" and "ql_lock t s = Some s'"
  shows "\<exists>q'. fifo_step t q q' \<and> ql_queued s' q'"
proof (cases "ql_pc s t \<in> {QlIdle, QlBlock, QlRead} \<or> (\<exists>prev. ql_pc s t = QlCas prev \<and> ql_tail s \<noteq> prev)")
  case True
  then have t: "t \<notin> set q" "outside_ok s t"
    using outside_pc [OF assms(1), of t] by auto
  then have "local_step t s s'" "outside_ok s' t"
    using True assms(2) by (auto simp: ql_lock_def local_step_def outside_ok_def)
  then have "ql_queued s' q"
    by (rule outside_step [OF assms(1) t(1)])
  then show ?thesis using fifo_stay by metis
next
  case False
  then consider prev where "ql_pc s t = QlCas prev" "ql_tail s = prev" | p where "ql_pc s t = QlLink p" | "ql_pc s t = QlSpin"
    using assms(2) by (cases "ql_pc s t") (auto simp: ql_lock_def)
  then show ?thesis
  proof cases
    case 1
    then have "t \<notin> set q"
      using outside_pc(1) [OF assms(1), of t] by auto
    moreover have "ql_queued s' (q @ [t])"
      using ql_cas_queued [OF assms(1) 1] assms(2) 1 by (simp add: ql_lock_def)
    ultimately show ?thesis using fifo_enter by metis
  next
    case 2
    then have "ql_queued s' q"
      using ql_link_queued [OF assms(1) 2] assms(2) by (auto simp: ql_lock_def)
    then show ?thesis using fifo_stay by metis
  next
    case 3
    have "ql_queued s' q"
    proof (cases "bl s t")
      case True
      then show ?thesis using 3 assms by (simp add: ql_lock_def)
    next
      case False
      have "t \<in> set q"
        using 3 assms(1) by (auto simp: ql_queued_def outside_ok_def)
      then have "q \<noteq> []" "t = hd q"
        using queued_member [OF assms(1), of t] False by auto
      then show ?thesis
        using head_step [OF assms(1), of t QlHeld] False 3 assms(2) by (auto simp: ql_lock_def head_ok_def)
    qed
    then show ?thesis using fifo_stay by metis
  qed
qed

lemma ql_unlock_queued:
  assumes "ql_queued s q" and "ql_unlock t s = Some s'"
  shows "\<exists>q'. fifo_step t q q' \<and> ql_queued s' q'"
proof -
  consider "ql_pc s t = QlGrant" | "ql_pc s t = QlTry" "ql_tail s = Some t"
    | "ql_pc s t = QlTest" "nx s t = None" | "ql_pc s t = QlTest" "nx s t \<noteq> None"
    | "ql_pc s t \<in> {QlHeld, QlTry, QlAwait}" "ql_tail s \<noteq> Some t \<or> ql_pc s t \<noteq> QlTry"
    using assms(2) by (cases "ql_pc s t") (auto simp: ql_unlock_def)
  then show ?thesis
  proof cases
    case 1
    then obtain n where n: "nx s t = Some n" "s' = goto t QlIdle (set_blocked n False s)"
      using assms(2) by (auto simp: ql_unlock_def split: option.splits)
    then obtain q' where "q = t # q'" "ql_queued s' q'"
      using ql_grant_queued [OF assms(1) 1 n(1)] by blast
    then show ?thesis using fifo_leave by metis
  next
    case 2
    then have "q = [t]" "ql_queued s' []"
      using ql_release_queued [OF assms(1) 2] assms(2) by (auto simp: ql_unlock_def)
    then show ?thesis using fifo_leave by metis
  next
    case 3
    then have "t \<notin> set q"
      using queued_member [OF assms(1), of t] by (auto simp: head_ok_def)
    moreover have "local_step t s s'" "outside_ok s' t"
      using 3 assms(2) by (auto simp: ql_unlock_def local_step_def outside_ok_def)
    ultimately have "ql_queued s' q"
      by (rule outside_step [OF assms(1)])
    then show ?thesis using fifo_stay by metis
  next
    case 4
    then have "t \<in> set q"
      using assms(1) by (auto simp: ql_queued_def outside_ok_def)
    then have "q \<noteq> []" "t = hd q"
      using queued_member [OF assms(1), of t] 4 by auto
    then have "ql_queued s' q"
      using head_step [OF assms(1), of t QlGrant] 4 assms(2) by (auto simp: ql_unlock_def head_ok_def)
    then show ?thesis using fifo_stay by metis
  next
    case 5
    then have head: "q \<noteq> []" "t = hd q"
      using head_pc [OF assms(1), of t] by auto
    have "tl q \<noteq> []" if "ql_tail s \<noteq> Some t"
      using that head assms(1) by (cases q) (auto simp: ql_queued_def)
    then have "s' = s \<or> (\<exists>l. s' = goto t l s \<and> head_ok s' t \<and> (l = QlAwait \<longrightarrow> tl q \<noteq> []))"
      using 5 assms(2) by (auto simp: ql_unlock_def head_ok_def split: if_splits)
    then have "ql_queued s' q"
      using head_step [OF assms(1) head] assms(1) by auto
    then show ?thesis using fifo_stay by metis
  qed
qed

interpretation queue: fifo_lock ql_init ql_step ql_queued ql_waiting ql_holds
proof
  show "ql_queued ql_init []"
    by (simp add: ql_queued_def ql_init_def outside_ok_def)
  show "\<exists>q'. fifo_step t q q' \<and> ql_queued s' q'" if "ql_queued s q" "ql_step t s s'" for s q t s'
    using that(2) ql_lock_queued [OF that(1)] ql_unlock_queued [OF that(1)] unfolding ql_step_def by metis
  show "\<exists>q'. q = t # q'" if "ql_queued s q" "ql_holds s t" for s q t
    using head_pc [OF that(1), of t] that(2) by (cases q) (auto simp: ql_holds_def)
  show "\<exists>s'. ql_step t s s' \<and> ql_holds s' t" if "ql_queued s (t # q)" "ql_waiting s t" for s t q
  proof -
    have "\<not> bl s t"
      using that by (simp add: ql_queued_def head_ok_def ql_waiting_def)
    then have "ql_lock t s = Some (goto t QlHeld s)"
      using that(2) by (simp add: ql_lock_def ql_waiting_def)
    then show ?thesis
      by (auto simp: ql_step_def ql_holds_def)
  qed
  show "ql_holds s' u = ql_holds s u" if "ql_step t s s'" "u \<noteq> t" for t s s' u
    using that
    by (auto simp: ql_step_def ql_lock_def ql_unlock_def ql_holds_def split: ql_pc.splits option.splits if_splits)
qed

text \<open>
  The threads in line: from the compare and swap that appends the node to the write that wakes the successor, or
  the compare and swap that empties the queue.
\<close>

definition ql_in_line :: "ql_state \<Rightarrow> tid \<Rightarrow> bool" where
  "ql_in_line s t = (case ql_pc s t of
     QlIdle \<Rightarrow> False | QlBlock \<Rightarrow> False | QlRead \<Rightarrow> False | QlCas _ \<Rightarrow> False | QlTest \<Rightarrow> nx s t \<noteq> None | _ \<Rightarrow> True)"

lemma queued_in_line:
  assumes "ql_queued s q"
  shows "t \<in> set q \<longleftrightarrow> ql_in_line s t"
  using queued_member [OF assms, of t] assms
  by (cases "ql_pc s t") (auto simp: ql_in_line_def head_ok_def ql_queued_def outside_ok_def)

lemma queued_step:
  assumes "ql_queued s q"
  shows "\<exists>s'. ql_step t s s'"
proof (cases "ql_pc s t = QlGrant")
  case True
  then have "nx s t \<noteq> None"
    using head_pc [OF assms, of t] assms by (auto simp: ql_queued_def head_ok_def)
  then show ?thesis
    using True by (auto simp: ql_step_def ql_unlock_def)
next
  case False
  then show ?thesis
    by (cases "ql_pc s t") (auto simp: ql_step_def ql_lock_def ql_unlock_def)
qed

lemma queued_await:
  assumes "ql_queued s q" and "ql_pc s t = QlAwait" and "nx s t = None"
  shows "\<exists>u. ql_pc s u = QlLink t"
proof -
  have "q \<noteq> []" "t = hd q" "tl q \<noteq> []"
    using head_pc [OF assms(1), of t] assms by (auto simp: ql_queued_def)
  then obtain u r where "q = t # u # r"
    by (metis list.exhaust_sel)
  then show ?thesis
    using assms(1,3) by (auto simp: ql_queued_def)
qed

lemma queue_sections_serial:
  "(section_step ql_step ql_holds f)\<^sup>*\<^sup>* (ql_init, d, (\<lambda>_. None), []) (s, d', copy, lg) \<Longrightarrow> d' = fold f lg d"
  by (rule queue.sections_serial)

text \<open>
  C6: every run of any number of threads on the queue lock is a run of a queue, with the same threads in the same
  order: the members of the queue are the threads in line, only the head is inside, and a head that waits gets
  in with its next look at its node.  No thread ever uses a null pointer, so each can always go on, and a
  thread that waits to learn who is behind it has a successor that is about to tell.
\<close>

theorem queue_lock_fifo:
  assumes "run ql_step ts ql_init s"
  shows "\<exists>q. run fifo_step ts [] q \<and> set q = {t. ql_in_line s t} \<and> (\<forall>t. ql_pc s t = QlHeld \<longrightarrow> q \<noteq> [] \<and> hd q = t) \<and>
      (q \<noteq> [] \<and> ql_pc s (hd q) = QlSpin \<longrightarrow> (\<exists>s'. ql_step (hd q) s s' \<and> ql_pc s' (hd q) = QlHeld)) \<and>
      (\<forall>t. \<exists>s'. ql_step t s s') \<and> (\<forall>t. ql_pc s t = QlAwait \<and> nx s t = None \<longrightarrow> (\<exists>u. ql_pc s u = QlLink t))"
proof -
  obtain q where q: "run fifo_step ts [] q" "ql_queued s q" "\<forall>t. ql_holds s t \<longrightarrow> q \<noteq> [] \<and> hd q = t"
    "q \<noteq> [] \<and> ql_waiting s (hd q) \<longrightarrow> (\<exists>s'. ql_step (hd q) s s' \<and> ql_holds s' (hd q))"
    using queue.run_fifo [OF assms] by blast
  have "set q = {t. ql_in_line s t}"
    using queued_in_line [OF q(2)] by auto
  then show ?thesis
    using q(1,3,4) queued_step [OF q(2)] queued_await [OF q(2)] unfolding ql_holds_def ql_waiting_def
    by (intro exI [of _ q]) simp
qed

text \<open>One thread enters, a second one joins and links itself, and the first hands the lock over.\<close>

definition hand_over :: "tid list" where
  "hand_over = [1, 1, 1, 1, 2, 2, 2, 2, 2, 1, 1, 1, 2]"

fun ql_exec :: "tid list \<Rightarrow> ql_state \<Rightarrow> ql_state option" where
  "ql_exec [] s = Some s"
| "ql_exec (t # ts) s =
     (case ql_lock t s of
        Some u \<Rightarrow> ql_exec ts u
      | None \<Rightarrow> (case ql_unlock t s of None \<Rightarrow> None | Some u \<Rightarrow> ql_exec ts u))"

lemma ql_exec_run: "ql_exec ts s = Some s' \<Longrightarrow> run ql_step ts s s'"
  by (induction ts arbitrary: s) (auto simp: ql_step_def split: option.splits)

theorem queue_lock_fifo_witness:
  "\<exists>s q. run ql_step hand_over ql_init s \<and> ql_pc s 2 = QlHeld \<and> run fifo_step hand_over [] q \<and> hd q = 2"
proof -
  have "\<exists>s. ql_exec hand_over ql_init = Some s \<and> ql_pc s 2 = QlHeld"
    by (simp add: hand_over_def ql_lock_def ql_unlock_def ql_init_def)
  then obtain s where s: "run ql_step hand_over ql_init s" "ql_pc s 2 = QlHeld"
    using ql_exec_run by blast
  then show ?thesis
    using queue_lock_fifo [OF s(1)] by blast
qed

end
