(* ===== verification/Cond_Var.thy ===== *)
theory Cond_Var
  imports Spin_Lock
begin

text \<open>
  The condition variable of \<^verbatim>\<open>src/include/condvar.h\<close>: a sequence number, on which waiting threads sleep by a
  futex, and a count of the waiters.  The spin lock that protects it appears by what \<open>Spin_Lock\<close> shows of it:
  at most one thread is inside, and code under the lock is one step.  The futex calls are not under the lock
  and are steps of their own.
\<close>

section \<open>The operations\<close>

text \<open>
  The kernel: whether \<open>FUTEX_WAIT\<close> puts the caller to sleep, given the value of the word and the expected one,
  and the sleeper \<open>FUTEX_WAKE\<close> wakes.
\<close>

record futex =
  fx_wait :: "32 word \<Rightarrow> 32 word \<Rightarrow> bool"
  fx_wake :: "(tid \<Rightarrow> bool) \<Rightarrow> tid option"

datatype wait_mode_t = CV_PRIVATE | CV_PUBLIC

record cv_t =
  cv_seq :: "32 word"
  cv_waiters :: "32 word"
  cv_mode :: wait_mode_t

definition cv_init :: cv_t where
  "cv_init = \<lparr>cv_seq = 0, cv_waiters = 0, cv_mode = CV_PRIVATE\<rparr>"

definition cv_init_shared :: cv_t where
  "cv_init_shared = \<lparr>cv_seq = 0, cv_waiters = 0, cv_mode = CV_PUBLIC\<rparr>"

text \<open>
  Where a thread is: outside or inside the lock; in \<open>cv_wait\<close> with the sequence number it read, about to call
  the futex, asleep, or awake and about to take the lock; in \<open>cv_signal\<close>, about to wake.
\<close>

datatype cv_pc = CvOut | CvIn | CvWait "32 word" | CvSleep | CvWoken | CvSignal

record cv_state =
  cv :: cv_t
  cv_owner :: "tid option"
  cv_pc :: "tid \<Rightarrow> cv_pc"

definition cv_start :: "cv_t \<Rightarrow> cv_state" where
  "cv_start c = \<lparr>cv = c, cv_owner = None, cv_pc = (\<lambda>_. CvOut)\<rparr>"

definition cv_at :: "tid \<Rightarrow> cv_pc \<Rightarrow> cv_state \<Rightarrow> cv_state" where
  "cv_at t l s = s\<lparr>cv_pc := (cv_pc s)(t := l)\<rparr>"

text \<open>\<open>cv_wait\<close>: up to the release of the lock, the futex call, and from the return of the lock.\<close>

definition cv_wait_enter :: "tid \<Rightarrow> cv_state \<Rightarrow> cv_state" where
  "cv_wait_enter t s = cv_at t (CvWait (cv_seq (cv s))) (s\<lparr>cv := (cv s)\<lparr>cv_waiters := cv_waiters (cv s) + 1\<rparr>, cv_owner := None\<rparr>)"

definition cv_wait_futex :: "futex \<Rightarrow> tid \<Rightarrow> 32 word \<Rightarrow> cv_state \<Rightarrow> cv_state" where
  "cv_wait_futex fx t k s = cv_at t (if fx_wait fx (cv_seq (cv s)) k then CvSleep else CvWoken) s"

definition cv_wait_return :: "tid \<Rightarrow> cv_state \<Rightarrow> cv_state" where
  "cv_wait_return t s = cv_at t CvIn (s\<lparr>cv := (cv s)\<lparr>cv_waiters := cv_waiters (cv s) - 1\<rparr>, cv_owner := Some t\<rparr>)"

text \<open>\<open>cv_signal\<close>: the test and the increment, and the futex call.\<close>

definition cv_signal :: "tid \<Rightarrow> cv_state \<Rightarrow> cv_state" where
  "cv_signal t s =
     (if 0 < sint (cv_waiters (cv s)) then cv_at t CvSignal (s\<lparr>cv := (cv s)\<lparr>cv_seq := cv_seq (cv s) + 1\<rparr>\<rparr>) else s)"

definition cv_signal_wake :: "futex \<Rightarrow> tid \<Rightarrow> cv_state \<Rightarrow> cv_state" where
  "cv_signal_wake fx t s =
     cv_at t CvIn (case fx_wake fx (\<lambda>u. cv_pc s u = CvSleep) of None \<Rightarrow> s | Some u \<Rightarrow> cv_at u CvWoken s)"

text \<open>The steps of the threads; a sleeper may also wake for no reason, as when a signal interrupts it.\<close>

inductive cv_step :: "futex \<Rightarrow> tid \<Rightarrow> cv_state \<Rightarrow> cv_state \<Rightarrow> bool" for fx :: futex where
  take_lock: "cv_pc s t = CvOut \<Longrightarrow> cv_owner s = None \<Longrightarrow> cv_step fx t s (cv_at t CvIn (s\<lparr>cv_owner := Some t\<rparr>))"
| drop_lock: "cv_pc s t = CvIn \<Longrightarrow> cv_step fx t s (cv_at t CvOut (s\<lparr>cv_owner := None\<rparr>))"
| wait_enter: "cv_pc s t = CvIn \<Longrightarrow> cv_step fx t s (cv_wait_enter t s)"
| wait_futex: "cv_pc s t = CvWait k \<Longrightarrow> cv_step fx t s (cv_wait_futex fx t k s)"
| spurious: "cv_pc s t = CvSleep \<Longrightarrow> cv_step fx t s (cv_at t CvWoken s)"
| wait_return: "cv_pc s t = CvWoken \<Longrightarrow> cv_owner s = None \<Longrightarrow> cv_step fx t s (cv_wait_return t s)"
| signal: "cv_pc s t = CvIn \<Longrightarrow> cv_step fx t s (cv_signal t s)"
| signal_wake: "cv_pc s t = CvSignal \<Longrightarrow> cv_step fx t s (cv_signal_wake fx t s)"

section \<open>No signal is lost\<close>

text \<open>What the kernel documents of the futex calls.\<close>

definition futex_laws :: "futex \<Rightarrow> bool" where
  "futex_laws fx \<longleftrightarrow> (\<forall>v k. fx_wait fx v k \<longleftrightarrow> v = k) \<and>
     (\<forall>S. case fx_wake fx S of None \<Rightarrow> \<forall>t. \<not> S t | Some t \<Rightarrow> S t)"

definition in_wait :: "cv_state \<Rightarrow> tid \<Rightarrow> bool" where
  "in_wait s t \<longleftrightarrow> (\<exists>k. cv_pc s t = CvWait k) \<or> cv_pc s t = CvSleep \<or> cv_pc s t = CvWoken"

definition inside :: "cv_state \<Rightarrow> tid \<Rightarrow> bool" where
  "inside s t \<longleftrightarrow> cv_pc s t = CvIn \<or> cv_pc s t = CvSignal"

definition cv_inv :: "cv_state \<Rightarrow> bool" where
  "cv_inv s \<longleftrightarrow> (\<forall>t. inside s t \<longleftrightarrow> cv_owner s = Some t) \<and> cv_waiters (cv s) = of_nat (card {t. in_wait s t})"

lemma cv_at_simps [simp]: "cv_pc (cv_at t l s) = (cv_pc s)(t := l)" "cv (cv_at t l s) = cv s" "cv_owner (cv_at t l s) = cv_owner s"
  by (simp_all add: cv_at_def)

lemma waiting_add:
  assumes "\<And>u. u \<noteq> t \<Longrightarrow> in_wait s' u = in_wait s u" and "in_wait s' t" and "\<not> in_wait s t"
  shows "card {u. in_wait s' u} = Suc (card {u. in_wait s u})"
proof -
  have "in_wait s' u \<longleftrightarrow> u = t \<or> in_wait s u" for u
    using assms by (cases "u = t") simp_all
  then have "{u. in_wait s' u} = insert t {u. in_wait s u}"
    by auto
  then show ?thesis using assms(3) by simp
qed

text \<open>A step changes the place of one thread, and of the sleeper it wakes.\<close>

lemma woken_sleeper:
  assumes "futex_laws fx" and "fx_wake fx (\<lambda>u. cv_pc s u = CvSleep) = Some u"
  shows "cv_pc s u = CvSleep"
  using assms by (auto simp: futex_laws_def dest: spec [of _ "\<lambda>u. cv_pc s u = CvSleep"])

lemma cv_step_inside:
  assumes "futex_laws fx" and "cv_step fx t s s'" and "cv_inv s"
  shows "inside s' u \<longleftrightarrow> cv_owner s' = Some u"
proof -
  have own: "inside s v \<longleftrightarrow> cv_owner s = Some v" for v
    using assms(3) by (simp add: cv_inv_def)
  show ?thesis
    using assms(2)
  proof (cases rule: cv_step.cases)
    case signal_wake
    then show ?thesis
      using own [of t] own [of u] woken_sleeper [OF assms(1), of s]
      by (auto simp: inside_def cv_signal_wake_def split: option.splits)
  qed (use own [of t] own [of u] in \<open>auto simp: inside_def cv_wait_enter_def cv_wait_futex_def cv_wait_return_def
      cv_signal_def\<close>)
qed

lemma cv_step_waiters:
  assumes "futex_laws fx" and "cv_step fx t s s'" and "cv_inv s"
  shows "cv_waiters (cv s') = of_nat (card {t. in_wait s' t})"
  using assms(2)
proof (cases rule: cv_step.cases)
  case wait_enter
  have "card {u. in_wait s' u} = Suc (card {u. in_wait s u})"
    using wait_enter by (intro waiting_add [of t]) (auto simp: in_wait_def cv_wait_enter_def)
  then show ?thesis
    using wait_enter assms(3) by (simp add: cv_inv_def cv_wait_enter_def)
next
  case wait_return
  have "card {u. in_wait s u} = Suc (card {u. in_wait s' u})"
    using wait_return by (intro waiting_add [of t]) (auto simp: in_wait_def cv_wait_return_def)
  moreover have "cv_waiters (cv s') = cv_waiters (cv s) - 1"
    using wait_return by (simp add: cv_wait_return_def)
  ultimately show ?thesis
    using assms(3) by (simp add: cv_inv_def)
next
  case signal_wake
  have "in_wait s' u = in_wait s u" for u
    using signal_wake woken_sleeper [OF assms(1), of s]
    by (auto simp: in_wait_def cv_signal_wake_def split: option.splits)
  then show ?thesis
    using signal_wake assms(3) by (simp add: cv_inv_def cv_signal_wake_def split: option.splits)
next
  case (wait_futex k)
  have "in_wait s' u = in_wait s u" for u
    using wait_futex by (auto simp: in_wait_def cv_wait_futex_def)
  then show ?thesis
    using wait_futex assms(3) by (simp add: cv_inv_def cv_wait_futex_def)
next
  case signal
  have "in_wait s' u = in_wait s u" for u
    using signal by (auto simp: in_wait_def cv_signal_def)
  then show ?thesis
    using signal assms(3) by (simp add: cv_inv_def cv_signal_def)
next
  case spurious
  have "in_wait s' u = in_wait s u" for u
    using spurious by (auto simp: in_wait_def)
  then show ?thesis
    using spurious assms(3) by (simp add: cv_inv_def)
next
  case take_lock
  have "in_wait s' u = in_wait s u" for u
    using take_lock by (auto simp: in_wait_def)
  then show ?thesis
    using take_lock assms(3) by (simp add: cv_inv_def)
next
  case drop_lock
  have "in_wait s' u = in_wait s u" for u
    using drop_lock by (auto simp: in_wait_def)
  then show ?thesis
    using drop_lock assms(3) by (simp add: cv_inv_def)
qed

lemma cv_step_inv: "futex_laws fx \<Longrightarrow> cv_step fx t s s' \<Longrightarrow> cv_inv s \<Longrightarrow> cv_inv s'"
  using cv_step_inside cv_step_waiters by (simp add: cv_inv_def)

lemma cv_reach_inv:
  assumes "futex_laws fx" and "(\<lambda>s s'. \<exists>t. cv_step fx t s s')\<^sup>*\<^sup>* (cv_start c) s" and "cv_waiters c = 0"
  shows "cv_inv s"
  using assms(2)
proof (induction rule: rtranclp_induct)
  case base
  show ?case using assms(3) by (simp add: cv_inv_def cv_start_def inside_def in_wait_def)
qed (use cv_step_inv [OF assms(1)] in blast)

text \<open>
  While a thread is between the two parts of \<open>cv_signal\<close> it is inside the lock, so the waiters can only move
  on within \<open>cv_wait\<close>, and no further signal changes the sequence number.
\<close>

definition signalling :: "cv_state \<Rightarrow> tid \<Rightarrow> cv_state \<Rightarrow> bool" where
  "signalling s t s' \<longleftrightarrow> cv_owner s' = Some t \<and> cv_pc s' t = CvSignal \<and> cv_seq (cv s') = cv_seq (cv s) + 1 \<and>
     (\<forall>u. cv_pc s' u = CvSleep \<longrightarrow> cv_pc s u = CvSleep) \<and> (\<forall>u. cv_pc s' u \<noteq> CvWait (cv_seq (cv s')))"

lemma signalling_step:
  assumes "futex_laws fx" and "cv_inv s'" and "signalling s t s'" and "cv_step fx u s' s''" and "u \<noteq> t"
  shows "signalling s t s''"
proof -
  have out: "\<not> inside s' u"
    using assms(2,3,5) by (simp add: cv_inv_def signalling_def)
  show ?thesis
    using assms(4)
  proof (cases rule: cv_step.cases)
    case (wait_futex k)
    then have "\<not> fx_wait fx (cv_seq (cv s')) k"
      using assms(1,3) by (auto simp: futex_laws_def signalling_def)
    then show ?thesis
      using wait_futex assms(3,5) by (auto simp: signalling_def cv_wait_futex_def)
  next
    case spurious
    then show ?thesis
      using assms(3,5) by (auto simp: signalling_def)
  qed (use out assms(3) in \<open>auto simp: inside_def signalling_def\<close>)
qed

lemma signalling_run:
  assumes "futex_laws fx" and "(\<lambda>a b. \<exists>u. u \<noteq> t \<and> cv_step fx u a b)\<^sup>*\<^sup>* s1 s2" and "cv_inv s1" and "signalling s t s1"
  shows "signalling s t s2"
proof -
  have "cv_inv s2 \<and> signalling s t s2"
    using assms(2)
  proof (induction rule: rtranclp_induct)
    case (step a b)
    then show ?case using cv_step_inv [OF assms(1)] signalling_step [OF assms(1)] by blast
  qed (use assms(3,4) in simp)
  then show ?thesis ..
qed

lemma of_nat_waiters:
  assumes "0 < n" and "n < 2 ^ 31"
  shows "0 < sint (of_nat n :: 32 word)"
proof -
  have "sint (of_nat n :: 32 word) = int n"
    using assms by (simp add: signed_of_nat signed_take_bit_int_eq_self)
  then show ?thesis using assms by simp
qed

text \<open>
  The waiters a signal has still to release: those asleep, and those whose futex call would put them to sleep
  because the sequence number is the one they read.  The other waiters are on their way back to the lock.
\<close>

definition blocked :: "cv_state \<Rightarrow> tid set" where
  "blocked s = {u. cv_pc s u = CvSleep \<or> cv_pc s u = CvWait (cv_seq (cv s))}"

lemma cv_signal_starts:
  assumes "cv_inv s" and "cv_pc s t = CvIn" and "blocked s \<noteq> {}" and "card {u. in_wait s u} < 2 ^ 31"
    and "\<forall>u. cv_pc s u \<noteq> CvWait (cv_seq (cv s) + 1)"
  shows "signalling s t (cv_signal t s)"
proof -
  have "{u. in_wait s u} \<noteq> {}"
    using assms(3) by (auto simp: blocked_def in_wait_def)
  then have "0 < card {u. in_wait s u}"
    by (simp add: card_gt_0_iff)
  then have "0 < sint (cv_waiters (cv s))"
    using assms(1,4) of_nat_waiters by (simp add: cv_inv_def)
  then show ?thesis
    using assms(1,2,5) by (auto simp: signalling_def cv_signal_def cv_inv_def inside_def)
qed

lemma cv_signal_wake_blocked:
  assumes "futex_laws fx" and "signalling s t s2" and "blocked s \<noteq> {}"
  shows "blocked (cv_signal_wake fx t s2) \<subset> blocked s"
proof (cases "fx_wake fx (\<lambda>u. cv_pc s2 u = CvSleep)")
  case (Some u)
  from woken_sleeper [OF assms(1) this] have "cv_pc s u = CvSleep"
    using assms(2) by (simp add: signalling_def)
  then show ?thesis
    using Some assms(2) by (auto simp: signalling_def blocked_def cv_signal_wake_def split: if_splits)
next
  case None
  then have "\<forall>u. cv_pc s2 u \<noteq> CvSleep"
    using assms(1) by (auto simp: futex_laws_def dest: spec [of _ "\<lambda>u. cv_pc s2 u = CvSleep"])
  then have "blocked (cv_signal_wake fx t s2) = {}"
    using None assms(2) by (auto simp: signalling_def blocked_def cv_signal_wake_def split: if_splits)
  then show ?thesis using assms(3) by blast
qed

lemma cv_signal_wake_one:
  assumes "futex_laws fx" and "cv_pc s t = CvSignal"
  shows "card {u. cv_pc s u = CvSleep} = card {u. cv_pc (cv_signal_wake fx t s) u = CvSleep} +
    (if \<exists>u. cv_pc s u = CvSleep then 1 else 0)"
proof (cases "fx_wake fx (\<lambda>u. cv_pc s u = CvSleep)")
  case (Some u)
  note woken_sleeper [OF assms(1) this]
  moreover from this have "{v. cv_pc (cv_signal_wake fx t s) v = CvSleep} = {v. cv_pc s v = CvSleep} - {u}"
    using Some assms(2) by (auto simp: cv_signal_wake_def)
  ultimately show ?thesis
    using card.remove [of "{v. cv_pc s v = CvSleep}" u] by auto
next
  case None
  then have "\<forall>u. cv_pc s u \<noteq> CvSleep"
    using assms(1) by (auto simp: futex_laws_def dest: spec [of _ "\<lambda>u. cv_pc s u = CvSleep"])
  then show ?thesis using None by (simp add: cv_signal_wake_def)
qed

text \<open>
  C8: a signal is not lost.  When a thread inside the lock signals while some waiters are still blocked, asleep or
  about to sleep, and fewer than 2 to the 31 threads wait, then whatever the others do between its increment of the
  sequence number and its futex call, fewer of these waiters are blocked when the signal is complete, and no other
  thread is.  The futex call wakes one sleeper, if there is one.  The condition on the waiters before their futex
  call fails only for one that has been delayed there for 2 to the 32 minus 1 signals.
\<close>

theorem signal_releases_waiter:
  assumes "futex_laws fx" and "c \<in> {cv_init, cv_init_shared}" and "(\<lambda>s s'. \<exists>t. cv_step fx t s s')\<^sup>*\<^sup>* (cv_start c) s"
    and "cv_pc s t = CvIn" and "blocked s \<noteq> {}" and "card {u. in_wait s u} < 2 ^ 31"
    and "\<forall>u. cv_pc s u \<noteq> CvWait (cv_seq (cv s) + 1)"
    and "(\<lambda>a b. \<exists>u. u \<noteq> t \<and> cv_step fx u a b)\<^sup>*\<^sup>* (cv_signal t s) s2" and "s3 = cv_signal_wake fx t s2"
  shows "blocked s3 \<subset> blocked s \<and> cv_step fx t s2 s3 \<and>
    card {u. cv_pc s2 u = CvSleep} = card {u. cv_pc s3 u = CvSleep} + (if \<exists>u. cv_pc s2 u = CvSleep then 1 else 0)"
proof -
  have inv: "cv_inv s"
    using cv_reach_inv [OF assms(1,3)] assms(2) by (auto simp: cv_init_def cv_init_shared_def)
  have "signalling s t s2"
    using signalling_run [OF assms(1,8) cv_step_inv [OF assms(1) cv_step.signal [OF assms(4)] inv]
        cv_signal_starts [OF inv assms(4-7)]] .
  moreover from this have "cv_pc s2 t = CvSignal"
    by (simp add: signalling_def)
  ultimately show ?thesis
    unfolding assms(9)
    using cv_signal_wake_blocked [OF assms(1) _ assms(5)] cv_signal_wake_one [OF assms(1)] cv_step.signal_wake by blast
qed

text \<open>Thread 1 waits, thread 2 takes the lock and signals before thread 1 has reached its futex call.\<close>

definition lowest_futex :: futex where
  "lowest_futex = \<lparr>fx_wait = (=), fx_wake = (\<lambda>S. if \<exists>t. S t then Some (LEAST t. S t) else None)\<rparr>"

theorem signal_releases_waiter_witness:
  "\<exists>s. cv_pc s 1 = CvWait 0 \<and> cv_pc s 2 = CvIn \<and> 1 \<in> blocked s \<and>
     blocked (cv_signal_wake lowest_futex 2 (cv_signal 2 s)) \<subset> blocked s"
proof -
  let ?R = "\<lambda>s s'. \<exists>t. cv_step lowest_futex t s s'"
  let ?a = "cv_at 1 CvIn ((cv_start cv_init)\<lparr>cv_owner := Some 1\<rparr>)"
  let ?b = "cv_wait_enter 1 ?a"
  let ?s = "cv_at 2 CvIn (?b\<lparr>cv_owner := Some 2\<rparr>)"
  have "cv_step lowest_futex 1 (cv_start cv_init) ?a"
    by (rule take_lock) (simp_all add: cv_start_def)
  moreover have "cv_step lowest_futex 1 ?a ?b"
    by (rule wait_enter) simp
  moreover have "cv_step lowest_futex 2 ?b ?s"
    by (rule take_lock) (simp_all add: cv_start_def cv_wait_enter_def)
  ultimately have reach: "?R\<^sup>*\<^sup>* (cv_start cv_init) ?s"
    using converse_rtranclp_into_rtranclp [of ?R "cv_start cv_init" ?a ?s]
      converse_rtranclp_into_rtranclp [of ?R ?a ?b ?s] r_into_rtranclp [of ?R ?b ?s] by blast
  have pcs: "cv_pc ?s 1 = CvWait 0" "cv_pc ?s 2 = CvIn" "\<And>u k. cv_pc ?s u = CvWait k \<Longrightarrow> k = 0 \<and> u = 1" "cv_seq (cv ?s) = 0"
    by (auto simp: cv_wait_enter_def cv_start_def cv_init_def split: if_splits)
  have fresh: "\<forall>u. cv_pc ?s u \<noteq> CvWait (cv_seq (cv ?s) + 1)"
    using pcs(3) [of _ "cv_seq (cv ?s) + 1"] pcs(4) by force
  have "{u. in_wait ?s u} = {1}"
    by (auto simp: in_wait_def cv_wait_enter_def cv_start_def)
  then have card: "card {u. in_wait ?s u} < 2 ^ 31"
    by simp
  have one: "1 \<in> blocked ?s"
    using pcs(1,4) by (simp add: blocked_def)
  then have some: "blocked ?s \<noteq> {}"
    by blast
  have laws: "futex_laws lowest_futex"
    by (auto simp: futex_laws_def lowest_futex_def intro: LeastI split: option.splits)
  show ?thesis
    using signal_releases_waiter [OF laws _ reach pcs(2) some card fresh rtranclp.rtrancl_refl refl] pcs(1,2) one
    by (intro exI [of _ ?s]) simp
qed

end
