(* ===== verification/Spec2Isabelle.thy ===== *)
theory Spec2Isabelle
  imports Ring_Concurrent Double Pgm_Api Pgm_Depth Pgm_Print Pgmrt_Config Ticket_Lock Queue_Lock Cond_Var
begin

text \<open>
  \<^bold>\<open>PGM-RT\<close>, a library for real-time applications that are structured as processing graphs, and \<open>pgmrt\<close>, the
  program that runs such graphs.  This library of theories models both and proves what makes them correct.

  \<^bold>\<open>The program.\<close>  A graph has nodes and edges.  A thread claims a node, and then repeats: wait until every input edge
  holds enough tokens (or bytes), work, and produce on every output edge.  Edges only count tokens
  (condition-variable edges) or pass data over ring buffers, named FIFOs, message queues or sockets.  Graphs live in
  private or in shared memory.  When a source terminates, the notice is propagated along the forward edges.
  \<^verbatim>\<open>src/src/pgm.cpp\<close> is the library, \<^verbatim>\<open>src/include/pgm.h\<close> its interface, \<^verbatim>\<open>src/include/ring.h\<close> the ring buffer,
  \<^verbatim>\<open>src/include/ticketlock.h\<close>, \<^verbatim>\<open>src/include/queuelock.h\<close> and \<^verbatim>\<open>src/include/condvar.h\<close> its own synchronisation, and
  \<^verbatim>\<open>src/tools/pgmrt.cpp\<close> the program, which reads a graph and its rates from the command line and runs one thread per
  node.

  \<^bold>\<open>How the code is modelled.\<close>  A struct is a record, an enumeration or operation table a datatype, and every routine
  a function on the record \<open>pgm_state\<close> of the globals of \<^verbatim>\<open>pgm.cpp\<close> and the memory they lead to.  \<open>size_t\<close> and addresses are
  64-bit words and wrap around; handles, descriptors and return codes are integers, and array indices natural
  numbers.  Null pointers that are dereferenced, indices out of range, handles used without being set, overflow of a
  signed integer, a failed assertion and loops that do not end are the value \<open>None\<close>; an exception of \<open>pgmrt\<close> is \<open>Inl\<close> its
  message.  A \<open>double\<close> of \<open>pgmrt\<close> is rounded after every operation as IEEE 754 says.  Code that is not part of the sources is a parameter: the system calls (records \<open>os\<close>, \<open>env\<close>, \<open>host\<close>), the
  file system and shared memory of Boost (\<open>fs\<close>), its graph algorithms (\<open>graph_algs\<close>), its string and number routines
  (\<open>boost\<close>) and the futex.  What a theorem needs of them is a named hypothesis, such as \<open>split_law\<close>, \<open>gcd_laws\<close>,
  \<open>bellman_ford_correct\<close>, \<open>bellman_ford_rounded\<close>, \<open>dir_laws\<close> or \<open>clocked\<close>, and its witness instantiates the parameter by a concrete function.  A
  section under the graph mutex is one step; where threads race outside of it the theory has a step relation with one
  shared access per step.

  \<^bold>\<open>The theories.\<close>

  \<^item> \<open>Pgm_Prelude\<close> holds the machine types, C strings and numbers as text, and lemmas on words and modular
    arithmetic.
  \<^item> \<open>Double\<close> is the arithmetic of \<open>double\<close>: rounding, integers that are exact, and the error of several operations.
  \<^item> \<open>Bounded_Queue\<close> is the contract of a bounded queue, as a locale.  \<open>Ring_Buffer\<close> models all of \<^verbatim>\<open>ring.h\<close>,
    interprets the locale, and shows that \<open>init_ring\<close> rounds to the least power of two and that any sequence of
    operations is the same sequence on a bounded list.  \<open>Ring_Concurrent\<close> interleaves one writer and one reader at
    the granularity of their memory accesses: messages are read in the order in which they were written.
  \<^item> \<open>Pgm_Types\<close> and \<open>Pgm_State\<close>: the data of \<^verbatim>\<open>pgm.h\<close> and \<^verbatim>\<open>pgm.cpp\<close>, the globals and the system calls.
  \<^item> \<open>Pgm_Memory\<close>: the buffers of data-passing edges.  Buffers are aligned and in bounds, a header is recovered from
    the user pointer, and swapping exchanges exactly two buffers.
  \<^item> \<open>Pgm_Ipc\<close>: the operations of the five kinds of edges; opening and closing an end restores the edge.
  \<^item> \<open>Pgm_Graph\<close>: creation and destruction.  \<open>graph_inv\<close> is the invariant of a graph (degrees, lists, counters and masks
    agree with the edges), kept by every operation, and what a new edge changes is stated exactly.
  \<^item> \<open>Pgm_Query\<close>, \<open>Pgm_Dag\<close>, \<open>Pgm_Depth\<close>, \<open>Pgm_Print\<close>: lookups and listings, the search for ancestors and for
    cycles (they terminate and decide reachability and acyclicity; a lookup by name finds a node by any prefix of
    its name), depths as longest and shortest paths, and the text of a printed graph.
  \<^item> \<open>Pgm_Ownership\<close>: claiming and releasing.  The locale \<open>shape_keeping\<close> is the contract of an edge operation,
    interpreted for opening and closing either end.
  \<^item> \<open>Pgm_Tokens\<close>, \<open>Pgm_Data\<close>, \<open>Pgm_Exec\<close>: token counters and wake-ups (no wake-up is lost), framed messages over byte
    streams (what is sent is received, however the stream cuts it), and \<open>pgm_wait\<close>, \<open>pgm_complete\<close> and
    \<open>pgm_terminate\<close>: running nodes is the token game on the marking of the edges, and a node whose producers have
    terminated and whose tokens are used up terminates in turn.
  \<^item> \<open>Pgm_Framework\<close>: initialisation and shutdown, and the directory that is emptied on the way.  Comparing a directory
    that does not exist yet with the current one may throw; then nothing is created.
  \<^item> \<open>Pgm_Api\<close>: all entry points that change the state, as an inductive step relation over any threads and
    arguments; every graph in use is well formed in every reachable state.
  \<^item> \<open>Spin_Lock\<close> is the contract of a fair lock, as a locale: runs simulate a queue of threads.  \<open>Ticket_Lock\<close> and
    \<open>Queue_Lock\<close> interpret it, for any number of threads and with tickets that wrap around; \<open>Cond_Var\<close> shows that a
    signal releases one of the threads that are still blocked.
  \<^item> \<open>Pgmrt_Parse\<close>, \<open>Pgmrt_Rates\<close>, \<open>Pgmrt_Work\<close>, \<open>Pgmrt_Config\<close>: the program \<open>pgmrt\<close>.  A description that is printed and
    parsed gives the described graph; the propagation of rates ends on every acyclic graph and gives the right
    periods, rounded twice, when the graph is balanced; each node gets one worker whose period, execution time and
    phase, the length of a longest path, are right to within two nanoseconds; a source worker runs for its
    duration, sends a terminate signal over each of its edges and frees its node.

  \<^bold>\<open>Loops and bounds.\<close>  Recursion that follows the data is structural.  The graph searches have a termination proof by
  the number of unvisited nodes.  Loops that depend on the outside (\<open>fifo_open_loop\<close>, \<open>send_loop\<close>, \<open>wait_for_data\<close>,
  \<open>recv_loop\<close>, \<open>rates_loop\<close>, \<open>spend\<close>, \<open>work_loop\<close>) are partial functions, so that not returning is \<open>None\<close>; that they
  return is proved where the outside behaves: when the clock advances, the pipe accepts bytes, the graph is acyclic.
  No fuel is used.  Bounds in hypotheses, such as fewer than
  \<open>2 ^ 31\<close> waiting threads or times below \<open>2 ^ 64\<close> nanoseconds, are those of the types of the code.

  \<^bold>\<open>Not modelled.\<close>
  \<^item> The macros that select and initialise locks (\<^verbatim>\<open>spinlock.h\<close>, \<^verbatim>\<open>config.h\<close>, \<^verbatim>\<open>atomic.h\<close> and the wrappers in \<^verbatim>\<open>pgm.cpp\<close>),
    \<^verbatim>\<open>interrupts.h\<close>, and the variants of the locks that disable interrupts or preemption: they are assembly or calls
    into the LITMUS kernel around the same steps.
  \<^item> Memory models weaker than sequential consistency: the barriers of the code are steps without effect.
  \<^item> In \<^verbatim>\<open>pgmrt.cpp\<close>: the parsing of the command line by Boost, the LITMUS variant of the worker, the interleaving of
    the threads while \<open>main\<close> is still starting them, joining them and the calls at the end of \<open>main\<close>.
  \<^item> The test programs under \<^verbatim>\<open>src/tools\<close>: straight sequences of modelled calls that print what they observe.
  \<^item> Diagnostic output, leaks of memory and descriptors.
  \<^item> In \<^verbatim>\<open>pgm.cpp\<close>: the sums inside the path algorithms of Boost, which are parameters (\<open>Pgm_Depth\<close> states depths for exact
    sums, \<open>Pgmrt_Config\<close> for rounded ones); the members of unions that overlap in memory, which are fields of one
    record with accessors; the overflow of the counters of terminate messages, which are natural numbers; and
    characters of names with a code of 128 or more, which depend on the locale when they are printed.
\<close>

end
